theory Spec2Isabelle
  imports Main
begin

section \<open>Lisp objects and symbols (lisp.h as used by data.c and eval.c)\<close>

text \<open>
  A \<open>sym_t\<close> is the pointer to a symbol structure; the symbol table of the state maps
  it to the structure's contents.  Cons cells, strings and the other boxed objects are
  modelled as values; the cons cells whose identity matters (the \<open>defcell\<close> and
  \<open>valcell\<close> of a buffer-local value and the elements of a buffer's
  \<open>local_var_alist\<close>) live in a separate heap and are named by their address.
  \<open>EQ\<close> is equality of these values, which is exact for symbols, integers,
  buffers and frames.
\<close>

type_synonym sym_t = nat

datatype Lisp_Object =
    Qunbound
  | Symbol sym_t
  | Integer int
  | String string
  | Cons Lisp_Object Lisp_Object
  | BufferObj nat
  | FrameObj nat

abbreviation Qnil :: Lisp_Object where "Qnil \<equiv> Symbol 0"
abbreviation Qt :: Lisp_Object where "Qt \<equiv> Symbol 1"
abbreviation Qerror :: Lisp_Object where "Qerror \<equiv> Symbol 2"
abbreviation Qquit :: Lisp_Object where "Qquit \<equiv> Symbol 3"
abbreviation Qdebug :: Lisp_Object where "Qdebug \<equiv> Symbol 4"
abbreviation Qand_rest :: Lisp_Object where "Qand_rest \<equiv> Symbol 5"
abbreviation Qand_optional :: Lisp_Object where "Qand_optional \<equiv> Symbol 6"
abbreviation Qclosure :: Lisp_Object where "Qclosure \<equiv> Symbol 7"
abbreviation Qtop_level :: Lisp_Object where "Qtop_level \<equiv> Symbol 8"
abbreviation Qno_catch :: Lisp_Object where "Qno_catch \<equiv> Symbol 9"
abbreviation Qsetting_constant :: Lisp_Object where "Qsetting_constant \<equiv> Symbol 10"
abbreviation Qcyclic_variable_indirection :: Lisp_Object where
  "Qcyclic_variable_indirection \<equiv> Symbol 11"
abbreviation Qwrong_number_of_arguments :: Lisp_Object where
  "Qwrong_number_of_arguments \<equiv> Symbol 12"
abbreviation Qinvalid_function :: Lisp_Object where "Qinvalid_function \<equiv> Symbol 13"
abbreviation Qwrong_type_argument :: Lisp_Object where "Qwrong_type_argument \<equiv> Symbol 14"
abbreviation Qvoid_variable :: Lisp_Object where "Qvoid_variable \<equiv> Symbol 15"
abbreviation Qinternal_interpreter_environment :: Lisp_Object where
  "Qinternal_interpreter_environment \<equiv> Symbol 16"
abbreviation Qsymbolp :: Lisp_Object where "Qsymbolp \<equiv> Symbol 17"
abbreviation Qintegerp :: Lisp_Object where "Qintegerp \<equiv> Symbol 18"
abbreviation Qlistp :: Lisp_Object where "Qlistp \<equiv> Symbol 19"
abbreviation Qbufferp :: Lisp_Object where "Qbufferp \<equiv> Symbol 20"

definition NILP :: "Lisp_Object \<Rightarrow> bool" where
  "NILP x = (x = Qnil)"

fun CONSP :: "Lisp_Object \<Rightarrow> bool" where
  "CONSP (Cons a d) = True"
| "CONSP x = False"

fun SYMBOLP :: "Lisp_Object \<Rightarrow> bool" where
  "SYMBOLP (Symbol s) = True"
| "SYMBOLP x = False"

definition list1 :: "Lisp_Object \<Rightarrow> Lisp_Object" where
  "list1 a = Cons a Qnil"

definition list2 :: "Lisp_Object \<Rightarrow> Lisp_Object \<Rightarrow> Lisp_Object" where
  "list2 a b = Cons a (Cons b Qnil)"

text \<open>The native storage a forwarded symbol points to (\<open>union Lisp_Fwd\<close>).\<close>

datatype objptr = CVar nat | BufferDefaultsSlot nat

datatype Lisp_Fwd =
    Fwd_Int nat
  | Fwd_Bool nat
  | Fwd_Obj objptr
  | Fwd_Buffer_Obj nat Lisp_Object
  | Fwd_Kboard_Obj nat

text \<open>
  \<open>struct Lisp_Buffer_Local_Value\<close>.  \<open>defcell\<close> and \<open>valcell\<close> are the addresses
  of two cons cells of the cell heap, so that \<open>EQ (blv->valcell, blv->defcell)\<close> is
  equality of addresses.
\<close>

record Lisp_Buffer_Local_Value =
  local_if_set :: bool
  frame_local :: bool
  found :: bool
  fwd :: "Lisp_Fwd option"
  blv_where :: Lisp_Object
  defcell :: nat
  valcell :: nat

datatype symbol_redirect =
    SYMBOL_PLAINVAL Lisp_Object
  | SYMBOL_VARALIAS sym_t
  | SYMBOL_LOCALIZED Lisp_Buffer_Local_Value
  | SYMBOL_FORWARDED Lisp_Fwd

record Lisp_Symbol =
  redirect :: symbol_redirect
  sym_constant :: bool
  declared_special :: bool
  keyword :: bool
  plist :: "(Lisp_Object \<times> Lisp_Object) list"

fun is_varalias :: "symbol_redirect \<Rightarrow> bool" where
  "is_varalias (SYMBOL_VARALIAS t) = True"
| "is_varalias r = False"

text \<open>\<open>SYMBOL_ALIAS\<close> reads the alias member of the symbol's value union; the code only
  reads it from a symbol whose redirect is \<open>SYMBOL_VARALIAS\<close>.\<close>

fun SYMBOL_ALIAS :: "symbol_redirect \<Rightarrow> sym_t" where
  "SYMBOL_ALIAS (SYMBOL_VARALIAS t) = t"
| "SYMBOL_ALIAS r = undefined"

section \<open>Results of the C functions\<close>

text \<open>
  A C function of the evaluator returns a value (\<open>Ret\<close>), or it leaves through
  \<open>xsignal\<close> (\<open>Sig error_symbol data\<close>: the call of \<open>Fsignal\<close> that is about to
  search the handlers), through \<open>abort_to_prompt\<close> (\<open>Jump ptag args\<close>: the dynamic
  stack is already unwound, control is on its way to the prompt), through
  \<open>emacs_abort\<close>, \<open>fatal\<close> or a write outside the allocated stack
  (\<open>Fatal\<close>), or it never returns (\<open>Diverges\<close>).  \<open>OutOfFuel\<close> belongs to the
  evaluator's recursion bound only.
\<close>

datatype 'a result =
    Ret 'a
  | Sig Lisp_Object Lisp_Object
  | Jump nat Lisp_Object
  | Fatal string
  | Diverges
  | OutOfFuel

section \<open>Variable aliases (data.c: indirect\_variable)\<close>

partial_function (option) indirect_variable_loop ::
  "(sym_t \<Rightarrow> Lisp_Symbol) \<Rightarrow> sym_t \<Rightarrow> sym_t \<Rightarrow> sym_t \<Rightarrow> sym_t result option" where
  "indirect_variable_loop tab symbol tortoise hare =
     (if is_varalias (redirect (tab hare)) then
        (if \<not> is_varalias (redirect (tab (SYMBOL_ALIAS (redirect (tab hare))))) then
           Some (Ret (SYMBOL_ALIAS (redirect (tab hare))))
         else if SYMBOL_ALIAS (redirect (tab (SYMBOL_ALIAS (redirect (tab hare)))))
                 = SYMBOL_ALIAS (redirect (tab tortoise)) then
           Some (Sig Qcyclic_variable_indirection (list1 (Symbol symbol)))
         else
           indirect_variable_loop tab symbol
             (SYMBOL_ALIAS (redirect (tab tortoise)))
             (SYMBOL_ALIAS (redirect (tab (SYMBOL_ALIAS (redirect (tab hare)))))))
      else Some (Ret hare))"

definition indirect_variable :: "(sym_t \<Rightarrow> Lisp_Symbol) \<Rightarrow> sym_t \<Rightarrow> sym_t result" where
  "indirect_variable tab symbol =
     (case indirect_variable_loop tab symbol symbol symbol of
        Some r \<Rightarrow> r
      | None \<Rightarrow> Diverges)"

text \<open>One alias step, and the symbols that are aliases.\<close>

definition alias_step :: "(sym_t \<Rightarrow> Lisp_Symbol) \<Rightarrow> sym_t \<Rightarrow> sym_t" where
  "alias_step tab x = SYMBOL_ALIAS (redirect (tab x))"

definition aliased :: "(sym_t \<Rightarrow> Lisp_Symbol) \<Rightarrow> sym_t \<Rightarrow> bool" where
  "aliased tab x = is_varalias (redirect (tab x))"

section \<open>The evaluator's state\<close>

text \<open>
  Buffers and frames are the collaborators of buffer.c and frame.c; the resolver reads
  and writes a buffer's \<open>local_var_alist\<close> (a list of cell addresses), its per-buffer
  slots (by offset) and its \<open>local_flags\<close> (by index), and a frame's
  \<open>param_alist\<close> and keyboard.
\<close>

record buffer =
  local_var_alist :: "nat list"
  slots :: "nat \<Rightarrow> Lisp_Object"
  local_flags :: "nat \<Rightarrow> bool"

record frame =
  param_alist :: "nat list"
  frame_kboard :: nat

text \<open>
  Lisp code.  \<open>eval_sub\<close> hands a form to the Lisp evaluator, which is not part of
  eval.c; a form here is one of the calls with which evaluated code enters eval.c and
  data.c: \<open>symbol-value\<close>, \<open>set\<close>, \<open>cons\<close>, \<open>progn\<close>, \<open>bind-symbol\<close>
  (\<open>Fbind_symbol\<close>: a dynamic let), an unwind-protect
  (\<open>record_unwind_protect (unwind_body, cleanup)\<close> inside a dynwind frame),
  \<open>call-with-catch\<close>, \<open>throw\<close>, \<open>condition-case\<close> and \<open>signal\<close>.
\<close>

datatype form =
    Quote Lisp_Object
  | SymbolValue Lisp_Object
  | Setq Lisp_Object form
  | ConsF form form
  | Progn "form list"
  | BindSymbol Lisp_Object form form
  | UnwindProtect form "form list"
  | Catch Lisp_Object form
  | Throw Lisp_Object form
  | ConditionCase Lisp_Object form "(Lisp_Object \<times> form list) list"
  | Signal Lisp_Object Lisp_Object

datatype handlertype = CATCHER | CONDITION_CASE

text \<open>\<open>struct handler\<close> without its \<open>next\<close> pointer: a pointer to a handler is the
  chain that starts at it, a \<open>handler list\<close>, and \<open>NULL\<close> is the empty chain.\<close>

record handler =
  h_type :: handlertype
  tag_or_ch :: Lisp_Object
  h_var :: Lisp_Object
  h_body :: "form list"
  h_lisp_eval_depth :: int
  h_interrupt_input_blocked :: int
  ptag :: nat

text \<open>The functions eval.c registers with \<open>scm_dynwind_unwind_handler\<close>, each with
  its data argument.\<close>

datatype unwinder =
    unbind_once_fn
  | set_handlerlist_fn "handler list"
  | restore_handler_fn "handler list"
  | restore_stack_limits_fn Lisp_Object
  | unwind_body_fn "form list"

text \<open>
  The dynamic stack of the Scheme runtime: \<open>scm_dynwind_begin\<close> pushes a frame,
  \<open>scm_dynwind_unwind_handler\<close> an unwinder (with its \<open>SCM_F_WIND_EXPLICITLY\<close>
  flag), \<open>call-with-prompt\<close> a prompt.  The newest entry is the head.
\<close>

datatype wind = WindFrame | WindUnwinder unwinder bool | WindPrompt nat

text \<open>\<open>union specbinding\<close>: symbol and old value, and for the two local kinds the
  buffer the binding was made in.\<close>

datatype specbinding =
    SPECPDL_LET Lisp_Object Lisp_Object
  | SPECPDL_LET_LOCAL Lisp_Object Lisp_Object Lisp_Object
  | SPECPDL_LET_DEFAULT Lisp_Object Lisp_Object Lisp_Object

text \<open>
  \<open>specpdl\<close> holds the live entries \<open>specpdl[0 .. specpdl_ptr)\<close>, newest first, so
  \<open>SPECPDL_INDEX ()\<close> is its length; \<open>specpdl_size\<close> is the number of allocated
  entries.  \<open>Vdebugger\<close> and \<open>Vsignal_hook_function\<close> hold Lisp functions and are
  kept as code.
\<close>

record lisp_state =
  symtab :: "sym_t \<Rightarrow> Lisp_Symbol"
  cells :: "nat \<Rightarrow> Lisp_Object \<times> Lisp_Object"
  next_cell :: nat
  buffers :: "nat \<Rightarrow> buffer"
  all_buffers :: "nat list"
  live_buffers :: "nat list"
  current_buffer :: nat
  frames :: "nat \<Rightarrow> frame"
  selected_frame :: nat
  kboards :: "nat \<Rightarrow> nat \<Rightarrow> Lisp_Object"
  buffer_defaults :: "nat \<Rightarrow> Lisp_Object"
  buffer_local_flags :: "nat \<Rightarrow> int"
  last_per_buffer_idx :: int
  intvars :: "nat \<Rightarrow> int"
  boolvars :: "nat \<Rightarrow> bool"
  objvars :: "nat \<Rightarrow> Lisp_Object"
  call1_predicate :: "Lisp_Object \<Rightarrow> Lisp_Object \<Rightarrow> bool"
  specpdl :: "specbinding list"
  specpdl_size :: nat
  max_specpdl_size :: int
  lisp_eval_depth :: int
  max_lisp_eval_depth :: int
  handlerlist :: "handler list"
  handlerlist_sentinel :: "handler list"
  dynstack :: "wind list"
  prompt_tags :: nat
  interrupt_input_blocked :: int
  immediate_quit :: bool
  messages :: "string list"
  Vsignal_hook_function :: "form option"
  Vdebugger :: form
  Vinhibit_debugger :: Lisp_Object
  Vdebug_on_signal :: Lisp_Object
  Vdebug_on_error :: Lisp_Object
  Vdebug_ignored_errors :: Lisp_Object
  debug_on_quit :: bool
  debug_on_next_call :: bool
  when_entered_debugger :: int
  num_nonmacro_input_events :: int
  redisplaying_p :: bool
  error_message_matches :: "Lisp_Object \<Rightarrow> Lisp_Object \<Rightarrow> bool"

text \<open>Leaving a function through something other than its return value.\<close>

fun propagate :: "'a result \<Rightarrow> 'b result" where
  "propagate (Sig e d) = Sig e d"
| "propagate (Jump p a) = Jump p a"
| "propagate (Fatal m) = Fatal m"
| "propagate Diverges = Diverges"
| "propagate OutOfFuel = OutOfFuel"
| "propagate (Ret x) = Fatal ''propagate''"

definition seq ::
  "'a result \<times> lisp_state \<Rightarrow> ('a \<Rightarrow> lisp_state \<Rightarrow> 'b result \<times> lisp_state)
   \<Rightarrow> 'b result \<times> lisp_state" where
  "seq m f = (case m of (Ret x, s) \<Rightarrow> f x s | (r, s) \<Rightarrow> (propagate r, s))"


section \<open>Reading and writing symbol values (data.c)\<close>

definition CHECK_SYMBOL :: "Lisp_Object \<Rightarrow> lisp_state \<Rightarrow> unit result \<times> lisp_state" where
  "CHECK_SYMBOL x s =
     (if SYMBOLP x then (Ret (), s) else (Sig Qwrong_type_argument (list2 Qsymbolp x), s))"

fun XSYMBOL :: "Lisp_Object \<Rightarrow> sym_t" where
  "XSYMBOL (Symbol x) = x"
| "XSYMBOL x = undefined"

definition SYMBOL_REDIRECT :: "lisp_state \<Rightarrow> sym_t \<Rightarrow> symbol_redirect" where
  "SYMBOL_REDIRECT s symb = redirect (symtab s symb)"

definition SYMBOL_CONSTANT_P :: "lisp_state \<Rightarrow> Lisp_Object \<Rightarrow> bool" where
  "SYMBOL_CONSTANT_P s symbol = sym_constant (symtab s (XSYMBOL symbol))"

definition SET_SYMBOL_REDIRECT :: "sym_t \<Rightarrow> symbol_redirect \<Rightarrow> lisp_state \<Rightarrow> lisp_state" where
  "SET_SYMBOL_REDIRECT symb r s = s\<lparr>symtab := (symtab s)(symb := (symtab s symb)\<lparr>redirect := r\<rparr>)\<rparr>"

definition SET_SYMBOL_VAL :: "sym_t \<Rightarrow> Lisp_Object \<Rightarrow> lisp_state \<Rightarrow> lisp_state" where
  "SET_SYMBOL_VAL symb v s = SET_SYMBOL_REDIRECT symb (SYMBOL_PLAINVAL v) s"

fun the_blv :: "symbol_redirect \<Rightarrow> Lisp_Buffer_Local_Value" where
  "the_blv (SYMBOL_LOCALIZED b) = b"
| "the_blv r = undefined"

definition SYMBOL_BLV :: "lisp_state \<Rightarrow> sym_t \<Rightarrow> Lisp_Buffer_Local_Value" where
  "SYMBOL_BLV s symb = the_blv (redirect (symtab s symb))"

text \<open>A write through the \<open>blv\<close> pointer of symbol \<open>symb\<close>.\<close>

definition upd_blv ::
  "sym_t \<Rightarrow> (Lisp_Buffer_Local_Value \<Rightarrow> Lisp_Buffer_Local_Value) \<Rightarrow> lisp_state \<Rightarrow> lisp_state" where
  "upd_blv symb f s = SET_SYMBOL_REDIRECT symb (SYMBOL_LOCALIZED (f (SYMBOL_BLV s symb))) s"

text \<open>
  The head of every switch on \<open>SYMBOL_REDIRECT (symb)\<close>:
  \<open>case SYMBOL_VARALIAS: symb = indirect_variable (symb); goto start;\<close>.  The functions
  below dispatch on the redirect of the symbol it returns; their \<open>SYMBOL_VARALIAS\<close>
  case is the second \<open>goto start\<close>.
\<close>

definition start :: "sym_t \<Rightarrow> lisp_state \<Rightarrow> sym_t result \<times> lisp_state" where
  "start symb s =
     (if is_varalias (SYMBOL_REDIRECT s symb) then (indirect_variable (symtab s) symb, s)
      else (Ret symb, s))"

definition Fkeywordp :: "lisp_state \<Rightarrow> Lisp_Object \<Rightarrow> Lisp_Object" where
  "Fkeywordp s object =
     (if SYMBOLP object \<and> keyword (symtab s (XSYMBOL object)) then Qt else Qnil)"

text \<open>Cells of the cell heap: \<open>Fcons\<close>, \<open>XCAR\<close>, \<open>XCDR\<close>, \<open>XSETCDR\<close>.\<close>

definition Fcons_cell :: "Lisp_Object \<Rightarrow> Lisp_Object \<Rightarrow> lisp_state \<Rightarrow> nat \<times> lisp_state" where
  "Fcons_cell a d s =
     (next_cell s, s\<lparr>cells := (cells s)(next_cell s := (a, d)), next_cell := Suc (next_cell s)\<rparr>)"

definition XSETCDR_cell :: "nat \<Rightarrow> Lisp_Object \<Rightarrow> lisp_state \<Rightarrow> lisp_state" where
  "XSETCDR_cell c v s = s\<lparr>cells := (cells s)(c := (fst (cells s c), v))\<rparr>"

definition blv_value :: "lisp_state \<Rightarrow> Lisp_Buffer_Local_Value \<Rightarrow> Lisp_Object" where
  "blv_value s blv = snd (cells s (valcell blv))"

definition set_blv_value :: "sym_t \<Rightarrow> Lisp_Object \<Rightarrow> lisp_state \<Rightarrow> lisp_state" where
  "set_blv_value symb v s = XSETCDR_cell (valcell (SYMBOL_BLV s symb)) v s"

text \<open>\<open>assq_no_quit\<close> and \<open>Fassq\<close> on an alist of cells: the first cell whose car
  is \<open>key\<close>.\<close>

fun assq_no_quit :: "lisp_state \<Rightarrow> Lisp_Object \<Rightarrow> nat list \<Rightarrow> nat option" where
  "assq_no_quit s key [] = None"
| "assq_no_quit s key (c # cs) =
     (if fst (cells s c) = key then Some c else assq_no_quit s key cs)"

text \<open>Per-buffer slots (buffer.h, not among the sources): \<open>PER_BUFFER_IDX\<close> reads
  \<open>buffer_local_flags\<close> at the offset; \<open>PER_BUFFER_VALUE_P\<close> and
  \<open>SET_PER_BUFFER_VALUE_P\<close> abort on an index outside
  \<open>0 .. last_per_buffer_idx - 1\<close>.\<close>

definition PER_BUFFER_IDX :: "lisp_state \<Rightarrow> nat \<Rightarrow> int" where
  "PER_BUFFER_IDX s offset = buffer_local_flags s offset"

definition PER_BUFFER_VALUE_P :: "lisp_state \<Rightarrow> nat \<Rightarrow> int \<Rightarrow> bool option" where
  "PER_BUFFER_VALUE_P s b idx =
     (if idx < 0 \<or> idx \<ge> last_per_buffer_idx s then None
      else Some (local_flags (buffers s b) (nat idx)))"

definition SET_PER_BUFFER_VALUE_P ::
  "nat \<Rightarrow> int \<Rightarrow> bool \<Rightarrow> lisp_state \<Rightarrow> unit result \<times> lisp_state" where
  "SET_PER_BUFFER_VALUE_P b idx v s =
     (if idx < 0 \<or> idx \<ge> last_per_buffer_idx s then (Fatal ''emacs_abort'', s)
      else (Ret (), s\<lparr>buffers := (buffers s)
              (b := (buffers s b)\<lparr>local_flags := (local_flags (buffers s b))(nat idx := v)\<rparr>)\<rparr>))"

definition per_buffer_value :: "lisp_state \<Rightarrow> nat \<Rightarrow> nat \<Rightarrow> Lisp_Object" where
  "per_buffer_value s b offset = slots (buffers s b) offset"

definition set_per_buffer_value :: "nat \<Rightarrow> nat \<Rightarrow> Lisp_Object \<Rightarrow> lisp_state \<Rightarrow> lisp_state" where
  "set_per_buffer_value b offset v s =
     s\<lparr>buffers := (buffers s)(b := (buffers s b)\<lparr>slots := (slots (buffers s b))(offset := v)\<rparr>)\<rparr>"

definition per_buffer_default :: "lisp_state \<Rightarrow> nat \<Rightarrow> Lisp_Object" where
  "per_buffer_default s offset = buffer_defaults s offset"

definition set_per_buffer_default :: "nat \<Rightarrow> Lisp_Object \<Rightarrow> lisp_state \<Rightarrow> lisp_state" where
  "set_per_buffer_default offset v s = s\<lparr>buffer_defaults := (buffer_defaults s)(offset := v)\<rparr>"

definition bset_local_var_alist :: "nat \<Rightarrow> nat list \<Rightarrow> lisp_state \<Rightarrow> lisp_state" where
  "bset_local_var_alist b al s =
     s\<lparr>buffers := (buffers s)(b := (buffers s b)\<lparr>local_var_alist := al\<rparr>)\<rparr>"

definition Fcurrent_buffer :: "lisp_state \<Rightarrow> Lisp_Object" where
  "Fcurrent_buffer s = BufferObj (current_buffer s)"

fun BUFFERP :: "Lisp_Object \<Rightarrow> bool" where
  "BUFFERP (BufferObj b) = True"
| "BUFFERP x = False"

fun BUFFER_OBJFWDP :: "Lisp_Fwd \<Rightarrow> bool" where
  "BUFFER_OBJFWDP (Fwd_Buffer_Obj offset predicate) = True"
| "BUFFER_OBJFWDP f = False"

fun KBOARD_OBJFWDP :: "Lisp_Fwd \<Rightarrow> bool" where
  "KBOARD_OBJFWDP (Fwd_Kboard_Obj offset) = True"
| "KBOARD_OBJFWDP f = False"

text \<open>The alist \<open>swap_in_symval_forwarding\<close> and \<open>set_internal\<close> search for a
  binding in context \<open>w\<close>: \<open>XFRAME (w)->param_alist\<close> for a frame-local variable,
  \<open>BVAR (XBUFFER (w), local_var_alist)\<close> otherwise.  The code reaches \<open>XFRAME\<close>
  only with a frame and \<open>XBUFFER\<close> only with a buffer.\<close>

fun context_alist :: "lisp_state \<Rightarrow> bool \<Rightarrow> Lisp_Object \<Rightarrow> nat list" where
  "context_alist s True (FrameObj f) = param_alist (frames s f)"
| "context_alist s False (BufferObj b) = local_var_alist (buffers s b)"
| "context_alist s fl w = []"

subsection \<open>do\_symval\_forwarding and store\_symval\_forwarding\<close>

fun do_symval_forwarding :: "lisp_state \<Rightarrow> Lisp_Fwd \<Rightarrow> Lisp_Object" where
  "do_symval_forwarding s (Fwd_Int i) = Integer (intvars s i)"
| "do_symval_forwarding s (Fwd_Bool i) = (if boolvars s i then Qt else Qnil)"
| "do_symval_forwarding s (Fwd_Obj (CVar i)) = objvars s i"
| "do_symval_forwarding s (Fwd_Obj (BufferDefaultsSlot offset)) = buffer_defaults s offset"
| "do_symval_forwarding s (Fwd_Buffer_Obj offset predicate) =
     per_buffer_value s (current_buffer s) offset"
| "do_symval_forwarding s (Fwd_Kboard_Obj offset) =
     kboards s (frame_kboard (frames s (selected_frame s))) offset"

text \<open>The loop of \<open>store_symval_forwarding\<close> over the live buffers, and the loop of
  \<open>Fset_default\<close> over all buffers: a buffer without a local value for the slot
  gets the new value.\<close>

fun store_in_buffers ::
  "int \<Rightarrow> nat \<Rightarrow> Lisp_Object \<Rightarrow> nat list \<Rightarrow> lisp_state \<Rightarrow> unit result \<times> lisp_state" where
  "store_in_buffers idx offset v [] s = (Ret (), s)"
| "store_in_buffers idx offset v (b # bs) s =
     (case PER_BUFFER_VALUE_P s b idx of
        None \<Rightarrow> (Fatal ''emacs_abort'', s)
      | Some True \<Rightarrow> store_in_buffers idx offset v bs s
      | Some False \<Rightarrow> store_in_buffers idx offset v bs (set_per_buffer_value b offset v s))"

fun store_symval_forwarding ::
  "Lisp_Fwd \<Rightarrow> Lisp_Object \<Rightarrow> nat option \<Rightarrow> lisp_state \<Rightarrow> unit result \<times> lisp_state" where
  "store_symval_forwarding (Fwd_Int i) newval buf s =
     (case newval of
        Integer n \<Rightarrow> (Ret (), s\<lparr>intvars := (intvars s)(i := n)\<rparr>)
      | _ \<Rightarrow> (Sig Qwrong_type_argument (list2 Qintegerp newval), s))"
| "store_symval_forwarding (Fwd_Bool i) newval buf s =
     (Ret (), s\<lparr>boolvars := (boolvars s)(i := \<not> NILP newval)\<rparr>)"
| "store_symval_forwarding (Fwd_Obj (CVar i)) newval buf s =
     (Ret (), s\<lparr>objvars := (objvars s)(i := newval)\<rparr>)"
| "store_symval_forwarding (Fwd_Obj (BufferDefaultsSlot offset)) newval buf s =
     (let s1 = s\<lparr>buffer_defaults := (buffer_defaults s)(offset := newval)\<rparr>;
          idx = PER_BUFFER_IDX s1 offset
      in if idx \<le> 0 then (Ret (), s1)
         else store_in_buffers idx offset newval (live_buffers s1) s1)"
| "store_symval_forwarding (Fwd_Buffer_Obj offset predicate) newval buf s =
     (if \<not> NILP predicate \<and> \<not> NILP newval \<and> \<not> call1_predicate s predicate newval
      then (Sig Qwrong_type_argument (list2 predicate newval), s)
      else (Ret (), set_per_buffer_value
              (case buf of None \<Rightarrow> current_buffer s | Some b \<Rightarrow> b) offset newval s))"
| "store_symval_forwarding (Fwd_Kboard_Obj offset) newval buf s =
     (Ret (), s\<lparr>kboards := (kboards s)
        (frame_kboard (frames s (selected_frame s)) :=
           (kboards s (frame_kboard (frames s (selected_frame s))))(offset := newval))\<rparr>)"

subsection \<open>swap\_in\_global\_binding and swap\_in\_symval\_forwarding\<close>

definition unload_binding :: "sym_t \<Rightarrow> lisp_state \<Rightarrow> lisp_state" where
  "unload_binding symbol s =
     (case fwd (SYMBOL_BLV s symbol) of
        None \<Rightarrow> s
      | Some f \<Rightarrow> set_blv_value symbol (do_symval_forwarding s f) s)"

definition swap_in_global_binding :: "sym_t \<Rightarrow> lisp_state \<Rightarrow> unit result \<times> lisp_state" where
  "swap_in_global_binding symbol s =
     (let s1 = unload_binding symbol s;
          s2 = upd_blv symbol (\<lambda>blv. blv\<lparr>valcell := defcell blv\<rparr>) s1
      in seq (case fwd (SYMBOL_BLV s2 symbol) of
                None \<Rightarrow> (Ret (), s2)
              | Some f \<Rightarrow> store_symval_forwarding f
                            (snd (cells s2 (defcell (SYMBOL_BLV s2 symbol)))) None s2)
           (\<lambda>u s3. (Ret (), upd_blv symbol (\<lambda>blv. blv\<lparr>blv_where := Qnil, found := False\<rparr>) s3)))"

definition swap_in_symval_forwarding :: "sym_t \<Rightarrow> lisp_state \<Rightarrow> unit result \<times> lisp_state" where
  "swap_in_symval_forwarding symbol s =
     (let blv = SYMBOL_BLV s symbol;
          tem1 = blv_where blv
      in if NILP tem1
            \<or> (if frame_local blv then FrameObj (selected_frame s) \<noteq> tem1
                else BufferObj (current_buffer s) \<noteq> tem1)
         then
           (let s1 = unload_binding symbol s;
                var = Symbol symbol;
                w = (if frame_local blv then FrameObj (selected_frame s1) else Fcurrent_buffer s1);
                tem = assq_no_quit s1 var (context_alist s1 (frame_local blv) w);
                s2 = upd_blv symbol (\<lambda>blv. blv\<lparr>blv_where := w, found := (tem \<noteq> None)\<rparr>) s1;
                s3 = upd_blv symbol
                       (\<lambda>blv. blv\<lparr>valcell := (case tem of None \<Rightarrow> defcell blv | Some c \<Rightarrow> c)\<rparr>) s2
            in case fwd (SYMBOL_BLV s3 symbol) of
                 None \<Rightarrow> (Ret (), s3)
               | Some f \<Rightarrow> store_symval_forwarding f (blv_value s3 (SYMBOL_BLV s3 symbol)) None s3)
         else (Ret (), s))"

subsection \<open>find\_symbol\_value, Fsymbol\_value, Fboundp\<close>

definition find_symbol_value :: "Lisp_Object \<Rightarrow> lisp_state \<Rightarrow> Lisp_Object result \<times> lisp_state" where
  "find_symbol_value symbol s =
     seq (CHECK_SYMBOL symbol s) (\<lambda>u s.
     seq (start (XSYMBOL symbol) s) (\<lambda>symb s.
       case SYMBOL_REDIRECT s symb of
         SYMBOL_VARALIAS t \<Rightarrow> (Diverges, s)
       | SYMBOL_PLAINVAL v \<Rightarrow> (Ret v, s)
       | SYMBOL_LOCALIZED b \<Rightarrow>
           seq (swap_in_symval_forwarding symb s) (\<lambda>u s.
             (Ret (case fwd (SYMBOL_BLV s symb) of
                     Some f \<Rightarrow> do_symval_forwarding s f
                   | None \<Rightarrow> blv_value s (SYMBOL_BLV s symb)), s))
       | SYMBOL_FORWARDED f \<Rightarrow> (Ret (do_symval_forwarding s f), s)))"

definition Fsymbol_value :: "Lisp_Object \<Rightarrow> lisp_state \<Rightarrow> Lisp_Object result \<times> lisp_state" where
  "Fsymbol_value symbol s =
     seq (find_symbol_value symbol s) (\<lambda>val s.
       if val \<noteq> Qunbound then (Ret val, s) else (Sig Qvoid_variable (list1 symbol), s))"

definition Fboundp :: "Lisp_Object \<Rightarrow> lisp_state \<Rightarrow> Lisp_Object result \<times> lisp_state" where
  "Fboundp symbol s =
     seq (CHECK_SYMBOL symbol s) (\<lambda>u s.
     seq (start (XSYMBOL symbol) s) (\<lambda>symb s.
       case SYMBOL_REDIRECT s symb of
         SYMBOL_VARALIAS t \<Rightarrow> (Diverges, s)
       | SYMBOL_PLAINVAL v \<Rightarrow> (Ret (if v = Qunbound then Qnil else Qt), s)
       | SYMBOL_LOCALIZED b \<Rightarrow>
           (if fwd b \<noteq> None then (Ret Qt, s)
            else seq (swap_in_symval_forwarding symb s) (\<lambda>u s.
                   (Ret (if blv_value s (SYMBOL_BLV s symb) = Qunbound then Qnil else Qt), s)))
       | SYMBOL_FORWARDED f \<Rightarrow> (Ret Qt, s)))"


subsection \<open>let\_shadows\_buffer\_binding\_p and let\_shadows\_global\_binding\_p (eval.c)\<close>

fun let_shadows_buffer_binding_p :: "lisp_state \<Rightarrow> sym_t \<Rightarrow> specbinding list \<Rightarrow> bool" where
  "let_shadows_buffer_binding_p s symbol [] = False"
| "let_shadows_buffer_binding_p s symbol (SPECPDL_LET sy old # p) =
     let_shadows_buffer_binding_p s symbol p"
| "let_shadows_buffer_binding_p s symbol (SPECPDL_LET_LOCAL sy old w # p) =
     (if Symbol symbol = sy \<and> w = Fcurrent_buffer s then True
      else let_shadows_buffer_binding_p s symbol p)"
| "let_shadows_buffer_binding_p s symbol (SPECPDL_LET_DEFAULT sy old w # p) =
     (if Symbol symbol = sy \<and> w = Fcurrent_buffer s then True
      else let_shadows_buffer_binding_p s symbol p)"

fun specpdl_symbol :: "specbinding \<Rightarrow> Lisp_Object" where
  "specpdl_symbol (SPECPDL_LET sy old) = sy"
| "specpdl_symbol (SPECPDL_LET_LOCAL sy old w) = sy"
| "specpdl_symbol (SPECPDL_LET_DEFAULT sy old w) = sy"

fun specpdl_old_value :: "specbinding \<Rightarrow> Lisp_Object" where
  "specpdl_old_value (SPECPDL_LET sy old) = old"
| "specpdl_old_value (SPECPDL_LET_LOCAL sy old w) = old"
| "specpdl_old_value (SPECPDL_LET_DEFAULT sy old w) = old"

definition let_shadows_global_binding_p :: "lisp_state \<Rightarrow> Lisp_Object \<Rightarrow> bool" where
  "let_shadows_global_binding_p s symbol = (\<exists>p \<in> set (specpdl s). specpdl_symbol p = symbol)"

definition message :: "string \<Rightarrow> lisp_state \<Rightarrow> lisp_state" where
  "message m s = s\<lparr>messages := messages s @ [m]\<rparr>"

text \<open>\<open>error (m, ...)\<close>: \<open>xsignal1 (Qerror, string)\<close>; the string is kept as the
  format, without the symbol name filled in.\<close>

definition error :: "string \<Rightarrow> lisp_state \<Rightarrow> 'a result \<times> lisp_state" where
  "error m s = (Sig Qerror (list1 (String m)), s)"

subsection \<open>set\_internal and Fset\<close>

text \<open>The \<open>SYMBOL_LOCALIZED\<close> case of \<open>set_internal\<close>: choosing the binding to load
  when the loaded one is not valid for \<open>w\<close>.\<close>

definition set_internal_load :: "sym_t \<Rightarrow> Lisp_Object \<Rightarrow> bool \<Rightarrow> lisp_state \<Rightarrow> lisp_state" where
  "set_internal_load symb w bindflag s =
     (let s1 = unload_binding symb s;
          symbol = Symbol symb;
          blv = SYMBOL_BLV s1 symb;
          tem1 = assq_no_quit s1 symbol (context_alist s1 (frame_local blv) w);
          s2 = upd_blv symb (\<lambda>blv. blv\<lparr>blv_where := w, found := True\<rparr>) s1
      in case tem1 of
           Some c \<Rightarrow> upd_blv symb (\<lambda>blv. blv\<lparr>valcell := c\<rparr>) s2
         | None \<Rightarrow>
             (if bindflag \<or> \<not> local_if_set blv
                 \<or> let_shadows_buffer_binding_p s2 symb (specpdl s2)
              then upd_blv symb (\<lambda>blv. blv\<lparr>found := False, valcell := defcell blv\<rparr>) s2
              else
                (let (c, s3) = Fcons_cell symbol (snd (cells s2 (defcell blv))) s2;
                     b = (case w of BufferObj b \<Rightarrow> b | _ \<Rightarrow> current_buffer s3);
                     s4 = bset_local_var_alist b (c # local_var_alist (buffers s3 b)) s3
                 in upd_blv symb (\<lambda>blv. blv\<lparr>valcell := c\<rparr>) s4)))"

definition set_internal ::
  "Lisp_Object \<Rightarrow> Lisp_Object \<Rightarrow> Lisp_Object \<Rightarrow> bool \<Rightarrow> lisp_state \<Rightarrow> unit result \<times> lisp_state" where
  "set_internal symbol newval wh bindflag s =
     (let voide = (newval = Qunbound) in
     seq (CHECK_SYMBOL symbol s) (\<lambda>u s.
     seq (if SYMBOL_CONSTANT_P s symbol then
            (if NILP (Fkeywordp s symbol) then (Sig Qsetting_constant (list1 symbol), s)
             else seq (Fsymbol_value symbol s) (\<lambda>v s.
                    if newval \<noteq> v then (Sig Qsetting_constant (list1 symbol), s)
                    else (Ret True, s)))
          else (Ret False, s)) (\<lambda>done s.
     if done then (Ret (), s) else
     seq (start (XSYMBOL symbol) s) (\<lambda>symb s.
       case SYMBOL_REDIRECT s symb of
         SYMBOL_VARALIAS t \<Rightarrow> (Diverges, s)
       | SYMBOL_PLAINVAL v \<Rightarrow> (Ret (), SET_SYMBOL_VAL symb newval s)
       | SYMBOL_LOCALIZED b \<Rightarrow>
           (let w = (if NILP wh
                     then (if frame_local b then FrameObj (selected_frame s)
                           else BufferObj (current_buffer s))
                     else wh);
                s1 = (if blv_where b \<noteq> w \<or> valcell b = defcell b
                      then set_internal_load symb w bindflag s else s);
                s2 = set_blv_value symb newval s1
            in case fwd (SYMBOL_BLV s2 symb) of
                 None \<Rightarrow> (Ret (), s2)
               | Some f \<Rightarrow>
                   (if voide then (Ret (), upd_blv symb (\<lambda>blv. blv\<lparr>fwd := None\<rparr>) s2)
                    else store_symval_forwarding f newval
                           (case w of BufferObj b \<Rightarrow> Some b | _ \<Rightarrow> None) s2))
       | SYMBOL_FORWARDED innercontents \<Rightarrow>
           (let buf = (case wh of BufferObj b \<Rightarrow> b | _ \<Rightarrow> current_buffer s) in
            seq (case innercontents of
                   Fwd_Buffer_Obj offset predicate \<Rightarrow>
                     (let idx = PER_BUFFER_IDX s offset in
                      if idx > 0 \<and> \<not> bindflag
                         \<and> \<not> let_shadows_buffer_binding_p s symb (specpdl s)
                      then SET_PER_BUFFER_VALUE_P buf idx True s
                      else (Ret (), s))
                 | _ \<Rightarrow> (Ret (), s)) (\<lambda>u s.
              if voide then (Ret (), SET_SYMBOL_VAL symb newval s)
              else store_symval_forwarding innercontents newval (Some buf) s))))))"

definition Fset :: "Lisp_Object \<Rightarrow> Lisp_Object \<Rightarrow> lisp_state \<Rightarrow> Lisp_Object result \<times> lisp_state" where
  "Fset symbol newval s = seq (set_internal symbol newval Qnil False s) (\<lambda>u s. (Ret newval, s))"

subsection \<open>default\_value, Fdefault\_value, Fset\_default\<close>

definition default_value :: "Lisp_Object \<Rightarrow> lisp_state \<Rightarrow> Lisp_Object result \<times> lisp_state" where
  "default_value symbol s =
     seq (CHECK_SYMBOL symbol s) (\<lambda>u s.
     seq (start (XSYMBOL symbol) s) (\<lambda>symb s.
       case SYMBOL_REDIRECT s symb of
         SYMBOL_VARALIAS t \<Rightarrow> (Diverges, s)
       | SYMBOL_PLAINVAL v \<Rightarrow> (Ret v, s)
       | SYMBOL_LOCALIZED blv \<Rightarrow>
           (case fwd blv of
              Some f \<Rightarrow> if valcell blv = defcell blv then (Ret (do_symval_forwarding s f), s)
                        else (Ret (snd (cells s (defcell blv))), s)
            | None \<Rightarrow> (Ret (snd (cells s (defcell blv))), s))
       | SYMBOL_FORWARDED valcontents \<Rightarrow>
           (case valcontents of
              Fwd_Buffer_Obj offset predicate \<Rightarrow>
                if PER_BUFFER_IDX s offset \<noteq> 0 then (Ret (per_buffer_default s offset), s)
                else (Ret (do_symval_forwarding s valcontents), s)
            | _ \<Rightarrow> (Ret (do_symval_forwarding s valcontents), s))))"

definition Fdefault_value :: "Lisp_Object \<Rightarrow> lisp_state \<Rightarrow> Lisp_Object result \<times> lisp_state" where
  "Fdefault_value symbol s =
     seq (default_value symbol s) (\<lambda>v s.
       if v \<noteq> Qunbound then (Ret v, s) else (Sig Qvoid_variable (list1 symbol), s))"

definition Fset_default ::
  "Lisp_Object \<Rightarrow> Lisp_Object \<Rightarrow> lisp_state \<Rightarrow> Lisp_Object result \<times> lisp_state" where
  "Fset_default symbol v s =
     seq (CHECK_SYMBOL symbol s) (\<lambda>u s.
     seq (if SYMBOL_CONSTANT_P s symbol then
            (if NILP (Fkeywordp s symbol) then (Sig Qsetting_constant (list1 symbol), s)
             else seq (Fdefault_value symbol s) (\<lambda>d s.
                    if v \<noteq> d then (Sig Qsetting_constant (list1 symbol), s)
                    else (Ret True, s)))
          else (Ret False, s)) (\<lambda>done s.
     if done then (Ret v, s) else
     seq (start (XSYMBOL symbol) s) (\<lambda>symb s.
       case SYMBOL_REDIRECT s symb of
         SYMBOL_VARALIAS t \<Rightarrow> (Diverges, s)
       | SYMBOL_PLAINVAL old \<Rightarrow> Fset symbol v s
       | SYMBOL_LOCALIZED blv \<Rightarrow>
           (let s1 = XSETCDR_cell (defcell blv) v s in
            case fwd blv of
              Some f \<Rightarrow>
                if defcell blv = valcell blv
                then seq (store_symval_forwarding f v None s1) (\<lambda>u s. (Ret v, s))
                else (Ret v, s1)
            | None \<Rightarrow> (Ret v, s1))
       | SYMBOL_FORWARDED valcontents \<Rightarrow>
           (case valcontents of
              Fwd_Buffer_Obj offset predicate \<Rightarrow>
                (let idx = PER_BUFFER_IDX s offset;
                     s1 = set_per_buffer_default offset v s
                 in if idx > 0
                    then seq (store_in_buffers idx offset v (all_buffers s1) s1) (\<lambda>u s. (Ret v, s))
                    else (Ret v, s1))
            | _ \<Rightarrow> Fset symbol v s))))"

subsection \<open>Creating and removing buffer-local and frame-local bindings\<close>

text \<open>\<open>make_blv\<close> with the two stores that follow every call of it:
  \<open>SET_SYMBOL_REDIRECT (sym, SYMBOL_LOCALIZED)\<close> and \<open>SET_SYMBOL_BLV (sym, blv)\<close>.
  The argument is \<open>valcontents\<close>: the forward when \<open>forwarded\<close>, the value
  otherwise.\<close>

definition make_blv ::
  "sym_t \<Rightarrow> Lisp_Fwd option \<Rightarrow> Lisp_Object \<Rightarrow> lisp_state \<Rightarrow> Lisp_Buffer_Local_Value \<times> lisp_state" where
  "make_blv symb forwarded v s =
     (let (tem, s1) = Fcons_cell (Symbol symb)
                        (case forwarded of Some f \<Rightarrow> do_symval_forwarding s f | None \<Rightarrow> v) s
      in (\<lparr>local_if_set = False, frame_local = False, found = False, fwd = forwarded,
           blv_where = Qnil, defcell = tem, valcell = tem\<rparr>, s1))"

definition install_blv :: "sym_t \<Rightarrow> Lisp_Buffer_Local_Value \<Rightarrow> string \<Rightarrow> lisp_state \<Rightarrow> lisp_state" where
  "install_blv symb blv msg s =
     (let s1 = SET_SYMBOL_REDIRECT symb (SYMBOL_LOCALIZED blv) s
      in if let_shadows_global_binding_p s1 (Symbol symb) then message msg s1 else s1)"

definition Fmake_variable_buffer_local ::
  "Lisp_Object \<Rightarrow> lisp_state \<Rightarrow> Lisp_Object result \<times> lisp_state" where
  "Fmake_variable_buffer_local variable s =
     seq (CHECK_SYMBOL variable s) (\<lambda>u s.
     seq (start (XSYMBOL variable) s) (\<lambda>symb s.
       let finish = (\<lambda>s. (Ret variable, upd_blv symb (\<lambda>blv. blv\<lparr>local_if_set := True\<rparr>) s));
           create = (\<lambda>forwarded v s.
              if sym_constant (symtab s symb)
              then error ''Symbol %s may not be buffer-local'' s
              else (let (blv, s1) = make_blv symb forwarded v s
                    in finish (install_blv symb blv ''Making %s buffer-local while let-bound!'' s1)))
       in case SYMBOL_REDIRECT s symb of
         SYMBOL_VARALIAS t \<Rightarrow> (Diverges, s)
       | SYMBOL_PLAINVAL v \<Rightarrow> create None (if v = Qunbound then Qnil else v) s
       | SYMBOL_LOCALIZED blv \<Rightarrow>
           if frame_local blv then error ''Symbol %s may not be buffer-local'' s
           else if sym_constant (symtab s symb)
           then error ''Symbol %s may not be buffer-local'' s
           else finish s
       | SYMBOL_FORWARDED f \<Rightarrow>
           if KBOARD_OBJFWDP f then error ''Symbol %s may not be buffer-local'' s
           else if BUFFER_OBJFWDP f then (Ret variable, s)
           else create (Some f) Qnil s))"

definition Fmake_local_variable ::
  "Lisp_Object \<Rightarrow> lisp_state \<Rightarrow> Lisp_Object result \<times> lisp_state" where
  "Fmake_local_variable variable0 s =
     seq (CHECK_SYMBOL variable0 s) (\<lambda>u s.
     seq (start (XSYMBOL variable0) s) (\<lambda>symb s.
       let set_it = (\<lambda>s.
              seq (Fboundp variable0 s) (\<lambda>tem s.
              seq (if tem = Qt then Fsymbol_value variable0 s else (Ret Qunbound, s)) (\<lambda>v s.
              seq (Fset variable0 v s) (\<lambda>u s. (Ret variable0, s)))));
           localize = (\<lambda>s.
              let variable = Symbol symb;
                  tem = assq_no_quit s variable (local_var_alist (buffers s (current_buffer s)))
              in seq (if tem = None then
                        (let s1 = (if let_shadows_buffer_binding_p s symb (specpdl s)
                                   then message ''Making %s buffer-local while locally let-bound!'' s
                                   else s)
                         in seq (find_symbol_value variable s1) (\<lambda>v s.
                              let (c, s2) = Fcons_cell variable
                                              (snd (cells s (defcell (SYMBOL_BLV s symb)))) s;
                                  s3 = bset_local_var_alist (current_buffer s2)
                                         (c # local_var_alist (buffers s2 (current_buffer s2))) s2;
                                  s4 = (if BufferObj (current_buffer s3) = blv_where (SYMBOL_BLV s3 symb)
                                        then upd_blv symb (\<lambda>blv. blv\<lparr>blv_where := Qnil\<rparr>) s3
                                        else s3)
                              in (Ret (), upd_blv symb (\<lambda>blv. blv\<lparr>found := False\<rparr>) s4)))
                      else (Ret (), s)) (\<lambda>u s.
                 seq (if fwd (SYMBOL_BLV s symb) \<noteq> None then swap_in_symval_forwarding symb s
                      else (Ret (), s)) (\<lambda>u s. (Ret variable, s))));
           create = (\<lambda>forwarded v s.
              let (blv, s1) = make_blv symb forwarded v s
              in localize (install_blv symb blv ''Making %s local to %s while let-bound!'' s1))
       in case SYMBOL_REDIRECT s symb of
         SYMBOL_VARALIAS t \<Rightarrow> (Diverges, s)
       | SYMBOL_PLAINVAL v \<Rightarrow>
           if sym_constant (symtab s symb) then error ''Symbol %s may not be buffer-local'' s
           else create None v s
       | SYMBOL_LOCALIZED blv \<Rightarrow>
           if frame_local blv then error ''Symbol %s may not be buffer-local'' s
           else if sym_constant (symtab s symb)
           then error ''Symbol %s may not be buffer-local'' s
           else if local_if_set blv then set_it s
           else localize s
       | SYMBOL_FORWARDED f \<Rightarrow>
           if KBOARD_OBJFWDP f then error ''Symbol %s may not be buffer-local'' s
           else if sym_constant (symtab s symb)
           then error ''Symbol %s may not be buffer-local'' s
           else if BUFFER_OBJFWDP f then set_it s
           else create (Some f) Qnil s))"

definition Fkill_local_variable ::
  "Lisp_Object \<Rightarrow> lisp_state \<Rightarrow> Lisp_Object result \<times> lisp_state" where
  "Fkill_local_variable variable0 s =
     seq (CHECK_SYMBOL variable0 s) (\<lambda>u s.
     seq (start (XSYMBOL variable0) s) (\<lambda>symb s.
       case SYMBOL_REDIRECT s symb of
         SYMBOL_VARALIAS t \<Rightarrow> (Diverges, s)
       | SYMBOL_PLAINVAL v \<Rightarrow> (Ret variable0, s)
       | SYMBOL_FORWARDED valcontents \<Rightarrow>
           (case valcontents of
              Fwd_Buffer_Obj offset predicate \<Rightarrow>
                (let idx = PER_BUFFER_IDX s offset in
                 if idx > 0 then
                   seq (SET_PER_BUFFER_VALUE_P (current_buffer s) idx False s) (\<lambda>u s.
                     (Ret variable0,
                      set_per_buffer_value (current_buffer s) offset (per_buffer_default s offset) s))
                 else (Ret variable0, s))
            | _ \<Rightarrow> (Ret variable0, s))
       | SYMBOL_LOCALIZED blv \<Rightarrow>
           if frame_local blv then (Ret variable0, s)
           else
             (let variable = Symbol symb;
                  al = local_var_alist (buffers s (current_buffer s));
                  s1 = (case assq_no_quit s variable al of
                          Some tem \<Rightarrow> bset_local_var_alist (current_buffer s) (removeAll tem al) s
                        | None \<Rightarrow> s)
              in if BufferObj (current_buffer s1) = blv_where (SYMBOL_BLV s1 symb)
                 then seq (find_symbol_value variable
                             (upd_blv symb (\<lambda>blv. blv\<lparr>blv_where := Qnil, found := False\<rparr>) s1))
                        (\<lambda>v s. (Ret variable, s))
                 else (Ret variable, s1))))"

definition Fmake_variable_frame_local ::
  "Lisp_Object \<Rightarrow> lisp_state \<Rightarrow> Lisp_Object result \<times> lisp_state" where
  "Fmake_variable_frame_local variable s =
     seq (CHECK_SYMBOL variable s) (\<lambda>u s.
     seq (start (XSYMBOL variable) s) (\<lambda>symb s.
       let create = (\<lambda>forwarded v s.
              if sym_constant (symtab s symb)
              then error ''Symbol %s may not be frame-local'' s
              else (let (blv, s1) = make_blv symb forwarded v s
                    in (Ret variable,
                        install_blv symb (blv\<lparr>frame_local := True\<rparr>)
                          ''Making %s frame-local while let-bound!'' s1)))
       in case SYMBOL_REDIRECT s symb of
         SYMBOL_VARALIAS t \<Rightarrow> (Diverges, s)
       | SYMBOL_PLAINVAL v \<Rightarrow> create None (if v = Qunbound then Qnil else v) s
       | SYMBOL_LOCALIZED blv \<Rightarrow>
           if frame_local blv then (Ret variable, s)
           else error ''Symbol %s may not be frame-local'' s
       | SYMBOL_FORWARDED f \<Rightarrow>
           if KBOARD_OBJFWDP f \<or> BUFFER_OBJFWDP f
           then error ''Symbol %s may not be frame-local'' s
           else create (Some f) Qnil s))"

definition Flocal_variable_p ::
  "Lisp_Object \<Rightarrow> Lisp_Object \<Rightarrow> lisp_state \<Rightarrow> Lisp_Object result \<times> lisp_state" where
  "Flocal_variable_p variable buffer s =
     seq (if NILP buffer then (Ret (current_buffer s), s)
          else (case buffer of
                  BufferObj b \<Rightarrow> (Ret b, s)
                | _ \<Rightarrow> (Sig Qwrong_type_argument (list2 Qbufferp buffer), s))) (\<lambda>buf s.
     seq (CHECK_SYMBOL variable s) (\<lambda>u s.
     seq (start (XSYMBOL variable) s) (\<lambda>symb s.
       case SYMBOL_REDIRECT s symb of
         SYMBOL_VARALIAS t \<Rightarrow> (Diverges, s)
       | SYMBOL_PLAINVAL v \<Rightarrow> (Ret Qnil, s)
       | SYMBOL_LOCALIZED blv \<Rightarrow>
           if blv_where blv = BufferObj buf then (Ret (if found blv then Qt else Qnil), s)
           else (Ret (if assq_no_quit s (Symbol symb) (local_var_alist (buffers s buf)) \<noteq> None
                      then Qt else Qnil), s)
       | SYMBOL_FORWARDED valcontents \<Rightarrow>
           (case valcontents of
              Fwd_Buffer_Obj offset predicate \<Rightarrow>
                (let idx = PER_BUFFER_IDX s offset in
                 if idx = - 1 then (Ret Qt, s)
                 else (case PER_BUFFER_VALUE_P s buf idx of
                         None \<Rightarrow> (Fatal ''emacs_abort'', s)
                       | Some True \<Rightarrow> (Ret Qt, s)
                       | Some False \<Rightarrow> (Ret Qnil, s)))
            | _ \<Rightarrow> (Ret Qnil, s)))))"


section \<open>The binding stack (eval.c)\<close>

text \<open>
  \<open>xpalloc\<close> (alloc.c, not among the sources) as \<open>grow_specpdl\<close> calls it: the
  new number of items, grown by about half, by at least \<open>nitems_incr_min\<close>, to at
  most \<open>nitems_max\<close>.
\<close>

definition xpalloc :: "nat \<Rightarrow> nat \<Rightarrow> nat \<Rightarrow> nat" where
  "xpalloc nitems nitems_incr_min nitems_max =
     nitems + max nitems_incr_min (min (nitems div 2) (nitems_max - nitems))"

definition PTRDIFF_MAX :: int where
  "PTRDIFF_MAX = 2 ^ 63 - 1"

definition SPECPDL_INDEX :: "lisp_state \<Rightarrow> nat" where
  "SPECPDL_INDEX s = length (specpdl s)"

text \<open>\<open>signal_error (s, Qnil)\<close>: \<open>xsignal (Qerror, Fcons (build_string (s), Qnil))\<close>.\<close>

definition signal_error :: "string \<Rightarrow> lisp_state \<Rightarrow> 'a result \<times> lisp_state" where
  "signal_error m s = (Sig Qerror (Cons (String m) Qnil), s)"

text \<open>
  \<open>grow_specpdl\<close>, together with the caller's initialisation of the entry at
  \<open>specpdl_ptr\<close>: the entry is written (it must lie inside the allocated vector),
  \<open>specpdl_ptr\<close> is incremented, and when it reaches the end of the vector the vector
  grows, or the error is signalled with the entry already pushed.
\<close>

definition grow_specpdl :: "specbinding \<Rightarrow> lisp_state \<Rightarrow> unit result \<times> lisp_state" where
  "grow_specpdl entry s =
     (if SPECPDL_INDEX s \<ge> specpdl_size s then (Fatal ''write outside specpdl'', s)
      else
        (let s1 = s\<lparr>specpdl := entry # specpdl s\<rparr> in
         if SPECPDL_INDEX s1 = specpdl_size s1 then
           (let max_size = min (max_specpdl_size s1) (PTRDIFF_MAX - 1000);
                s2 = (if max_size \<le> int (specpdl_size s1) \<and> max_specpdl_size s1 < 400
                      then s1\<lparr>max_specpdl_size := 400\<rparr> else s1);
                max_size = (if max_size \<le> int (specpdl_size s1) \<and> max_specpdl_size s1 < 400
                            then 400 else max_size)
            in if max_size \<le> int (specpdl_size s2)
               then signal_error ''Variable binding depth exceeds max-specpdl-size'' s2
               else (Ret (), s2\<lparr>specpdl_size :=
                       xpalloc (specpdl_size s2 + 1) 1 (nat max_size + 1) - 1\<rparr>))
         else (Ret (), s1)))"

text \<open>The dynamic stack of the Scheme runtime (libguile, not among the sources), as its
  manual documents it.\<close>

definition scm_dynwind_begin :: "lisp_state \<Rightarrow> lisp_state" where
  "scm_dynwind_begin s = s\<lparr>dynstack := WindFrame # dynstack s\<rparr>"

definition scm_dynwind_unwind_handler :: "unwinder \<Rightarrow> bool \<Rightarrow> lisp_state \<Rightarrow> lisp_state" where
  "scm_dynwind_unwind_handler u explicitly s =
     s\<lparr>dynstack := WindUnwinder u explicitly # dynstack s\<rparr>"

definition dynwind_begin :: "lisp_state \<Rightarrow> lisp_state" where
  "dynwind_begin s = scm_dynwind_begin s"

definition record_unwind_protect_ptr_1 :: "unwinder \<Rightarrow> bool \<Rightarrow> lisp_state \<Rightarrow> lisp_state" where
  "record_unwind_protect_ptr_1 u wind_explicitly s =
     scm_dynwind_unwind_handler u wind_explicitly s"

definition record_unwind_protect :: "unwinder \<Rightarrow> lisp_state \<Rightarrow> lisp_state" where
  "record_unwind_protect u s = record_unwind_protect_ptr_1 u True s"

subsection \<open>specbind\<close>

text \<open>The shared body of the \<open>SYMBOL_LOCALIZED\<close> and \<open>SYMBOL_FORWARDED\<close> cases.
  It returns whether the binding is complete (\<open>goto done\<close> after \<open>Fset_default\<close>).\<close>

definition specbind_local ::
  "Lisp_Object \<Rightarrow> sym_t \<Rightarrow> Lisp_Object \<Rightarrow> lisp_state \<Rightarrow> unit result \<times> lisp_state" where
  "specbind_local symbol symb v s =
     seq (find_symbol_value symbol s) (\<lambda>ovalue s.
       let wh = Fcurrent_buffer s in
       case SYMBOL_REDIRECT s symb of
         SYMBOL_LOCALIZED blv \<Rightarrow>
           seq (grow_specpdl (if \<not> found blv then SPECPDL_LET_DEFAULT symbol ovalue wh
                              else SPECPDL_LET_LOCAL symbol ovalue wh) s) (\<lambda>u s.
             set_internal symbol v Qnil True s)
       | SYMBOL_FORWARDED f \<Rightarrow>
           if BUFFER_OBJFWDP f then
             seq (Flocal_variable_p symbol Qnil s) (\<lambda>l s.
               if NILP l then
                 seq (grow_specpdl (SPECPDL_LET_DEFAULT symbol ovalue wh) s) (\<lambda>u s.
                 seq (Fset_default symbol v s) (\<lambda>u s. (Ret (), s)))
               else
                 seq (grow_specpdl (SPECPDL_LET_LOCAL symbol ovalue wh) s) (\<lambda>u s.
                   set_internal symbol v Qnil True s))
           else
             seq (grow_specpdl (SPECPDL_LET symbol ovalue) s) (\<lambda>u s.
               set_internal symbol v Qnil True s)
       | _ \<Rightarrow> (Fatal ''emacs_abort'', s))"

definition specbind :: "Lisp_Object \<Rightarrow> Lisp_Object \<Rightarrow> lisp_state \<Rightarrow> unit result \<times> lisp_state" where
  "specbind symbol0 v s =
     seq (CHECK_SYMBOL symbol0 s) (\<lambda>u s.
     seq (start (XSYMBOL symbol0) s) (\<lambda>symb s.
       let symbol = Symbol symb in
       seq (case SYMBOL_REDIRECT s symb of
              SYMBOL_VARALIAS t \<Rightarrow> (Diverges, s)
            | SYMBOL_PLAINVAL old \<Rightarrow>
                seq (grow_specpdl (SPECPDL_LET symbol old) s) (\<lambda>u s.
                  if \<not> sym_constant (symtab s symb) then (Ret (), SET_SYMBOL_VAL symb v s)
                  else set_internal symbol v Qnil True s)
            | SYMBOL_LOCALIZED blv \<Rightarrow>
                if frame_local blv then error ''Frame-local vars cannot be let-bound'' s
                else specbind_local symbol symb v s
            | SYMBOL_FORWARDED f \<Rightarrow> specbind_local symbol symb v s) (\<lambda>u s.
         (Ret (), scm_dynwind_unwind_handler unbind_once_fn True s))))"

subsection \<open>unbind\_once\<close>

definition unbind_once :: "lisp_state \<Rightarrow> unit result \<times> lisp_state" where
  "unbind_once s =
     (case specpdl s of
        [] \<Rightarrow> (Fatal ''specpdl_ptr below specpdl'', s)
      | entry # rest \<Rightarrow>
          (let s1 = s\<lparr>specpdl := rest\<rparr> in
           case entry of
             SPECPDL_LET symbol old_value \<Rightarrow>
               (case SYMBOL_REDIRECT s1 (XSYMBOL symbol) of
                  SYMBOL_PLAINVAL v \<Rightarrow> (Ret (), SET_SYMBOL_VAL (XSYMBOL symbol) old_value s1)
                | _ \<Rightarrow> seq (Fset_default symbol old_value s1) (\<lambda>u s. (Ret (), s)))
           | SPECPDL_LET_DEFAULT symbol old_value wh \<Rightarrow>
               seq (Fset_default symbol old_value s1) (\<lambda>u s. (Ret (), s))
           | SPECPDL_LET_LOCAL symbol old_value wh \<Rightarrow>
               seq (Flocal_variable_p symbol wh s1) (\<lambda>l s.
                 if \<not> NILP l then set_internal symbol old_value wh True s
                 else (Ret (), s))))"


section \<open>Catch, throw, condition-case and signal (eval.c)\<close>

abbreviation Qdebugger_may_continue :: Lisp_Object where "Qdebugger_may_continue \<equiv> Symbol 21"
abbreviation Qinhibit_redisplay :: Lisp_Object where "Qinhibit_redisplay \<equiv> Symbol 22"
abbreviation Qinhibit_debugger :: Lisp_Object where "Qinhibit_debugger \<equiv> Symbol 23"
abbreviation Qerror_conditions :: Lisp_Object where "Qerror_conditions \<equiv> Symbol 24"

text \<open>\<open>make_prompt_tag\<close> of the Scheme runtime returns a tag no earlier call returned.\<close>

definition make_prompt_tag :: "lisp_state \<Rightarrow> nat \<times> lisp_state" where
  "make_prompt_tag s = (prompt_tags s, s\<lparr>prompt_tags := Suc (prompt_tags s)\<rparr>)"

definition make_catch_handler :: "Lisp_Object \<Rightarrow> lisp_state \<Rightarrow> handler list \<times> lisp_state" where
  "make_catch_handler tag s =
     (let (p, s1) = make_prompt_tag s
      in (\<lparr>h_type = CATCHER, tag_or_ch = tag, h_var = Qnil, h_body = [],
           h_lisp_eval_depth = lisp_eval_depth s,
           h_interrupt_input_blocked = interrupt_input_blocked s, ptag = p\<rparr>
          # handlerlist s, s1))"

definition make_condition_handler :: "Lisp_Object \<Rightarrow> lisp_state \<Rightarrow> handler list \<times> lisp_state" where
  "make_condition_handler tag s =
     (let (p, s1) = make_prompt_tag s
      in (\<lparr>h_type = CONDITION_CASE, tag_or_ch = tag, h_var = Qnil, h_body = [],
           h_lisp_eval_depth = lisp_eval_depth s,
           h_interrupt_input_blocked = interrupt_input_blocked s, ptag = p\<rparr>
          # handlerlist s, s1))"

text \<open>\<open>icc_thunk\<close> up to the call of the body.\<close>

definition icc_thunk_enter :: "handler list \<Rightarrow> lisp_state \<Rightarrow> lisp_state" where
  "icc_thunk_enter c s =
     (let s1 = scm_dynwind_begin s;
          s2 = scm_dynwind_unwind_handler (restore_handler_fn c) False s1;
          s3 = scm_dynwind_unwind_handler (set_handlerlist_fn (handlerlist s2)) True s2
      in s3\<lparr>handlerlist := c\<rparr>)"

text \<open>\<open>call-with-prompt\<close> of the Scheme runtime: the prompt is pushed on the dynamic
  stack before the thunk runs and popped when the thunk returns.\<close>

definition push_prompt :: "nat \<Rightarrow> lisp_state \<Rightarrow> lisp_state" where
  "push_prompt p s = s\<lparr>dynstack := WindPrompt p # dynstack s\<rparr>"

definition pop_prompt :: "nat \<Rightarrow> 'a \<Rightarrow> lisp_state \<Rightarrow> 'a result \<times> lisp_state" where
  "pop_prompt p v s =
     (case dynstack s of
        WindPrompt q # rest \<Rightarrow>
          if q = p then (Ret v, s\<lparr>dynstack := rest\<rparr>) else (Fatal ''dynstack'', s)
      | _ \<Rightarrow> (Fatal ''dynstack'', s))"

text \<open>\<open>xsignal\<close>: \<open>Fsignal (error_symbol, data); emacs_abort ();\<close>.\<close>

definition no_return :: "'a result \<times> lisp_state \<Rightarrow> 'b result \<times> lisp_state" where
  "no_return m = (case m of (Ret v, s) \<Rightarrow> (Fatal ''emacs_abort'', s) | (r, s) \<Rightarrow> (propagate r, s))"

text \<open>\<open>Fmemq\<close> compares with \<open>EQ\<close>.  On symbols and integers \<open>EQ\<close> is
  equality of the values, and only there is the equality below \<open>EQ\<close>: \<open>Fmemq\<close> is
  used on condition lists and on clauses of handlers, which are lists of symbols.\<close>

fun Fmemq :: "Lisp_Object \<Rightarrow> Lisp_Object \<Rightarrow> Lisp_Object" where
  "Fmemq elt (Cons a d) = (if a = elt then Cons a d else Fmemq elt d)"
| "Fmemq elt tail = Qnil"

fun find_handler_clause_loop :: "Lisp_Object \<Rightarrow> Lisp_Object \<Rightarrow> Lisp_Object \<Rightarrow> Lisp_Object" where
  "find_handler_clause_loop handlers (Cons handler d) conditions =
     (if \<not> NILP (Fmemq handler conditions) then handlers
      else find_handler_clause_loop handlers d conditions)"
| "find_handler_clause_loop handlers h conditions = Qnil"

definition find_handler_clause :: "Lisp_Object \<Rightarrow> Lisp_Object \<Rightarrow> Lisp_Object" where
  "find_handler_clause handlers conditions =
     (if handlers = Qt then Qt
      else if handlers = Qerror then Qt
      else find_handler_clause_loop handlers handlers conditions)"

text \<open>The handler search of \<open>Fsignal\<close>: the clause found and the handler \<open>h\<close> the
  loop stopped at (\<open>NULL\<close> after a complete scan).\<close>

fun signal_find_handler :: "handler list \<Rightarrow> Lisp_Object \<Rightarrow> Lisp_Object \<times> handler list" where
  "signal_find_handler [] conditions = (Qnil, [])"
| "signal_find_handler (h # next) conditions =
     (if h_type h \<noteq> CONDITION_CASE then signal_find_handler next conditions
      else if \<not> NILP (find_handler_clause (tag_or_ch h) conditions)
           then (find_handler_clause (tag_or_ch h) conditions, h # next)
      else signal_find_handler next conditions)"

text \<open>The search of \<open>Fthrow\<close> for the catch to unwind to.  The tags are compared
  with \<open>EQ\<close>, which is equality of the values on symbols and integers; the theorems
  on \<open>Fthrow\<close> take a symbol or an integer as the tag.\<close>

fun throw_find_catch :: "handler list \<Rightarrow> Lisp_Object \<Rightarrow> handler list" where
  "throw_find_catch [] tag = []"
| "throw_find_catch (c # next) tag =
     (if h_type c = CATCHER \<and> tag_or_ch c = tag then c # next else throw_find_catch next tag)"

text \<open>\<open>Fget\<close> (fns.c) on the property list of a symbol.\<close>

definition Fget :: "lisp_state \<Rightarrow> Lisp_Object \<Rightarrow> Lisp_Object \<Rightarrow> Lisp_Object" where
  "Fget s symbol prop =
     (case symbol of
        Symbol x \<Rightarrow> (case map_of (plist (symtab s x)) prop of Some v \<Rightarrow> v | None \<Rightarrow> Qnil)
      | _ \<Rightarrow> Qnil)"

fun Fcar :: "Lisp_Object \<Rightarrow> Lisp_Object" where
  "Fcar (Cons a d) = a"
| "Fcar x = Qnil"

subsection \<open>The debugger policy\<close>

fun memq_list :: "Lisp_Object \<Rightarrow> Lisp_Object \<Rightarrow> bool" where
  "memq_list x (Cons a d) = (a = x \<or> memq_list x d)"
| "memq_list x tail = False"

fun wants_debugger_loop :: "Lisp_Object \<Rightarrow> Lisp_Object \<Rightarrow> bool" where
  "wants_debugger_loop lst (Cons this d) = (memq_list this lst \<or> wants_debugger_loop lst d)"
| "wants_debugger_loop lst conditions = False"

definition wants_debugger :: "Lisp_Object \<Rightarrow> Lisp_Object \<Rightarrow> bool" where
  "wants_debugger lst conditions =
     (if NILP lst then False
      else if \<not> CONSP lst then True
      else wants_debugger_loop lst conditions)"

text \<open>\<open>skip_debugger\<close>; \<open>error_message_matches s regexp data\<close> stands for
  \<open>fast_string_match (regexp, Ferror_message_string (data)) >= 0\<close>.\<close>

fun skip_debugger_loop :: "lisp_state \<Rightarrow> Lisp_Object \<Rightarrow> Lisp_Object \<Rightarrow> Lisp_Object \<Rightarrow> bool" where
  "skip_debugger_loop s (Cons (String re) d) conditions data =
     (error_message_matches s (String re) data \<or> skip_debugger_loop s d conditions data)"
| "skip_debugger_loop s (Cons x d) conditions data =
     (memq_list x conditions \<or> skip_debugger_loop s d conditions data)"
| "skip_debugger_loop s tail conditions data = False"

definition skip_debugger :: "lisp_state \<Rightarrow> Lisp_Object \<Rightarrow> Lisp_Object \<Rightarrow> bool" where
  "skip_debugger s conditions data =
     skip_debugger_loop s (Vdebug_ignored_errors s) conditions data"

text \<open>The condition under which \<open>maybe_call_debugger\<close> calls the debugger.\<close>

definition debugger_enabled :: "lisp_state \<Rightarrow> Lisp_Object \<Rightarrow> Lisp_Object \<Rightarrow> Lisp_Object \<Rightarrow> bool" where
  "debugger_enabled s conditions sig data =
     (\<not> (interrupt_input_blocked s > 0)
      \<and> NILP (Vinhibit_debugger s)
      \<and> (if sig = Qquit then debug_on_quit s else wants_debugger (Vdebug_on_error s) conditions)
      \<and> \<not> skip_debugger s conditions (Cons sig data)
      \<and> when_entered_debugger s < num_nonmacro_input_events s)"

text \<open>\<open>call_debugger\<close> from its first statement to the first \<open>specbind\<close>.\<close>

definition call_debugger_enter :: "lisp_state \<Rightarrow> lisp_state" where
  "call_debugger_enter s =
     (let s1 = dynwind_begin s;
          old_depth = max_lisp_eval_depth s1;
          old_max = max_specpdl_size s1;
          s2 = (if lisp_eval_depth s1 + 40 > max_lisp_eval_depth s1
                then s1\<lparr>max_lisp_eval_depth := lisp_eval_depth s1 + 40\<rparr> else s1);
          s3 = record_unwind_protect
                 (restore_stack_limits_fn (Cons (Integer old_max) (Integer old_depth))) s2
      in s3\<lparr>debug_on_next_call := False,
            when_entered_debugger := num_nonmacro_input_events s3,
            redisplaying_p := False\<rparr>)"

fun restore_stack_limits :: "Lisp_Object \<Rightarrow> lisp_state \<Rightarrow> lisp_state" where
  "restore_stack_limits (Cons (Integer m) (Integer d)) s =
     s\<lparr>max_specpdl_size := m, max_lisp_eval_depth := d\<rparr>"
| "restore_stack_limits x s = s"

definition restore_handler :: "handler list \<Rightarrow> lisp_state \<Rightarrow> lisp_state" where
  "restore_handler c s =
     (case c of
        [] \<Rightarrow> s
      | h # next \<Rightarrow> s\<lparr>interrupt_input_blocked := h_interrupt_input_blocked h,
                       immediate_quit := False\<rparr>)"

text \<open>The raising of the two limits in \<open>Fsignal\<close> before the signal hook runs.\<close>

definition signal_hook_limits :: "lisp_state \<Rightarrow> lisp_state" where
  "signal_hook_limits s =
     (let s1 = (if lisp_eval_depth s + 20 > max_lisp_eval_depth s
                then s\<lparr>max_lisp_eval_depth := lisp_eval_depth s + 20\<rparr> else s)
      in if int (SPECPDL_INDEX s1) + 40 > max_specpdl_size s1
         then s1\<lparr>max_specpdl_size := int (SPECPDL_INDEX s1) + 40\<rparr> else s1)"

text \<open>The check of the clauses in \<open>internal_lisp_condition_case\<close>.\<close>

definition valid_condition_handler :: "Lisp_Object \<times> form list \<Rightarrow> bool" where
  "valid_condition_handler tem = (SYMBOLP (fst tem) \<or> CONSP (fst tem))"


subsection \<open>The evaluator\<close>

text \<open>
  The functions of this section call each other and the Lisp code they are given.  Each
  is written with its nested calls going through the parameter \<open>ev\<close>; \<open>evaluator n\<close>
  is the evaluator whose nested calls go at most \<open>n\<close> deep, and \<open>OutOfFuel\<close> is the
  result when the depth is used up.  A function that returns nothing returns
  \<open>Qnil\<close> here.

  A non-local exit follows the Scheme runtime: \<open>abort_to_prompt\<close> unwinds the dynamic
  stack down to the prompt, popping every entry before it runs it
  (\<open>dynstack_unwind\<close>), and control then returns to \<open>call-with-prompt\<close>, which
  calls its handler (the \<open>Jump\<close> result on the way there); \<open>scm_dynwind_end\<close> pops
  the entries down to the frame and runs those registered with
  \<open>SCM_F_WIND_EXPLICITLY\<close>.
\<close>

datatype call =
    Call_eval_sub form
  | Call_Fprogn Lisp_Object "form list"
  | Call_internal_catch Lisp_Object form
  | Call_Fthrow Lisp_Object Lisp_Object
  | Call_ilcc1 Lisp_Object form "(Lisp_Object \<times> form list) list"
  | Call_icc_lisp_handler "handler list" Lisp_Object
  | Call_Fsignal Lisp_Object Lisp_Object
  | Call_call_debugger Lisp_Object
  | Call_abort_to_prompt nat Lisp_Object
  | Call_dynstack_unwind nat
  | Call_scm_dynwind_end
  | Call_run_unwinder unwinder

type_synonym outcome = "Lisp_Object result \<times> lisp_state"
type_synonym callee = "call \<Rightarrow> lisp_state \<Rightarrow> outcome"

text \<open>\<open>xsignal\<close> on the error a function of data.c or of the binding stack left
  with.\<close>

definition xsignal :: "callee \<Rightarrow> 'a result \<times> lisp_state \<Rightarrow> outcome" where
  "xsignal ev m =
     (case m of
        (Sig e d, s) \<Rightarrow> no_return (ev (Call_Fsignal e d) s)
      | (Ret x, s) \<Rightarrow> (Ret Qnil, s)
      | (r, s) \<Rightarrow> (propagate r, s))"

text \<open>\<open>val = body; scm_dynwind_end (); return val;\<close>\<close>

definition then_dynwind_end :: "callee \<Rightarrow> outcome \<Rightarrow> outcome" where
  "then_dynwind_end ev m =
     (case m of
        (Ret val, s) \<Rightarrow>
          (case ev Call_scm_dynwind_end s of
             (Ret u, s1) \<Rightarrow> (Ret val, s1)
           | (r, s1) \<Rightarrow> (r, s1))
      | (r, s) \<Rightarrow> (r, s))"

definition Fbind_symbol :: "callee \<Rightarrow> Lisp_Object \<Rightarrow> Lisp_Object \<Rightarrow> form \<Rightarrow> lisp_state \<Rightarrow> outcome" where
  "Fbind_symbol ev symbol v thunk s =
     (case xsignal ev (specbind symbol v (dynwind_begin s)) of
        (Ret u, s1) \<Rightarrow> then_dynwind_end ev (ev (Call_eval_sub thunk) s1)
      | (r, s1) \<Rightarrow> (r, s1))"

text \<open>An unwind-protect: \<open>dynwind_begin (); record_unwind_protect (unwind_body, cleanup);
  val = body; dynwind_end (); return val;\<close>\<close>

definition unwind_protect :: "callee \<Rightarrow> form \<Rightarrow> form list \<Rightarrow> lisp_state \<Rightarrow> outcome" where
  "unwind_protect ev body cleanup s =
     then_dynwind_end ev
       (ev (Call_eval_sub body) (record_unwind_protect (unwind_body_fn cleanup) (dynwind_begin s)))"

definition internal_lisp_condition_case ::
  "callee \<Rightarrow> Lisp_Object \<Rightarrow> form \<Rightarrow> (Lisp_Object \<times> form list) list \<Rightarrow> lisp_state \<Rightarrow> outcome" where
  "internal_lisp_condition_case ev var bodyform handlers s =
     (case xsignal ev (CHECK_SYMBOL var s) of
        (Ret u, s1) \<Rightarrow>
          if list_all valid_condition_handler handlers
          then ev (Call_ilcc1 var bodyform (rev handlers)) s1
          else xsignal ev
                 ((error ''Invalid condition handler: %s'' s1) :: unit result \<times> lisp_state)
      | (r, s1) \<Rightarrow> (r, s1))"

fun eval_sub :: "callee \<Rightarrow> form \<Rightarrow> lisp_state \<Rightarrow> outcome" where
  "eval_sub ev (Quote v) s = (Ret v, s)"
| "eval_sub ev (SymbolValue symbol) s =
     (case Fsymbol_value symbol s of
        (Ret v, s1) \<Rightarrow> (Ret v, s1)
      | (r, s1) \<Rightarrow> xsignal ev (r, s1))"
| "eval_sub ev (Setq symbol f) s =
     (case ev (Call_eval_sub f) s of
        (Ret v, s1) \<Rightarrow>
          (case Fset symbol v s1 of
             (Ret v, s2) \<Rightarrow> (Ret v, s2)
           | (r, s2) \<Rightarrow> xsignal ev (r, s2))
      | (r, s1) \<Rightarrow> (r, s1))"
| "eval_sub ev (ConsF fa fd) s =
     (case ev (Call_eval_sub fa) s of
        (Ret a, s1) \<Rightarrow>
          (case ev (Call_eval_sub fd) s1 of
             (Ret d, s2) \<Rightarrow> (Ret (Cons a d), s2)
           | (r, s2) \<Rightarrow> (r, s2))
      | (r, s1) \<Rightarrow> (r, s1))"
| "eval_sub ev (Progn body) s = ev (Call_Fprogn Qnil body) s"
| "eval_sub ev (BindSymbol symbol fv thunk) s =
     (case ev (Call_eval_sub fv) s of
        (Ret v, s1) \<Rightarrow> Fbind_symbol ev symbol v thunk s1
      | (r, s1) \<Rightarrow> (r, s1))"
| "eval_sub ev (UnwindProtect body cleanup) s = unwind_protect ev body cleanup s"
| "eval_sub ev (Catch tag thunk) s = ev (Call_internal_catch tag thunk) s"
| "eval_sub ev (Throw tag fv) s =
     (case ev (Call_eval_sub fv) s of
        (Ret v, s1) \<Rightarrow> ev (Call_Fthrow tag v) s1
      | (r, s1) \<Rightarrow> (r, s1))"
| "eval_sub ev (ConditionCase var bodyform handlers) s =
     internal_lisp_condition_case ev var bodyform handlers s"
| "eval_sub ev (Signal error_symbol data) s = ev (Call_Fsignal error_symbol data) s"

text \<open>\<open>Fprogn\<close>: the loop \<open>while (CONSP (body))\<close>, with \<open>val\<close> as it stands.\<close>

fun Fprogn :: "callee \<Rightarrow> Lisp_Object \<Rightarrow> form list \<Rightarrow> lisp_state \<Rightarrow> outcome" where
  "Fprogn ev val [] s = (Ret val, s)"
| "Fprogn ev val (f # body) s =
     (case ev (Call_eval_sub f) s of
        (Ret v, s1) \<Rightarrow> ev (Call_Fprogn v body) s1
      | (r, s1) \<Rightarrow> (r, s1))"

text \<open>\<open>call_with_prompt (c->ptag, icc_thunk, handler)\<close> once the thunk is back: a
  return pops the prompt; an abort to this prompt goes to the handler; any other exit
  goes on.\<close>

definition prompt_result ::
  "nat \<Rightarrow> (Lisp_Object \<Rightarrow> lisp_state \<Rightarrow> outcome) \<Rightarrow> outcome \<Rightarrow> outcome" where
  "prompt_result p handler m =
     (case m of
        (Ret tem, s) \<Rightarrow> pop_prompt p tem s
      | (Jump q v, s) \<Rightarrow> if q = p then handler v s else (Jump q v, s)
      | (r, s) \<Rightarrow> (r, s))"

definition internal_catch :: "callee \<Rightarrow> Lisp_Object \<Rightarrow> form \<Rightarrow> lisp_state \<Rightarrow> outcome" where
  "internal_catch ev tag thunk s =
     (let (c, s1) = make_catch_handler tag s;
          p = ptag (hd c)
      in prompt_result p (\<lambda>v s. (Ret v, s))
           (then_dynwind_end ev
              (ev (Call_eval_sub thunk) (icc_thunk_enter c (push_prompt p s1)))))"

definition Fthrow :: "callee \<Rightarrow> Lisp_Object \<Rightarrow> Lisp_Object \<Rightarrow> lisp_state \<Rightarrow> outcome" where
  "Fthrow ev tag v s =
     (if \<not> NILP tag \<and> throw_find_catch (handlerlist s) tag \<noteq> []
      then ev (Call_abort_to_prompt (ptag (hd (throw_find_catch (handlerlist s) tag))) v) s
      else no_return (ev (Call_Fsignal Qno_catch (list2 tag v)) s))"

fun ilcc1 ::
  "callee \<Rightarrow> Lisp_Object \<Rightarrow> form \<Rightarrow> (Lisp_Object \<times> form list) list \<Rightarrow> lisp_state \<Rightarrow> outcome" where
  "ilcc1 ev var bodyform [] s = ev (Call_eval_sub bodyform) s"
| "ilcc1 ev var bodyform (clause # rest) s =
     (let condition = (if CONSP (fst clause) then fst clause else Cons (fst clause) Qnil);
          (c0, s1) = make_condition_handler condition s;
          c = (hd c0)\<lparr>h_var := var, h_body := snd clause\<rparr> # tl c0;
          p = ptag (hd c)
      in prompt_result p (\<lambda>v s. ev (Call_icc_lisp_handler c v) s)
           (then_dynwind_end ev
              (ev (Call_ilcc1 var bodyform rest) (icc_thunk_enter c (push_prompt p s1)))))"

definition icc_lisp_handler :: "callee \<Rightarrow> handler list \<Rightarrow> Lisp_Object \<Rightarrow> lisp_state \<Rightarrow> outcome" where
  "icc_lisp_handler ev h val s =
     (let var = h_var (hd h);
          s1 = scm_dynwind_begin s
      in case (if \<not> NILP var then xsignal ev (specbind var val s1) else (Ret Qnil, s1)) of
           (Ret u, s2) \<Rightarrow> then_dynwind_end ev (ev (Call_Fprogn Qnil (h_body (hd h))) s2)
         | (r, s2) \<Rightarrow> (r, s2))"

text \<open>\<open>maybe_call_debugger\<close> as \<open>Fsignal\<close> calls it, under the condition of its
  call.\<close>

definition maybe_call_debugger ::
  "callee \<Rightarrow> Lisp_Object \<Rightarrow> Lisp_Object \<Rightarrow> Lisp_Object \<Rightarrow> lisp_state \<Rightarrow> bool result \<times> lisp_state" where
  "maybe_call_debugger ev conditions sig data s =
     (if debugger_enabled s conditions sig data
      then (case ev (Call_call_debugger (list2 Qerror (Cons sig data))) s of
              (Ret v, s1) \<Rightarrow> (Ret True, s1)
            | (r, s1) \<Rightarrow> (propagate r, s1))
      else (Ret False, s))"

definition Fsignal :: "callee \<Rightarrow> Lisp_Object \<Rightarrow> Lisp_Object \<Rightarrow> lisp_state \<Rightarrow> outcome" where
  "Fsignal ev error_symbol data s0 =
     (let real_error_symbol = (if NILP error_symbol then Fcar data else error_symbol);
          s = s0\<lparr>immediate_quit := False\<rparr>
      in case (case Vsignal_hook_function s of
                 Some hook \<Rightarrow>
                   if \<not> NILP error_symbol then ev (Call_eval_sub hook) (signal_hook_limits s)
                   else (Ret Qnil, s)
               | None \<Rightarrow> (Ret Qnil, s)) of
           (Ret u, s1) \<Rightarrow>
             (let conditions = Fget s1 real_error_symbol Qerror_conditions;
                  (clause, h) = signal_find_handler (handlerlist s1) conditions
              in case (if \<not> NILP error_symbol
                          \<and> (\<not> NILP (Vdebug_on_signal s1) \<or> NILP clause
                             \<or> (CONSP clause \<and> \<not> NILP (Fmemq Qdebug clause))
                             \<or> tag_or_ch (hd h) = Qerror)
                       then maybe_call_debugger ev conditions error_symbol data s1
                       else (Ret False, s1)) of
                   (Ret debugger_called, s2) \<Rightarrow>
                     if debugger_called \<and> real_error_symbol = Qquit then (Ret Qnil, s2)
                     else if \<not> NILP clause
                     then ev (Call_abort_to_prompt (ptag (hd h))
                            (if NILP error_symbol then data else Cons error_symbol data)) s2
                     else if handlerlist s2 \<noteq> handlerlist_sentinel s2
                     then no_return (ev (Call_Fthrow Qtop_level Qt) s2)
                     else (Fatal ''fatal'', s2)
                 | (r, s2) \<Rightarrow> (propagate r, s2))
         | (r, s1) \<Rightarrow> (r, s1))"

definition call_debugger :: "callee \<Rightarrow> Lisp_Object \<Rightarrow> lisp_state \<Rightarrow> outcome" where
  "call_debugger ev arg s =
     (let debug_while_redisplaying = redisplaying_p s;
          s1 = call_debugger_enter s
      in case xsignal ev
                (seq (specbind Qdebugger_may_continue
                        (if debug_while_redisplaying then Qnil else Qt) s1) (\<lambda>u s.
                 seq (specbind Qinhibit_redisplay Qnil s) (\<lambda>u s.
                   specbind Qinhibit_debugger Qt s))) of
           (Ret u, s2) \<Rightarrow>
             (case ev (Call_eval_sub (Vdebugger s2)) s2 of
                (Ret val, s3) \<Rightarrow>
                  if debug_while_redisplaying then no_return (ev (Call_Fthrow Qtop_level Qt) s3)
                  else then_dynwind_end ev (Ret val, s3)
              | (r, s3) \<Rightarrow> (r, s3))
         | (r, s2) \<Rightarrow> (r, s2))"

definition abort_to_prompt :: "callee \<Rightarrow> nat \<Rightarrow> Lisp_Object \<Rightarrow> lisp_state \<Rightarrow> outcome" where
  "abort_to_prompt ev p v s =
     (if WindPrompt p \<notin> set (dynstack s) then (Fatal ''Abort to unknown prompt'', s)
      else case ev (Call_dynstack_unwind p) s of
             (Ret u, s1) \<Rightarrow> (Jump p v, s1)
           | (r, s1) \<Rightarrow> (r, s1))"

definition dynstack_unwind :: "callee \<Rightarrow> nat \<Rightarrow> lisp_state \<Rightarrow> outcome" where
  "dynstack_unwind ev p s =
     (case dynstack s of
        [] \<Rightarrow> (Fatal ''Abort to unknown prompt'', s)
      | WindPrompt q # rest \<Rightarrow>
          if q = p then (Ret Qnil, s\<lparr>dynstack := rest\<rparr>)
          else ev (Call_dynstack_unwind p) (s\<lparr>dynstack := rest\<rparr>)
      | WindFrame # rest \<Rightarrow> ev (Call_dynstack_unwind p) (s\<lparr>dynstack := rest\<rparr>)
      | WindUnwinder u explicitly # rest \<Rightarrow>
          (case ev (Call_run_unwinder u) (s\<lparr>dynstack := rest\<rparr>) of
             (Ret x, s1) \<Rightarrow> ev (Call_dynstack_unwind p) s1
           | (r, s1) \<Rightarrow> (r, s1)))"

definition scm_dynwind_end :: "callee \<Rightarrow> lisp_state \<Rightarrow> outcome" where
  "scm_dynwind_end ev s =
     (case dynstack s of
        [] \<Rightarrow> (Fatal ''scm_dynwind_end without a frame'', s)
      | WindPrompt q # rest \<Rightarrow> (Fatal ''scm_dynwind_end without a frame'', s)
      | WindFrame # rest \<Rightarrow> (Ret Qnil, s\<lparr>dynstack := rest\<rparr>)
      | WindUnwinder u explicitly # rest \<Rightarrow>
          if explicitly then
            (case ev (Call_run_unwinder u) (s\<lparr>dynstack := rest\<rparr>) of
               (Ret x, s1) \<Rightarrow> ev Call_scm_dynwind_end s1
             | (r, s1) \<Rightarrow> (r, s1))
          else ev Call_scm_dynwind_end (s\<lparr>dynstack := rest\<rparr>))"

fun run_unwinder :: "callee \<Rightarrow> unwinder \<Rightarrow> lisp_state \<Rightarrow> outcome" where
  "run_unwinder ev unbind_once_fn s = xsignal ev (unbind_once s)"
| "run_unwinder ev (set_handlerlist_fn hl) s = (Ret Qnil, s\<lparr>handlerlist := hl\<rparr>)"
| "run_unwinder ev (restore_handler_fn c) s = (Ret Qnil, restore_handler c s)"
| "run_unwinder ev (restore_stack_limits_fn data) s = (Ret Qnil, restore_stack_limits data s)"
| "run_unwinder ev (unwind_body_fn body) s =
     (case ev (Call_Fprogn Qnil body) s of
        (Ret v, s1) \<Rightarrow> (Ret Qnil, s1)
      | (r, s1) \<Rightarrow> (r, s1))"

fun dispatch :: "callee \<Rightarrow> call \<Rightarrow> lisp_state \<Rightarrow> outcome" where
  "dispatch ev (Call_eval_sub form) s = eval_sub ev form s"
| "dispatch ev (Call_Fprogn val body) s = Fprogn ev val body s"
| "dispatch ev (Call_internal_catch tag thunk) s = internal_catch ev tag thunk s"
| "dispatch ev (Call_Fthrow tag v) s = Fthrow ev tag v s"
| "dispatch ev (Call_ilcc1 var bodyform handlers) s = ilcc1 ev var bodyform handlers s"
| "dispatch ev (Call_icc_lisp_handler h val) s = icc_lisp_handler ev h val s"
| "dispatch ev (Call_Fsignal error_symbol data) s = Fsignal ev error_symbol data s"
| "dispatch ev (Call_call_debugger arg) s = call_debugger ev arg s"
| "dispatch ev (Call_abort_to_prompt p v) s = abort_to_prompt ev p v s"
| "dispatch ev (Call_dynstack_unwind p) s = dynstack_unwind ev p s"
| "dispatch ev Call_scm_dynwind_end s = scm_dynwind_end ev s"
| "dispatch ev (Call_run_unwinder u) s = run_unwinder ev u s"

primrec evaluator :: "nat \<Rightarrow> call \<Rightarrow> lisp_state \<Rightarrow> outcome" where
  "evaluator 0 = (\<lambda>c s. (OutOfFuel, s))"
| "evaluator (Suc n) = dispatch (evaluator n)"


section \<open>Binding the parameters of a lambda (eval.c: funcall\_lambda)\<close>

text \<open>\<open>Flist (n, args)\<close>: the Lisp list of the arguments.\<close>

fun Flist :: "Lisp_Object list \<Rightarrow> Lisp_Object" where
  "Flist [] = Qnil"
| "Flist (a # as) = Cons a (Flist as)"

text \<open>The block under \<open>/* Bind the argument.  */\<close>: the new \<open>lexenv\<close>.\<close>

definition bind_argument ::
  "Lisp_Object \<Rightarrow> Lisp_Object \<Rightarrow> Lisp_Object \<Rightarrow> lisp_state \<Rightarrow> Lisp_Object result \<times> lisp_state" where
  "bind_argument lexenv next arg s =
     (if \<not> NILP lexenv \<and> SYMBOLP next then (Ret (Cons (Cons next arg) lexenv), s)
      else seq (specbind next arg s) (\<lambda>u s. (Ret lexenv, s)))"

text \<open>
  The loop of \<open>funcall_lambda\<close> over \<open>syms_left\<close> and the two checks after it, from
  the loop variables \<open>i\<close>, \<open>optional\<close> and \<open>rest\<close>; \<open>arg_vector\<close> is the list of
  the \<open>nargs\<close> arguments.  The result is \<open>lexenv\<close>.  (The \<open>QUIT\<close> at the head of
  the loop body polls the quit flag, which the state does not hold.)
\<close>

fun funcall_lambda_loop ::
  "Lisp_Object \<Rightarrow> Lisp_Object list \<Rightarrow> Lisp_Object \<Rightarrow> nat \<Rightarrow> bool \<Rightarrow> bool \<Rightarrow> Lisp_Object
   \<Rightarrow> lisp_state \<Rightarrow> Lisp_Object result \<times> lisp_state" where
  "funcall_lambda_loop fn arg_vector (Cons next syms_left) i optional rest lexenv s =
     (if \<not> SYMBOLP next then (Sig Qinvalid_function (list1 fn), s)
      else if next = Qand_rest
      then funcall_lambda_loop fn arg_vector syms_left i optional True lexenv s
      else if next = Qand_optional
      then funcall_lambda_loop fn arg_vector syms_left i True rest lexenv s
      else if rest
      then seq (bind_argument lexenv next (Flist (drop i arg_vector)) s) (\<lambda>lexenv s.
             funcall_lambda_loop fn arg_vector syms_left (length arg_vector) optional rest lexenv s)
      else if i < length arg_vector
      then seq (bind_argument lexenv next (arg_vector ! i) s) (\<lambda>lexenv s.
             funcall_lambda_loop fn arg_vector syms_left (Suc i) optional rest lexenv s)
      else if \<not> optional
      then (Sig Qwrong_number_of_arguments (list2 fn (Integer (int (length arg_vector)))), s)
      else seq (bind_argument lexenv next Qnil s) (\<lambda>lexenv s.
             funcall_lambda_loop fn arg_vector syms_left i optional rest lexenv s))"
| "funcall_lambda_loop fn arg_vector syms_left i optional rest lexenv s =
     (if \<not> NILP syms_left then (Sig Qinvalid_function (list1 fn), s)
      else if i < length arg_vector
      then (Sig Qwrong_number_of_arguments (list2 fn (Integer (int (length arg_vector)))), s)
      else (Ret lexenv, s))"

text \<open>The head of \<open>funcall_lambda\<close>: the function with \<open>closure\<close> dropped, its
  lexical environment and its parameter list.\<close>

definition funcall_lambda_parse ::
  "Lisp_Object \<Rightarrow> lisp_state
   \<Rightarrow> (Lisp_Object \<times> Lisp_Object \<times> Lisp_Object) result \<times> lisp_state" where
  "funcall_lambda_parse fn0 s =
     (case fn0 of
        Cons a d \<Rightarrow>
          seq (if a = Qclosure
               then (case d of
                       Cons env d' \<Rightarrow> (Ret (d, env), s)
                     | _ \<Rightarrow> (Sig Qwrong_type_argument (list2 Qlistp d), s))
               else (Ret (fn0, Qnil), s)) (\<lambda>(fn, lexenv) s.
            case fn of
              Cons a' (Cons syms_left body) \<Rightarrow> (Ret (fn, lexenv, syms_left), s)
            | _ \<Rightarrow> (Sig Qinvalid_function (list1 fn), s))
      | _ \<Rightarrow> (Fatal ''emacs_abort'', s))"

text \<open>\<open>Vinternal_interpreter_environment\<close> is the C variable behind the symbol
  \<open>internal-interpreter-environment\<close>.\<close>

definition Vinternal_interpreter_environment :: "lisp_state \<Rightarrow> Lisp_Object" where
  "Vinternal_interpreter_environment s = objvars s 0"

text \<open>
  \<open>EQ (lexenv, Vinternal_interpreter_environment)\<close> compares objects, not contents.  A
  cons or a string is \<open>EQ\<close> to itself only; the other objects are \<open>EQ\<close> when equal.
  After the loop \<open>lexenv\<close> is the object it was before (\<open>nil\<close>, or the environment of
  the closure) when the loop made no lexical binding, and a cons the loop made otherwise,
  which is no object that existed before.  Whether the environment of the closure is the
  very object that \<open>Vinternal_interpreter_environment\<close> holds is not in the values: it
  is the parameter \<open>same_object\<close>.
\<close>

fun heap_object :: "Lisp_Object \<Rightarrow> bool" where
  "heap_object (Cons a d) = True"
| "heap_object (String str) = True"
| "heap_object x = False"

definition EQ_lexenv :: "bool \<Rightarrow> Lisp_Object \<Rightarrow> Lisp_Object \<Rightarrow> lisp_state \<Rightarrow> bool" where
  "EQ_lexenv same_object lexenv0 lexenv s =
     (lexenv = lexenv0 \<and> lexenv0 = Vinternal_interpreter_environment s
      \<and> (heap_object lexenv0 \<longrightarrow> same_object))"

text \<open>\<open>funcall_lambda\<close>.  The body of the function is Lisp code and is given as
  \<open>body\<close>, next to the function object that holds the parameter list.\<close>

definition funcall_lambda ::
  "callee \<Rightarrow> Lisp_Object \<Rightarrow> form list \<Rightarrow> bool \<Rightarrow> Lisp_Object list \<Rightarrow> lisp_state \<Rightarrow> outcome" where
  "funcall_lambda ev fn0 body same_object arg_vector s =
     (case seq (funcall_lambda_parse fn0 (dynwind_begin s)) (\<lambda>(fn, lexenv0, syms_left) s.
             seq (funcall_lambda_loop fn arg_vector syms_left 0 False False lexenv0 s) (\<lambda>lexenv s.
               if \<not> EQ_lexenv same_object lexenv0 lexenv s
               then specbind Qinternal_interpreter_environment lexenv s
               else (Ret (), s))) of
        (Ret u, s1) \<Rightarrow> then_dynwind_end ev (ev (Call_Fprogn Qnil body) s1)
      | (r, s1) \<Rightarrow> xsignal ev (r, s1))"

section \<open>The initial state\<close>


text \<open>The \<open>error-conditions\<close> properties that \<open>syms_of_data\<close> puts on the error
  symbols: \<open>(error)\<close> on \<open>error\<close>, \<open>(quit)\<close> on \<open>quit\<close>, and the symbol
  followed by \<open>error\<close> on the others.\<close>

definition initial_plist :: "sym_t \<Rightarrow> (Lisp_Object \<times> Lisp_Object) list" where
  "initial_plist x =
     (if x = 2 then [(Qerror_conditions, Cons Qerror Qnil)]
      else if x = 3 then [(Qerror_conditions, Cons Qquit Qnil)]
      else if x \<in> {9, 10, 11, 12, 13, 14, 15, 25}
      then [(Qerror_conditions, Cons (Symbol x) (Cons Qerror Qnil))]
      else [])"

text \<open>\<open>nil\<close> and \<open>t\<close> are constants whose value is the symbol itself;
  \<open>internal-interpreter-environment\<close> forwards to its C variable; every other symbol
  starts unbound.\<close>

definition initial_symbol :: "sym_t \<Rightarrow> Lisp_Symbol" where
  "initial_symbol x =
     \<lparr>redirect = (if x = 16 then SYMBOL_FORWARDED (Fwd_Obj (CVar 0))
                  else SYMBOL_PLAINVAL (if x = 0 \<or> x = 1 then Symbol x else Qunbound)),
      sym_constant = (x = 0 \<or> x = 1), declared_special = False, keyword = False,
      plist = initial_plist x\<rparr>"

definition initial_sentinel :: handler where
  "initial_sentinel =
     \<lparr>h_type = CATCHER, tag_or_ch = Qunbound, h_var = Qnil, h_body = [],
      h_lisp_eval_depth = 0, h_interrupt_input_blocked = 0, ptag = 0\<rparr>"

text \<open>The state after \<open>init_eval_once\<close> and \<open>init_eval\<close>, with one buffer and one
  frame, the debugger switched off and no signal hook.\<close>

definition initial_state :: lisp_state where
  "initial_state =
     \<lparr>symtab = initial_symbol,
      cells = (\<lambda>a. (Qnil, Qnil)),
      next_cell = 0,
      buffers = (\<lambda>b. \<lparr>local_var_alist = [], slots = (\<lambda>offset. Qnil),
                       local_flags = (\<lambda>idx. False)\<rparr>),
      all_buffers = [0],
      live_buffers = [0],
      current_buffer = 0,
      frames = (\<lambda>f. \<lparr>param_alist = [], frame_kboard = 0\<rparr>),
      selected_frame = 0,
      kboards = (\<lambda>k offset. Qnil),
      buffer_defaults = (\<lambda>offset. Qnil),
      buffer_local_flags = (\<lambda>offset. 0),
      last_per_buffer_idx = 1,
      intvars = (\<lambda>i. 0),
      boolvars = (\<lambda>i. False),
      objvars = (\<lambda>i. Qnil),
      call1_predicate = (\<lambda>predicate v. True),
      specpdl = [],
      specpdl_size = 50,
      max_specpdl_size = 10000,
      lisp_eval_depth = 0,
      max_lisp_eval_depth = 10000,
      handlerlist = [initial_sentinel],
      handlerlist_sentinel = [initial_sentinel],
      dynstack = [],
      prompt_tags = 1,
      interrupt_input_blocked = 0,
      immediate_quit = False,
      messages = [],
      Vsignal_hook_function = None,
      Vdebugger = Quote Qnil,
      Vinhibit_debugger = Qnil,
      Vdebug_on_signal = Qnil,
      Vdebug_on_error = Qnil,
      Vdebug_ignored_errors = Qnil,
      debug_on_quit = False,
      debug_on_next_call = False,
      when_entered_debugger = - 1,
      num_nonmacro_input_events = 0,
      redisplaying_p = False,
      error_message_matches = (\<lambda>regexp data. False)\<rparr>"


section \<open>Sequencing\<close>

lemma seq_assoc:
  "seq (seq m f) g = seq m (\<lambda>x s. seq (f x s) g)"
  by (cases m; cases "fst m") (auto simp: seq_def split: prod.splits result.splits)

lemma seq_Ret [simp]: "seq (Ret x, s) f = f x s"
  by (simp add: seq_def)

lemma seq_cong_fun: "(\<And>x s. f x s = g x s) \<Longrightarrow> seq m f = seq m g"
  by (auto simp: seq_def split: prod.splits result.splits)

lemma seq_Sig [simp]: "seq (Sig e d, s) f = (Sig e d, s)"
  by (simp add: seq_def)


section \<open>Plain variables and the binding stack\<close>

lemma evaluator_Suc: "evaluator (Suc n) c s = dispatch (evaluator n) c s"
  by simp

lemma evaluator_numeral:
  "evaluator (numeral k + n) c s = dispatch (evaluator (pred_numeral k + n)) c s"
  by (simp add: numeral_eq_Suc)

lemma evaluator_one: "evaluator (1 + n) c s = dispatch (evaluator n) c s"
  by simp

lemma start_plain:
  "redirect (symtab s x) = SYMBOL_PLAINVAL v \<Longrightarrow> start x s = (Ret x, s)"
  by (simp add: start_def SYMBOL_REDIRECT_def)

lemma Fsymbol_value_plain:
  assumes "redirect (symtab s x) = SYMBOL_PLAINVAL v" and "v \<noteq> Qunbound"
  shows "Fsymbol_value (Symbol x) s = (Ret v, s)"
  using assms
  by (simp add: Fsymbol_value_def find_symbol_value_def CHECK_SYMBOL_def seq_def start_plain
      SYMBOL_REDIRECT_def)

lemma Fset_plain:
  assumes "redirect (symtab s x) = SYMBOL_PLAINVAL old" and "\<not> sym_constant (symtab s x)"
  shows "Fset (Symbol x) v s = (Ret v, SET_SYMBOL_VAL x v s)"
  using assms
  by (simp add: Fset_def set_internal_def CHECK_SYMBOL_def seq_def start_plain
      SYMBOL_REDIRECT_def SYMBOL_CONSTANT_P_def)

lemma grow_specpdl_room:
  assumes "Suc (length (specpdl s)) < specpdl_size s"
  shows "grow_specpdl entry s = (Ret (), s\<lparr>specpdl := entry # specpdl s\<rparr>)"
  using assms by (simp add: grow_specpdl_def SPECPDL_INDEX_def Let_def)

lemma specbind_plain:
  assumes "redirect (symtab s x) = SYMBOL_PLAINVAL old" and "\<not> sym_constant (symtab s x)"
    and "Suc (length (specpdl s)) < specpdl_size s"
  shows "specbind (Symbol x) v s =
           (Ret (), scm_dynwind_unwind_handler unbind_once_fn True
                      (SET_SYMBOL_VAL x v (s\<lparr>specpdl := SPECPDL_LET (Symbol x) old # specpdl s\<rparr>)))"
  using assms
  by (simp add: specbind_def CHECK_SYMBOL_def seq_def start_plain SYMBOL_REDIRECT_def
      grow_specpdl_room)

lemma unbind_once_plain:
  assumes "specpdl s = SPECPDL_LET (Symbol x) old # rest"
    and "redirect (symtab s x) = SYMBOL_PLAINVAL v"
  shows "unbind_once s = (Ret (), SET_SYMBOL_VAL x old (s\<lparr>specpdl := rest\<rparr>))"
  using assms by (simp add: unbind_once_def SYMBOL_REDIRECT_def)


section \<open>Prompts and the frames of \<open>icc_thunk\<close>\<close>

lemma dynstack_unwind_icc_hit:
  assumes "dynstack t = WindUnwinder (set_handlerlist_fn hl) True
             # WindUnwinder (restore_handler_fn c) False # WindFrame # WindPrompt p # rest"
  shows "evaluator (Suc (Suc (Suc (Suc n)))) (Call_dynstack_unwind p) t
         = (Ret Qnil, restore_handler c (t\<lparr>dynstack := rest, handlerlist := hl\<rparr>))"
  using assms by (simp add: dynstack_unwind_def restore_handler_def split: list.split)

lemma dynstack_unwind_icc_miss:
  assumes "dynstack t = WindUnwinder (set_handlerlist_fn hl) True
             # WindUnwinder (restore_handler_fn c) False # WindFrame # WindPrompt q # rest"
    and "q \<noteq> p"
  shows "evaluator (Suc (Suc (Suc (Suc n)))) (Call_dynstack_unwind p) t
         = evaluator n (Call_dynstack_unwind p)
             (restore_handler c (t\<lparr>dynstack := rest, handlerlist := hl\<rparr>))"
proof -
  have e: "(restore_handler c (t\<lparr>dynstack := WindFrame # WindPrompt q # rest,
                                      handlerlist := hl\<rparr>))\<lparr>dynstack := rest\<rparr>
           = restore_handler c (t\<lparr>dynstack := rest, handlerlist := hl\<rparr>)"
    by (simp add: restore_handler_def lisp_state.equality split: list.split)
  have "evaluator (Suc (Suc (Suc (Suc n)))) (Call_dynstack_unwind p) t
         = evaluator n (Call_dynstack_unwind p)
             ((restore_handler c (t\<lparr>dynstack := WindFrame # WindPrompt q # rest,
                                      handlerlist := hl\<rparr>))\<lparr>dynstack := rest\<rparr>)"
    using assms by (simp add: dynstack_unwind_def restore_handler_def split: list.split)
  then show ?thesis by (simp only: e)
qed

lemma dynwind_end_icc:
  assumes "dynstack t = WindUnwinder (set_handlerlist_fn hl) True
             # WindUnwinder (restore_handler_fn c) False # WindFrame # rest"
  shows "evaluator (Suc (Suc (Suc (Suc n)))) Call_scm_dynwind_end t
         = (Ret Qnil, t\<lparr>dynstack := rest, handlerlist := hl\<rparr>)"
  using assms by (simp add: scm_dynwind_end_def)



lemma Fget_immediate_quit [simp]:
  "Fget (s\<lparr>immediate_quit := b\<rparr>) x prop = Fget s x prop"
  by (simp add: Fget_def split: Lisp_Object.split)



section \<open>Alias chains end or are detected as cyclic\<close>

lemma loop_step:
  "indirect_variable_loop tab s t h =
     (if aliased tab h then
        (if \<not> aliased tab (alias_step tab h) then Some (Ret (alias_step tab h))
         else if alias_step tab (alias_step tab h) = alias_step tab t then
           Some (Sig Qcyclic_variable_indirection (list1 (Symbol s)))
         else indirect_variable_loop tab s (alias_step tab t) (alias_step tab (alias_step tab h)))
      else Some (Ret h))"
  by (subst indirect_variable_loop.simps) (simp add: aliased_def alias_step_def)

lemma funpow_period:
  fixes f :: "'a \<Rightarrow> 'a"
  assumes "(f ^^ (a + p)) x = (f ^^ a) x"
  shows "(f ^^ (a + j + p)) x = (f ^^ (a + j)) x"
proof -
  have "(f ^^ (a + j + p)) x = (f ^^ (j + (a + p))) x" by (simp add: add.commute add.left_commute)
  also have "\<dots> = (f ^^ j) ((f ^^ (a + p)) x)" by (simp only: funpow_add o_apply)
  also have "\<dots> = (f ^^ j) ((f ^^ a) x)" using assms by simp
  also have "\<dots> = (f ^^ (j + a)) x" by (simp only: funpow_add o_apply)
  finally show ?thesis by (simp add: add.commute)
qed

lemma funpow_period_mult:
  fixes f :: "'a \<Rightarrow> 'a"
  assumes "(f ^^ (a + p)) x = (f ^^ a) x"
  shows "(f ^^ (a + c * p)) x = (f ^^ a) x"
proof (induction c)
  case 0
  then show ?case by simp
next
  case (Suc c)
  have "(f ^^ (a + c * p + p)) x = (f ^^ (a + c * p)) x"
    using funpow_period [OF assms, of "c * p"] by simp
  with Suc show ?case by (simp add: ac_simps)
qed

lemma loop_ends:
  assumes last: "\<not> aliased tab ((alias_step tab ^^ m) s)"
    and before: "\<And>j. j < m \<Longrightarrow> aliased tab ((alias_step tab ^^ j) s)"
    and "2 * k \<le> m"
  shows "indirect_variable_loop tab s ((alias_step tab ^^ k) s) ((alias_step tab ^^ (2 * k)) s)
         = Some (Ret ((alias_step tab ^^ m) s))"
  using \<open>2 * k \<le> m\<close>
proof (induction "m - 2 * k" arbitrary: k rule: less_induct)
  case less
  let ?f = "alias_step tab"
  show ?case
  proof (cases "2 * k = m")
    case True
    then show ?thesis using last by (subst loop_step) simp
  next
    case False
    with less.prems have lt: "2 * k < m" by simp
    then have h: "aliased tab ((?f ^^ (2 * k)) s)" by (rule before)
    have h1eq: "?f ((?f ^^ (2 * k)) s) = (?f ^^ (Suc (2 * k))) s" by simp
    show ?thesis
    proof (cases "Suc (2 * k) = m")
      case True
      have e: "?f ((?f ^^ (2 * k)) s) = (?f ^^ m) s" unfolding True [symmetric] by simp
      then have "\<not> aliased tab (?f ((?f ^^ (2 * k)) s))" using last by simp
      then show ?thesis using h e by (subst loop_step) simp
    next
      case False
      with lt have lt2: "Suc (2 * k) < m" by simp
      then have h1: "aliased tab (?f ((?f ^^ (2 * k)) s))" using before [of "Suc (2 * k)"] by simp
      have h2eq: "?f (?f ((?f ^^ (2 * k)) s)) = (?f ^^ (2 * Suc k)) s" by simp
      have teq: "?f ((?f ^^ k) s) = (?f ^^ (Suc k)) s" by simp
      have neq: "(?f ^^ (2 * Suc k)) s \<noteq> (?f ^^ (Suc k)) s"
      proof
        assume eq: "(?f ^^ (2 * Suc k)) s = (?f ^^ (Suc k)) s"
        then have per: "(?f ^^ (Suc k + Suc k)) s = (?f ^^ (Suc k)) s" by (simp add: mult_2)
        have "(?f ^^ (Suc k + (m - 2 * Suc k) + Suc k)) s = (?f ^^ (Suc k + (m - 2 * Suc k))) s"
          by (rule funpow_period [OF per])
        moreover have "Suc k + (m - 2 * Suc k) + Suc k = m" using lt2 by simp
        moreover have "Suc k + (m - 2 * Suc k) < m" using lt2 by simp
        ultimately show False using last before by metis
      qed
      have rec: "indirect_variable_loop tab s ((?f ^^ Suc k) s) ((?f ^^ (2 * Suc k)) s)
                 = Some (Ret ((?f ^^ m) s))"
        using lt2 by (intro less.hyps) auto
      show ?thesis
        apply (subst loop_step)
        using h h1 neq rec
        by (simp only: h2eq teq if_True if_False simp_thms)
    qed
  qed
qed

lemma loop_cyclic:
  assumes all: "\<And>j. aliased tab ((alias_step tab ^^ j) s)"
    and meet: "(alias_step tab ^^ (2 * K)) s = (alias_step tab ^^ K) s"
    and "k < K"
  shows "indirect_variable_loop tab s ((alias_step tab ^^ k) s) ((alias_step tab ^^ (2 * k)) s)
         = Some (Sig Qcyclic_variable_indirection (list1 (Symbol s)))"
  using \<open>k < K\<close>
proof (induction "K - k" arbitrary: k rule: less_induct)
  case less
  let ?f = "alias_step tab"
  have h: "aliased tab ((?f ^^ (2 * k)) s)" by (rule all)
  have h1: "aliased tab (?f ((?f ^^ (2 * k)) s))" using all [of "Suc (2 * k)"] by simp
  have h2eq: "?f (?f ((?f ^^ (2 * k)) s)) = (?f ^^ (2 * Suc k)) s" by simp
  have teq: "?f ((?f ^^ k) s) = (?f ^^ (Suc k)) s" by simp
  show ?case
  proof (cases "(?f ^^ (2 * Suc k)) s = (?f ^^ (Suc k)) s")
    case True
    show ?thesis
      apply (subst loop_step)
      using h h1 True
      by (simp only: h2eq teq if_True if_False simp_thms)
  next
    case False
    then have "Suc k \<noteq> K" using meet by auto
    with less.prems have "Suc k < K" by simp
    then have rec: "indirect_variable_loop tab s ((?f ^^ Suc k) s) ((?f ^^ (2 * Suc k)) s)
         = Some (Sig Qcyclic_variable_indirection (list1 (Symbol s)))"
      by (intro less.hyps) auto
    show ?thesis
      apply (subst loop_step)
      using h h1 False rec
      by (simp only: h2eq teq if_True if_False simp_thms)
  qed
qed

lemma chain_bounded:
  assumes bound: "\<And>x. x < n \<Longrightarrow> aliased tab x \<Longrightarrow> alias_step tab x < n"
    and "s < n"
    and all: "\<And>j. aliased tab ((alias_step tab ^^ j) s)"
  shows "(alias_step tab ^^ j) s < n"
proof (induction j)
  case 0
  then show ?case using \<open>s < n\<close> by simp
next
  case (Suc j)
  then show ?case using bound [OF Suc all [of j]] by simp
qed

lemma chain_meets:
  assumes bound: "\<And>x. x < n \<Longrightarrow> aliased tab x \<Longrightarrow> alias_step tab x < n"
    and "s < n"
    and all: "\<And>j. aliased tab ((alias_step tab ^^ j) s)"
  shows "\<exists>K>0. (alias_step tab ^^ (2 * K)) s = (alias_step tab ^^ K) s"
proof -
  let ?g = "\<lambda>j. (alias_step tab ^^ j) s"
  have "?g ` {0..n} \<subseteq> {..<n}"
    using chain_bounded [OF bound \<open>s < n\<close> all] by auto
  then have "card (?g ` {0..n}) \<le> n"
    using card_mono [of "{..<n}" "?g ` {0..n}"] by simp
  then have "card (?g ` {0..n}) < card {0..n}" by simp
  then have "\<not> inj_on ?g {0..n}" by (rule pigeonhole)
  then obtain a b where ab: "a \<noteq> b" "?g a = ?g b"
    by (auto simp: inj_on_def)
  define lo where "lo = min a b"
  define p where "p = max a b - min a b"
  have "p > 0" using ab by (auto simp: p_def)
  have "?g (lo + p) = ?g lo"
    using ab by (cases "a < b") (auto simp: lo_def p_def min_def max_def)
  then have per: "(alias_step tab ^^ (lo + p)) s = (alias_step tab ^^ lo) s" .
  define K where "K = p * Suc lo"
  have "K > 0" using \<open>p > 0\<close> by (simp add: K_def)
  have "lo \<le> K" using \<open>p > 0\<close> by (simp add: K_def) (metis One_nat_def Suc_leI le_add2 le_trans mult_le_mono1 nat_mult_1 mult.commute le_add1)
  have perK: "(alias_step tab ^^ (K + p)) s = (alias_step tab ^^ K) s"
    using funpow_period [OF per, of "K - lo"] \<open>lo \<le> K\<close> by simp
  have "(alias_step tab ^^ (K + Suc lo * p)) s = (alias_step tab ^^ K) s"
    by (rule funpow_period_mult [OF perK])
  moreover have "K + Suc lo * p = 2 * K" by (simp add: K_def mult.commute)
  ultimately have "(alias_step tab ^^ (2 * K)) s = (alias_step tab ^^ K) s" by (simp only:)
  with \<open>K > 0\<close> show ?thesis by blast
qed

text \<open>
  In a symbol table with finitely many symbols (all below \<open>n\<close>, alias links
  included), \<open>indirect_variable\<close> always returns: either the chain of
  \<open>SYMBOL_VARALIAS\<close> links from the symbol ends, and the result is the symbol at its
  end, which is not an alias; or the chain never ends, and the result is the signal
  \<open>cyclic-variable-indirection\<close> with the original symbol as its data.
\<close>

lemma indirect_variable_total:
  assumes bound: "\<forall>x<n. aliased tab x \<longrightarrow> alias_step tab x < n"
    and "symbol < n"
  shows "(\<exists>t m. indirect_variable tab symbol = Ret t \<and> \<not> aliased tab t
              \<and> t = (alias_step tab ^^ m) symbol)
       \<or> (indirect_variable tab symbol = Sig Qcyclic_variable_indirection (list1 (Symbol symbol))
          \<and> (\<forall>m. aliased tab ((alias_step tab ^^ m) symbol)))"
proof (cases "\<exists>m. \<not> aliased tab ((alias_step tab ^^ m) symbol)")
  case True
  define m where "m = (LEAST m. \<not> aliased tab ((alias_step tab ^^ m) symbol))"
  have last: "\<not> aliased tab ((alias_step tab ^^ m) symbol)"
    unfolding m_def using True by (rule LeastI_ex)
  have before: "\<And>j. j < m \<Longrightarrow> aliased tab ((alias_step tab ^^ j) symbol)"
    unfolding m_def using not_less_Least by blast
  have "indirect_variable_loop tab symbol ((alias_step tab ^^ 0) symbol)
          ((alias_step tab ^^ (2 * 0)) symbol) = Some (Ret ((alias_step tab ^^ m) symbol))"
    by (rule loop_ends [OF last before]) simp_all
  then have "indirect_variable tab symbol = Ret ((alias_step tab ^^ m) symbol)"
    by (simp add: indirect_variable_def)
  with last show ?thesis by blast
next
  case False
  then have all: "\<And>j. aliased tab ((alias_step tab ^^ j) symbol)" by blast
  from bound have b: "\<And>x. x < n \<Longrightarrow> aliased tab x \<Longrightarrow> alias_step tab x < n" by blast
  obtain K where K: "K > 0" "(alias_step tab ^^ (2 * K)) symbol = (alias_step tab ^^ K) symbol"
    using chain_meets [OF b \<open>symbol < n\<close> all] by blast
  have "indirect_variable_loop tab symbol ((alias_step tab ^^ 0) symbol)
          ((alias_step tab ^^ (2 * 0)) symbol)
        = Some (Sig Qcyclic_variable_indirection (list1 (Symbol symbol)))"
    by (rule loop_cyclic [OF all K(2) K(1)])
  then have "indirect_variable tab symbol = Sig Qcyclic_variable_indirection (list1 (Symbol symbol))"
    by (simp add: indirect_variable_def)
  with all show ?thesis by blast
qed


text \<open>The three-cycle \<open>100 \<rightarrow> 101 \<rightarrow> 102 \<rightarrow> 100\<close>.\<close>

definition three_cycle :: "sym_t \<Rightarrow> Lisp_Symbol" where
  "three_cycle x =
     \<lparr>redirect = (if x = 100 then SYMBOL_VARALIAS 101
                  else if x = 101 then SYMBOL_VARALIAS 102
                  else if x = 102 then SYMBOL_VARALIAS 100
                  else SYMBOL_PLAINVAL Qunbound),
      sym_constant = False, declared_special = False, keyword = False, plist = []\<rparr>"

lemma three_cycle_chain:
  "(alias_step three_cycle ^^ m) 100 \<in> {100, 101, 102}"
  by (induction m) (auto simp: alias_step_def three_cycle_def)

lemma indirect_variable_three_cycle:
  "indirect_variable three_cycle 100 = Sig Qcyclic_variable_indirection (list1 (Symbol 100))"
proof -
  have b: "\<forall>x<103. aliased three_cycle x \<longrightarrow> alias_step three_cycle x < 103"
    by (simp add: aliased_def alias_step_def three_cycle_def)
  have al: "aliased three_cycle ((alias_step three_cycle ^^ m) 100)" for m
    using three_cycle_chain [of m] by (auto simp: aliased_def three_cycle_def)
  from indirect_variable_total [OF b, of 100] al show ?thesis by auto
qed

subsection \<open>The functions that read and set variables follow the aliases\<close>

text \<open>The head \<open>start:\<close> of the switch on the redirect: it leaves with the symbol at the
  end of the alias chain, or with the signal.\<close>

lemma start_total:
  assumes "\<forall>x<n. aliased (symtab s) x \<longrightarrow> alias_step (symtab s) x < n"
    and "symbol < n"
  shows "(\<exists>t m. start symbol s = (Ret t, s) \<and> \<not> is_varalias (SYMBOL_REDIRECT s t)
              \<and> indirect_variable (symtab s) symbol = Ret t
              \<and> t = (alias_step (symtab s) ^^ m) symbol)
       \<or> (start symbol s = (Sig Qcyclic_variable_indirection (list1 (Symbol symbol)), s)
          \<and> indirect_variable (symtab s) symbol
              = Sig Qcyclic_variable_indirection (list1 (Symbol symbol))
          \<and> (\<forall>m. aliased (symtab s) ((alias_step (symtab s) ^^ m) symbol)))"
proof (cases "is_varalias (SYMBOL_REDIRECT s symbol)")
  case True
  then have st: "start symbol s = (indirect_variable (symtab s) symbol, s)"
    by (simp add: start_def)
  from indirect_variable_total [OF assms] show ?thesis
    unfolding st by (auto simp: aliased_def SYMBOL_REDIRECT_def)
next
  case False
  then have st: "start symbol s = (Ret symbol, s)" by (simp add: start_def)
  have na: "\<not> aliased (symtab s) symbol"
    using False by (simp add: aliased_def SYMBOL_REDIRECT_def)
  have "indirect_variable_loop (symtab s) symbol symbol symbol = Some (Ret symbol)"
    using na by (subst indirect_variable_loop.simps) (simp add: aliased_def)
  then have iv: "indirect_variable (symtab s) symbol = Ret symbol"
    by (simp add: indirect_variable_def)
  have "symbol = (alias_step (symtab s) ^^ 0) symbol" by simp
  with st False iv show ?thesis by blast
qed

text \<open>Apart from the alias chase nothing in these functions can fail to return.\<close>

lemma seq_returns:
  assumes "fst m \<noteq> Diverges"
    and "\<And>x s'. m = (Ret x, s') \<Longrightarrow> fst (f x s') \<noteq> Diverges"
  shows "fst (seq m f) \<noteq> Diverges"
proof (cases m)
  case (Pair r s')
  show ?thesis
  proof (cases r)
    case (Ret x)
    with Pair assms(2) show ?thesis by (simp add: seq_def)
  qed (use Pair assms(1) in \<open>simp_all add: seq_def\<close>)
qed

lemma store_in_buffers_returns:
  "fst (store_in_buffers idx offset v bs s) \<noteq> Diverges"
  by (induction bs arbitrary: s) (simp_all split: option.split bool.split)

lemma store_symval_forwarding_returns:
  "fst (store_symval_forwarding f v buf s) \<noteq> Diverges"
  by (induction f v buf s rule: store_symval_forwarding.induct)
    (simp_all add: Let_def store_in_buffers_returns split: Lisp_Object.split)

lemma swap_in_symval_forwarding_returns:
  "fst (swap_in_symval_forwarding symb s) \<noteq> Diverges"
  by (simp add: swap_in_symval_forwarding_def Let_def store_symval_forwarding_returns
      split: option.split)

text \<open>\<open>find_symbol_value\<close> once \<open>start:\<close> has been passed with a symbol that is no
  alias.\<close>

lemma find_symbol_value_end:
  assumes "\<not> is_varalias (SYMBOL_REDIRECT s t)" and "start symbol s = (Ret t, s)"
  shows "find_symbol_value (Symbol symbol) s = find_symbol_value (Symbol t) s"
    and "fst (find_symbol_value (Symbol symbol) s) \<noteq> Diverges"
proof -
  have t: "start t s = (Ret t, s)" using assms(1) by (simp add: start_def)
  show "find_symbol_value (Symbol symbol) s = find_symbol_value (Symbol t) s"
    by (simp add: find_symbol_value_def CHECK_SYMBOL_def seq_def assms(2) t)
  have "fst (case SYMBOL_REDIRECT s t of
         SYMBOL_VARALIAS t' \<Rightarrow> (Diverges, s)
       | SYMBOL_PLAINVAL v \<Rightarrow> (Ret v, s)
       | SYMBOL_LOCALIZED b \<Rightarrow>
           seq (swap_in_symval_forwarding t s) (\<lambda>u s.
             (Ret (case fwd (SYMBOL_BLV s t) of
                     Some f \<Rightarrow> do_symval_forwarding s f
                   | None \<Rightarrow> blv_value s (SYMBOL_BLV s t)), s))
       | SYMBOL_FORWARDED f \<Rightarrow> (Ret (do_symval_forwarding s f), s)) \<noteq> Diverges"
  proof (cases "SYMBOL_REDIRECT s t")
    case (SYMBOL_LOCALIZED b)
    have "fst (seq (swap_in_symval_forwarding t s) (\<lambda>u s.
             (Ret (case fwd (SYMBOL_BLV s t) of
                     Some f \<Rightarrow> do_symval_forwarding s f
                   | None \<Rightarrow> blv_value s (SYMBOL_BLV s t)), s))) \<noteq> Diverges"
      by (rule seq_returns) (simp_all add: swap_in_symval_forwarding_returns)
    then show ?thesis using SYMBOL_LOCALIZED by simp
  qed (use assms(1) in simp_all)
  then show "fst (find_symbol_value (Symbol symbol) s) \<noteq> Diverges"
    by (simp add: find_symbol_value_def CHECK_SYMBOL_def seq_def assms(2))
qed


lemma find_symbol_value_returns:
  assumes "\<forall>x<n. aliased (symtab s) x \<longrightarrow> alias_step (symtab s) x < n"
    and "symbol < n"
  shows "fst (find_symbol_value (Symbol symbol) s) \<noteq> Diverges"
  using start_total [OF assms]
proof (elim disjE exE conjE)
  fix t m
  assume "start symbol s = (Ret t, s)" "\<not> is_varalias (SYMBOL_REDIRECT s t)"
  then show ?thesis by (intro find_symbol_value_end(2))
next
  assume "start symbol s = (Sig Qcyclic_variable_indirection (list1 (Symbol symbol)), s)"
  then show ?thesis by (simp add: find_symbol_value_def CHECK_SYMBOL_def seq_def)
qed

lemma SET_PER_BUFFER_VALUE_P_returns:
  "fst (SET_PER_BUFFER_VALUE_P b idx v s) \<noteq> Diverges"
  by (simp add: SET_PER_BUFFER_VALUE_P_def)

text \<open>\<open>set_internal\<close>: the check for a constant, then \<open>start:\<close>, then the switch at
  the symbol \<open>start:\<close> left with.\<close>

lemma set_internal_chase:
  assumes fin: "\<forall>x<n. aliased (symtab s) x \<longrightarrow> alias_step (symtab s) x < n"
    and sym: "symbol < n"
  shows "fst (set_internal (Symbol symbol) newval wh bindflag s) \<noteq> Diverges"
    and "\<not> sym_constant (symtab s symbol) \<Longrightarrow>
         start symbol s = (Sig Qcyclic_variable_indirection (list1 (Symbol symbol)), s) \<Longrightarrow>
         set_internal (Symbol symbol) newval wh bindflag s
         = (Sig Qcyclic_variable_indirection (list1 (Symbol symbol)), s)"
    and "\<not> sym_constant (symtab s symbol) \<Longrightarrow> \<not> sym_constant (symtab s t) \<Longrightarrow>
         start symbol s = (Ret t, s) \<Longrightarrow> \<not> is_varalias (SYMBOL_REDIRECT s t) \<Longrightarrow>
         set_internal (Symbol symbol) newval wh bindflag s
         = set_internal (Symbol t) newval wh bindflag s"
proof -
  define body where "body = (\<lambda>symb s.
       case SYMBOL_REDIRECT s symb of
         SYMBOL_VARALIAS t \<Rightarrow> (Diverges, s)
       | SYMBOL_PLAINVAL v \<Rightarrow> (Ret (), SET_SYMBOL_VAL symb newval s)
       | SYMBOL_LOCALIZED b \<Rightarrow>
           (let w = (if NILP wh
                     then (if frame_local b then FrameObj (selected_frame s)
                           else BufferObj (current_buffer s))
                     else wh);
                s1 = (if blv_where b \<noteq> w \<or> valcell b = defcell b
                      then set_internal_load symb w bindflag s else s);
                s2 = set_blv_value symb newval s1
            in case fwd (SYMBOL_BLV s2 symb) of
                 None \<Rightarrow> (Ret (), s2)
               | Some f \<Rightarrow>
                   (if newval = Qunbound then (Ret (), upd_blv symb (\<lambda>blv. blv\<lparr>fwd := None\<rparr>) s2)
                    else store_symval_forwarding f newval
                           (case w of BufferObj b \<Rightarrow> Some b | _ \<Rightarrow> None) s2))
       | SYMBOL_FORWARDED innercontents \<Rightarrow>
           (let buf = (case wh of BufferObj b \<Rightarrow> b | _ \<Rightarrow> current_buffer s) in
            seq (case innercontents of
                   Fwd_Buffer_Obj offset predicate \<Rightarrow>
                     (let idx = PER_BUFFER_IDX s offset in
                      if idx > 0 \<and> \<not> bindflag
                         \<and> \<not> let_shadows_buffer_binding_p s symb (specpdl s)
                      then SET_PER_BUFFER_VALUE_P buf idx True s
                      else (Ret (), s))
                 | _ \<Rightarrow> (Ret (), s)) (\<lambda>u s.
              if newval = Qunbound then (Ret (), SET_SYMBOL_VAL symb newval s)
              else store_symval_forwarding innercontents newval (Some buf) s)))"
  have eq: "set_internal (Symbol x) newval wh bindflag s =
     seq (if sym_constant (symtab s x) then
            (if NILP (Fkeywordp s (Symbol x)) then (Sig Qsetting_constant (list1 (Symbol x)), s)
             else seq (Fsymbol_value (Symbol x) s) (\<lambda>v s.
                    if newval \<noteq> v then (Sig Qsetting_constant (list1 (Symbol x)), s)
                    else (Ret True, s)))
          else (Ret False, s)) (\<lambda>done s.
     if done then (Ret (), s) else seq (start x s) body)" for x
    unfolding set_internal_def body_def Let_def
    by (simp only: CHECK_SYMBOL_def SYMBOLP.simps if_True seq_Ret SYMBOL_CONSTANT_P_def
        XSYMBOL.simps)
  have body_ret: "fst (body t s') \<noteq> Diverges" if "\<not> is_varalias (SYMBOL_REDIRECT s' t)" for t s'
  proof (cases "SYMBOL_REDIRECT s' t")
    case (SYMBOL_LOCALIZED b)
    then show ?thesis
      by (simp add: body_def Let_def store_symval_forwarding_returns split: option.split)
  next
    case (SYMBOL_FORWARDED innercontents)
    have "fst (seq (case innercontents of
                   Fwd_Buffer_Obj offset predicate \<Rightarrow>
                     (let idx = PER_BUFFER_IDX s' offset in
                      if idx > 0 \<and> \<not> bindflag
                         \<and> \<not> let_shadows_buffer_binding_p s' t (specpdl s')
                      then SET_PER_BUFFER_VALUE_P (case wh of BufferObj b \<Rightarrow> b | _ \<Rightarrow> current_buffer s') idx True s'
                      else (Ret (), s'))
                 | _ \<Rightarrow> (Ret (), s')) (\<lambda>u s.
              if newval = Qunbound then (Ret (), SET_SYMBOL_VAL t newval s)
              else store_symval_forwarding innercontents newval
                     (Some (case wh of BufferObj b \<Rightarrow> b | _ \<Rightarrow> current_buffer s')) s)) \<noteq> Diverges"
      by (rule seq_returns)
        (simp_all add: Let_def SET_PER_BUFFER_VALUE_P_returns store_symval_forwarding_returns
          split: Lisp_Fwd.split)
    then show ?thesis using SYMBOL_FORWARDED by (simp add: body_def Let_def)
  qed (use that in \<open>simp_all add: body_def\<close>)
  have chase_ret: "fst (seq (start symbol s) body) \<noteq> Diverges"
    using start_total [OF fin sym]
  proof (elim disjE exE conjE)
    fix t m
    assume "start symbol s = (Ret t, s)" "\<not> is_varalias (SYMBOL_REDIRECT s t)"
    then show ?thesis by (simp add: seq_def body_ret)
  next
    assume "start symbol s = (Sig Qcyclic_variable_indirection (list1 (Symbol symbol)), s)"
    then show ?thesis by (simp add: seq_def)
  qed
  show "fst (set_internal (Symbol symbol) newval wh bindflag s) \<noteq> Diverges"
  proof (cases "sym_constant (symtab s symbol)")
    case False
    then show ?thesis unfolding eq using chase_ret by (simp add: seq_def)
  next
    case True
    define check where "check = seq (Fsymbol_value (Symbol symbol) s) (\<lambda>v s.
                    if newval \<noteq> v then (Sig Qsetting_constant (list1 (Symbol symbol)), s)
                    else (Ret True, s))"
    have c1: "fst check \<noteq> Diverges"
      unfolding check_def Fsymbol_value_def
      by (rule seq_returns, rule seq_returns)
        (simp_all add: find_symbol_value_returns [OF fin sym])
    have c2: "x" if "check = (Ret x, s')" for x s'
      using that unfolding check_def
      by (auto simp: seq_def split: prod.splits result.splits if_splits)
    have "fst (seq check (\<lambda>done s. if done then (Ret (), s) else seq (start symbol s) body))
          \<noteq> Diverges"
    proof (rule seq_returns [OF c1])
      fix x s' assume "check = (Ret x, s')"
      then have x by (rule c2)
      then show "fst (if x then (Ret (), s') else seq (start symbol s') body) \<noteq> Diverges"
        by simp
    qed
    then show ?thesis
      unfolding eq check_def using True by (simp add: seq_def)
  qed
  show "set_internal (Symbol symbol) newval wh bindflag s
         = (Sig Qcyclic_variable_indirection (list1 (Symbol symbol)), s)"
    if "\<not> sym_constant (symtab s symbol)"
      "start symbol s = (Sig Qcyclic_variable_indirection (list1 (Symbol symbol)), s)"
    unfolding eq using that by (simp add: seq_def)
  show "set_internal (Symbol symbol) newval wh bindflag s
         = set_internal (Symbol t) newval wh bindflag s"
    if "\<not> sym_constant (symtab s symbol)" "\<not> sym_constant (symtab s t)"
      "start symbol s = (Ret t, s)" "\<not> is_varalias (SYMBOL_REDIRECT s t)"
  proof -
    have "start t s = (Ret t, s)" using that(4) by (simp add: start_def)
    then show ?thesis unfolding eq using that by (simp add: seq_def)
  qed
qed


text \<open>
  Claim C5.  In a state whose symbol table has finitely many symbols (all below \<open>n\<close>,
  alias links included), following the \<open>SYMBOL_VARALIAS\<close> links never loops forever:
  \<open>find_symbol_value\<close> and \<open>set_internal\<close> always leave (never \<open>Diverges\<close>), and
  either the chain from the symbol ends, \<open>indirect_variable\<close> returns the symbol at its
  end, which is not an alias, and reading or setting the symbol is reading or setting that
  one; or the chain never ends, and \<open>indirect_variable\<close>, \<open>find_symbol_value\<close> and
  \<open>set_internal\<close> (of a symbol that is no constant) signal
  \<open>cyclic-variable-indirection\<close> with the original symbol as the data, the state
  unchanged.
\<close>

theorem alias_chase_terminates:
  assumes "\<forall>x<n. aliased (symtab s) x \<longrightarrow> alias_step (symtab s) x < n"
    and "symbol < n"
  shows "fst (find_symbol_value (Symbol symbol) s) \<noteq> Diverges
       \<and> fst (set_internal (Symbol symbol) newval wh bindflag s) \<noteq> Diverges
       \<and> ((\<exists>t m. indirect_variable (symtab s) symbol = Ret t \<and> \<not> aliased (symtab s) t
                  \<and> t = (alias_step (symtab s) ^^ m) symbol
                  \<and> find_symbol_value (Symbol symbol) s = find_symbol_value (Symbol t) s
                  \<and> (\<not> sym_constant (symtab s symbol) \<and> \<not> sym_constant (symtab s t)
                       \<longrightarrow> set_internal (Symbol symbol) newval wh bindflag s
                           = set_internal (Symbol t) newval wh bindflag s))
          \<or> (indirect_variable (symtab s) symbol
                = Sig Qcyclic_variable_indirection (list1 (Symbol symbol))
              \<and> (\<forall>m. aliased (symtab s) ((alias_step (symtab s) ^^ m) symbol))
              \<and> find_symbol_value (Symbol symbol) s
                  = (Sig Qcyclic_variable_indirection (list1 (Symbol symbol)), s)
              \<and> (\<not> sym_constant (symtab s symbol)
                   \<longrightarrow> set_internal (Symbol symbol) newval wh bindflag s
                       = (Sig Qcyclic_variable_indirection (list1 (Symbol symbol)), s))))"
proof -
  note get = find_symbol_value_returns [OF assms]
  note set = set_internal_chase [OF assms, where newval = newval and wh = wh and bindflag = bindflag]
  from start_total [OF assms]
  have "(\<exists>t m. indirect_variable (symtab s) symbol = Ret t \<and> \<not> aliased (symtab s) t
                  \<and> t = (alias_step (symtab s) ^^ m) symbol
                  \<and> find_symbol_value (Symbol symbol) s = find_symbol_value (Symbol t) s
                  \<and> (\<not> sym_constant (symtab s symbol) \<and> \<not> sym_constant (symtab s t)
                       \<longrightarrow> set_internal (Symbol symbol) newval wh bindflag s
                           = set_internal (Symbol t) newval wh bindflag s))
          \<or> (indirect_variable (symtab s) symbol
                = Sig Qcyclic_variable_indirection (list1 (Symbol symbol))
              \<and> (\<forall>m. aliased (symtab s) ((alias_step (symtab s) ^^ m) symbol))
              \<and> find_symbol_value (Symbol symbol) s
                  = (Sig Qcyclic_variable_indirection (list1 (Symbol symbol)), s)
              \<and> (\<not> sym_constant (symtab s symbol)
                   \<longrightarrow> set_internal (Symbol symbol) newval wh bindflag s
                       = (Sig Qcyclic_variable_indirection (list1 (Symbol symbol)), s)))"
  proof (elim disjE exE conjE)
    fix t m
    assume a: "start symbol s = (Ret t, s)" "\<not> is_varalias (SYMBOL_REDIRECT s t)"
      "indirect_variable (symtab s) symbol = Ret t" "t = (alias_step (symtab s) ^^ m) symbol"
    have "\<not> aliased (symtab s) t" using a(2) by (simp add: aliased_def SYMBOL_REDIRECT_def)
    moreover have "find_symbol_value (Symbol symbol) s = find_symbol_value (Symbol t) s"
      using a(2,1) by (rule find_symbol_value_end(1))
    moreover have "set_internal (Symbol symbol) newval wh bindflag s
                   = set_internal (Symbol t) newval wh bindflag s"
      if "\<not> sym_constant (symtab s symbol)" "\<not> sym_constant (symtab s t)"
      using that a(1,2) by (rule set(3))
    ultimately show ?thesis using a(3,4) by blast
  next
    assume a: "start symbol s = (Sig Qcyclic_variable_indirection (list1 (Symbol symbol)), s)"
      "indirect_variable (symtab s) symbol
        = Sig Qcyclic_variable_indirection (list1 (Symbol symbol))"
      "\<forall>m. aliased (symtab s) ((alias_step (symtab s) ^^ m) symbol)"
    have "find_symbol_value (Symbol symbol) s
          = (Sig Qcyclic_variable_indirection (list1 (Symbol symbol)), s)"
      using a(1) by (simp add: find_symbol_value_def CHECK_SYMBOL_def seq_def)
    moreover have "set_internal (Symbol symbol) newval wh bindflag s
                   = (Sig Qcyclic_variable_indirection (list1 (Symbol symbol)), s)"
      if "\<not> sym_constant (symtab s symbol)"
      using that a(1) by (rule set(2))
    ultimately show ?thesis using a(2,3) by blast
  qed
  with get set(1) show ?thesis by blast
qed

definition three_cycle_state :: lisp_state where
  "three_cycle_state = initial_state\<lparr>symtab := three_cycle\<rparr>"

theorem alias_chase_terminates_witness:
  "find_symbol_value (Symbol 100) three_cycle_state
     = (Sig Qcyclic_variable_indirection (list1 (Symbol 100)), three_cycle_state)
   \<and> set_internal (Symbol 100) (Integer 1) Qnil False three_cycle_state
     = (Sig Qcyclic_variable_indirection (list1 (Symbol 100)), three_cycle_state)"
proof -
  have b: "\<forall>x<103. aliased (symtab three_cycle_state) x
                    \<longrightarrow> alias_step (symtab three_cycle_state) x < 103"
    by (simp add: aliased_def alias_step_def three_cycle_def three_cycle_state_def)
  have al: "aliased (symtab three_cycle_state) ((alias_step (symtab three_cycle_state) ^^ m) 100)"
    for m
    using three_cycle_chain [of m]
    by (auto simp: aliased_def three_cycle_def three_cycle_state_def)
  have nc: "\<not> sym_constant (symtab three_cycle_state 100)"
    by (simp add: three_cycle_def three_cycle_state_def)
  have lt: "(100::nat) < 103" by simp
  from alias_chase_terminates [OF b lt, where newval = "Integer 1" and wh = Qnil
      and bindflag = False] al nc
  show ?thesis by blast
qed


section \<open>Frame-local variables cannot be let-bound\<close>

text \<open>
  Claim C10.  \<open>specbind\<close> on a symbol whose value is governed by a frame-local
  \<open>Lisp_Buffer_Local_Value\<close> leaves through \<open>error\<close> with the message
  "Frame-local vars cannot be let-bound", and the state at that point is the state
  \<open>specbind\<close> was called in: no entry was pushed on the binding stack, no unwinder
  was registered and no value was changed.
\<close>

theorem specbind_frame_local:
  assumes "SYMBOL_REDIRECT s symb = SYMBOL_LOCALIZED blv"
    and "frame_local blv"
  shows "specbind (Symbol symb) v s
         = (Sig Qerror (list1 (String ''Frame-local vars cannot be let-bound'')), s)"
  using assms
  by (simp add: specbind_def CHECK_SYMBOL_def seq_def start_def error_def)

definition frame_local_state :: lisp_state where
  "frame_local_state = snd (Fmake_variable_frame_local (Symbol 100) initial_state)"

lemma frame_local_state_redirect:
  "SYMBOL_REDIRECT frame_local_state 100
   = SYMBOL_LOCALIZED \<lparr>local_if_set = False, frame_local = True, found = False, fwd = None,
        blv_where = Qnil, defcell = 0, valcell = 0\<rparr>"
  by (simp add: frame_local_state_def Fmake_variable_frame_local_def CHECK_SYMBOL_def seq_def
      start_def SYMBOL_REDIRECT_def initial_state_def initial_symbol_def make_blv_def
      Fcons_cell_def install_blv_def SET_SYMBOL_REDIRECT_def let_shadows_global_binding_p_def)

theorem specbind_frame_local_witness:
  "specbind (Symbol 100) (Integer 1) frame_local_state
   = (Sig Qerror (list1 (String ''Frame-local vars cannot be let-bound'')), frame_local_state)"
  by (rule specbind_frame_local [OF frame_local_state_redirect]) simp

section \<open>Setting the default of a per-buffer variable\<close>

lemma store_in_buffers_result:
  assumes "0 \<le> idx" and "idx < last_per_buffer_idx s"
  shows "store_in_buffers idx offset v bs s
         = (Ret (), s\<lparr>buffers := (\<lambda>b. if b \<in> set bs \<and> \<not> local_flags (buffers s b) (nat idx)
                                      then (buffers s b)\<lparr>slots := (slots (buffers s b))(offset := v)\<rparr>
                                      else buffers s b)\<rparr>)"
  using assms
proof (induction bs arbitrary: s)
  case Nil
  then show ?case by simp
next
  case (Cons b bs)
  have idx: "PER_BUFFER_VALUE_P s b idx = Some (local_flags (buffers s b) (nat idx))"
    using Cons.prems by (simp add: PER_BUFFER_VALUE_P_def)
  show ?case
  proof (cases "local_flags (buffers s b) (nat idx)")
    case True
    have "(\<lambda>b'. if b' \<in> set bs \<and> \<not> local_flags (buffers s b') (nat idx)
                then (buffers s b')\<lparr>slots := (slots (buffers s b'))(offset := v)\<rparr>
                else buffers s b')
          = (\<lambda>b'. if b' \<in> set (b # bs) \<and> \<not> local_flags (buffers s b') (nat idx)
                then (buffers s b')\<lparr>slots := (slots (buffers s b'))(offset := v)\<rparr>
                else buffers s b')"
      using True by (auto simp: fun_eq_iff)
    then show ?thesis
      using True idx Cons.IH [OF Cons.prems] by simp
  next
    case False
    let ?s1 = "set_per_buffer_value b offset v s"
    have l: "last_per_buffer_idx ?s1 = last_per_buffer_idx s"
      by (simp add: set_per_buffer_value_def)
    have "store_in_buffers idx offset v bs ?s1
          = (Ret (), ?s1\<lparr>buffers := (\<lambda>b'. if b' \<in> set bs \<and> \<not> local_flags (buffers ?s1 b') (nat idx)
                                      then (buffers ?s1 b')\<lparr>slots := (slots (buffers ?s1 b'))(offset := v)\<rparr>
                                      else buffers ?s1 b')\<rparr>)"
      using Cons.prems by (intro Cons.IH) (simp_all add: l)
    moreover have "?s1\<lparr>buffers := (\<lambda>b'. if b' \<in> set bs \<and> \<not> local_flags (buffers ?s1 b') (nat idx)
                                      then (buffers ?s1 b')\<lparr>slots := (slots (buffers ?s1 b'))(offset := v)\<rparr>
                                      else buffers ?s1 b')\<rparr>
          = s\<lparr>buffers := (\<lambda>b'. if b' \<in> set (b # bs) \<and> \<not> local_flags (buffers s b') (nat idx)
                then (buffers s b')\<lparr>slots := (slots (buffers s b'))(offset := v)\<rparr>
                else buffers s b')\<rparr>"
    proof -
      have "(\<lambda>b'. if b' \<in> set bs \<and> \<not> local_flags (buffers ?s1 b') (nat idx)
                  then (buffers ?s1 b')\<lparr>slots := (slots (buffers ?s1 b'))(offset := v)\<rparr>
                  else buffers ?s1 b')
          = (\<lambda>b'. if b' \<in> set (b # bs) \<and> \<not> local_flags (buffers s b') (nat idx)
                  then (buffers s b')\<lparr>slots := (slots (buffers s b'))(offset := v)\<rparr>
                  else buffers s b')"
        using False by (intro ext) (auto simp: set_per_buffer_value_def)
      then show ?thesis by (simp add: set_per_buffer_value_def)
    qed
    ultimately show ?thesis using False idx by simp
  qed
qed

text \<open>
  Claim C7.  For a symbol forwarded to a per-buffer slot (\<open>Fwd_Buffer_Obj\<close>) that is
  not a constant, with the slot's index either \<open>-1\<close> (the slot is local in every
  buffer) or a valid positive index, \<open>Fset_default\<close> returns the value, stores it as
  the slot's default, and for every buffer of \<open>all_buffers\<close> (the buffers
  \<open>FOR_EACH_BUFFER\<close> visits, the live ones among them): a buffer in which the
  variable has a local value (\<open>Flocal_variable_p\<close>) keeps the value of its slot, and
  every other buffer gets the new value.  The buffers' \<open>local_flags\<close> do not
  change.
\<close>

theorem Fset_default_per_buffer:
  assumes "SYMBOL_REDIRECT s symb = SYMBOL_FORWARDED (Fwd_Buffer_Obj offset predicate)"
    and "\<not> sym_constant (symtab s symb)"
    and "PER_BUFFER_IDX s offset = - 1
         \<or> (0 < PER_BUFFER_IDX s offset \<and> PER_BUFFER_IDX s offset < last_per_buffer_idx s)"
  shows "\<exists>s'. Fset_default (Symbol symb) v s = (Ret v, s')
     \<and> per_buffer_default s' offset = v
     \<and> (\<forall>b \<in> set (all_buffers s).
           per_buffer_value s' b offset
           = (if fst (Flocal_variable_p (Symbol symb) (BufferObj b) s) = Ret Qt
              then per_buffer_value s b offset else v))
     \<and> (\<forall>b. local_flags (buffers s' b) = local_flags (buffers s b))"
proof -
  let ?idx = "PER_BUFFER_IDX s offset"
  let ?s1 = "set_per_buffer_default offset v s"
  have fl: "fst (Flocal_variable_p (Symbol symb) (BufferObj b) s) = Ret Qt
            \<longleftrightarrow> ?idx = - 1 \<or> local_flags (buffers s b) (nat ?idx)" for b
    using assms
    by (auto simp: Flocal_variable_p_def NILP_def CHECK_SYMBOL_def seq_def start_def
        PER_BUFFER_VALUE_P_def)
  have head: "Fset_default (Symbol symb) v s
        = (if ?idx > 0
           then seq (store_in_buffers ?idx offset v (all_buffers ?s1) ?s1) (\<lambda>u s. (Ret v, s))
           else (Ret v, ?s1))"
    using assms(1,2)
    by (simp add: Fset_default_def CHECK_SYMBOL_def seq_def start_def SYMBOL_CONSTANT_P_def
        Let_def)
  show ?thesis
  proof (cases "?idx > 0")
    case False
    with assms(3) have m: "?idx = - 1" by auto
    show ?thesis
      using head False m fl
      by (simp add: set_per_buffer_default_def per_buffer_default_def per_buffer_value_def)
  next
    case True
    with assms(3) have lt: "?idx < last_per_buffer_idx ?s1"
      by (auto simp: set_per_buffer_default_def)
    have st: "store_in_buffers ?idx offset v (all_buffers ?s1) ?s1
        = (Ret (), ?s1\<lparr>buffers := (\<lambda>b. if b \<in> set (all_buffers ?s1)
                                            \<and> \<not> local_flags (buffers ?s1 b) (nat ?idx)
                                      then (buffers ?s1 b)\<lparr>slots := (slots (buffers ?s1 b))(offset := v)\<rparr>
                                      else buffers ?s1 b)\<rparr>)"
      using True lt by (intro store_in_buffers_result) simp_all
    have res: "Fset_default (Symbol symb) v s
        = (Ret v, ?s1\<lparr>buffers := (\<lambda>b. if b \<in> set (all_buffers ?s1)
                                            \<and> \<not> local_flags (buffers ?s1 b) (nat ?idx)
                                      then (buffers ?s1 b)\<lparr>slots := (slots (buffers ?s1 b))(offset := v)\<rparr>
                                      else buffers ?s1 b)\<rparr>)"
      using True by (simp add: head st seq_def)
    show ?thesis
      using True fl
      by (simp add: res set_per_buffer_default_def per_buffer_default_def
          per_buffer_value_def)
  qed
qed

text \<open>Two buffers; the slot at offset 7 has index 1; buffer 1 has a local value 5.\<close>

definition two_buffer_state :: lisp_state where
  "two_buffer_state =
     initial_state
       \<lparr>symtab := initial_symbol
          (100 := (initial_symbol 100)\<lparr>redirect := SYMBOL_FORWARDED (Fwd_Buffer_Obj 7 Qnil)\<rparr>),
        buffers := (\<lambda>b. \<lparr>local_var_alist = [],
                          slots = (\<lambda>offset. if b = 1 \<and> offset = 7 then Integer 5 else Qnil),
                          local_flags = (\<lambda>idx. b = 1 \<and> idx = 1)\<rparr>),
        all_buffers := [0, 1],
        live_buffers := [0, 1],
        buffer_local_flags := (\<lambda>offset. if offset = 7 then 1 else 0),
        last_per_buffer_idx := 2\<rparr>"

theorem Fset_default_per_buffer_witness:
  "\<exists>s'. Fset_default (Symbol 100) (Integer 10) two_buffer_state = (Ret (Integer 10), s')
     \<and> per_buffer_default s' 7 = Integer 10
     \<and> per_buffer_value s' 0 7 = Integer 10
     \<and> per_buffer_value s' 1 7 = Integer 5"
proof -
  have r: "SYMBOL_REDIRECT two_buffer_state 100 = SYMBOL_FORWARDED (Fwd_Buffer_Obj 7 Qnil)"
    by (simp add: two_buffer_state_def SYMBOL_REDIRECT_def)
  have c: "\<not> sym_constant (symtab two_buffer_state 100)"
    by (simp add: two_buffer_state_def initial_symbol_def)
  have i: "PER_BUFFER_IDX two_buffer_state 7 = - 1
           \<or> (0 < PER_BUFFER_IDX two_buffer_state 7
              \<and> PER_BUFFER_IDX two_buffer_state 7 < last_per_buffer_idx two_buffer_state)"
    by (simp add: two_buffer_state_def PER_BUFFER_IDX_def initial_state_def)
  have f0: "fst (Flocal_variable_p (Symbol 100) (BufferObj 0) two_buffer_state) = Ret Qnil"
    by (simp add: Flocal_variable_p_def NILP_def CHECK_SYMBOL_def seq_def start_def
        PER_BUFFER_VALUE_P_def two_buffer_state_def SYMBOL_REDIRECT_def PER_BUFFER_IDX_def
        initial_state_def)
  have f1: "fst (Flocal_variable_p (Symbol 100) (BufferObj (Suc 0)) two_buffer_state) = Ret Qt"
    by (simp add: Flocal_variable_p_def NILP_def CHECK_SYMBOL_def seq_def start_def
        PER_BUFFER_VALUE_P_def two_buffer_state_def SYMBOL_REDIRECT_def PER_BUFFER_IDX_def
        initial_state_def)
  have v1: "per_buffer_value two_buffer_state (Suc 0) 7 = Integer 5"
    by (simp add: per_buffer_value_def two_buffer_state_def)
  have a: "all_buffers two_buffer_state = [0, 1]"
    by (simp add: two_buffer_state_def)
  from Fset_default_per_buffer [OF r c i, of "Integer 10"] show ?thesis
    by (auto simp: a f0 f1 v1)
qed

section \<open>Binding parameters: when the number of arguments is wrong\<close>

text \<open>
  The parameter binding as the specification words it, to be compared with
  \<open>funcall_lambda_loop\<close>: the counts and the values here, the new environment below.  A formal is a symbol of the lambda list other than the
  markers \<open>&optional\<close> and \<open>&rest\<close>; the required formals are those before the
  first marker; \<open>formals_before_rest\<close> are the formals that take one argument each and
  \<open>formals_after_rest\<close> those that follow \<open>&rest\<close>.
\<close>

definition is_formal :: "Lisp_Object \<Rightarrow> bool" where
  "is_formal x = (x \<noteq> Qand_rest \<and> x \<noteq> Qand_optional)"

definition required_count :: "Lisp_Object list \<Rightarrow> nat" where
  "required_count formals = length (takeWhile is_formal formals)"

definition formals_before_rest :: "Lisp_Object list \<Rightarrow> Lisp_Object list" where
  "formals_before_rest formals = filter is_formal (takeWhile (\<lambda>x. x \<noteq> Qand_rest) formals)"

definition formals_after_rest :: "Lisp_Object list \<Rightarrow> Lisp_Object list" where
  "formals_after_rest formals = filter is_formal (drop 1 (dropWhile (\<lambda>x. x \<noteq> Qand_rest) formals))"

definition formal_count :: "Lisp_Object list \<Rightarrow> nat" where
  "formal_count formals = length (filter is_formal formals)"

text \<open>The value of each formal: the actuals in order, \<open>nil\<close> for the optionals beyond
  the actuals, the list of the remaining actuals for the formal after \<open>&rest\<close> (and
  \<open>nil\<close> for any further formal after it).\<close>

definition pad_actuals :: "nat \<Rightarrow> Lisp_Object list \<Rightarrow> Lisp_Object list" where
  "pad_actuals n actuals = take n (actuals @ replicate n Qnil)"

fun rest_bindings ::
  "Lisp_Object list \<Rightarrow> Lisp_Object list \<Rightarrow> (Lisp_Object \<times> Lisp_Object) list" where
  "rest_bindings [] remaining = []"
| "rest_bindings (r # others) remaining = (r, Flist remaining) # map (\<lambda>x. (x, Qnil)) others"

definition expected_bindings ::
  "Lisp_Object list \<Rightarrow> Lisp_Object list \<Rightarrow> (Lisp_Object \<times> Lisp_Object) list" where
  "expected_bindings formals actuals =
     zip (formals_before_rest formals)
         (pad_actuals (length (formals_before_rest formals)) actuals)
     @ rest_bindings (formals_after_rest formals)
         (drop (length (formals_before_rest formals)) actuals)"

text \<open>The new environment.  With a lexical environment the bindings extend the alist,
  each in front of the earlier ones; without one every formal is bound by \<open>specbind\<close>,
  in order, and the first \<open>specbind\<close> that signals ends the binding with its error.\<close>

definition extend_lexenv :: "Lisp_Object \<Rightarrow> (Lisp_Object \<times> Lisp_Object) list \<Rightarrow> Lisp_Object" where
  "extend_lexenv lexenv bs = foldl (\<lambda>env (x, a). Cons (Cons x a) env) lexenv bs"

fun specbind_each :: "(Lisp_Object \<times> Lisp_Object) list \<Rightarrow> lisp_state \<Rightarrow> unit result \<times> lisp_state" where
  "specbind_each [] s = (Ret (), s)"
| "specbind_each ((x, a) # bs) s = seq (specbind x a s) (\<lambda>u s. specbind_each bs s)"

text \<open>The number of arguments is wrong when the actuals are fewer than the required
  formals or, in the absence of \<open>&rest\<close>, more than all formals.\<close>

definition wrong_number :: "Lisp_Object list \<Rightarrow> Lisp_Object list \<Rightarrow> bool" where
  "wrong_number formals actuals =
     (length actuals < required_count formals
      \<or> (Qand_rest \<notin> set formals \<and> length actuals > formal_count formals))"

text \<open>The formals that have their value before the number of arguments is found wrong:
  with too few actuals the required formals that have one, otherwise all.\<close>

definition bindings_reached ::
  "Lisp_Object list \<Rightarrow> Lisp_Object list \<Rightarrow> (Lisp_Object \<times> Lisp_Object) list" where
  "bindings_reached formals actuals =
     (if length actuals < required_count formals
      then zip (take (length actuals) formals) actuals
      else expected_bindings formals actuals)"

definition spec_BindParameters ::
  "Lisp_Object \<Rightarrow> Lisp_Object list \<Rightarrow> Lisp_Object list \<Rightarrow> Lisp_Object \<Rightarrow> lisp_state
   \<Rightarrow> Lisp_Object result \<times> lisp_state" where
  "spec_BindParameters fn formals actuals lexenv s =
     (if \<not> NILP lexenv
      then (if wrong_number formals actuals
            then (Sig Qwrong_number_of_arguments (list2 fn (Integer (int (length actuals)))), s)
            else (Ret (extend_lexenv lexenv (expected_bindings formals actuals)), s))
      else seq (specbind_each (bindings_reached formals actuals) s) (\<lambda>u s.
             if wrong_number formals actuals
             then (Sig Qwrong_number_of_arguments (list2 fn (Integer (int (length actuals)))), s)
             else (Ret lexenv, s)))"

text \<open>The calls of \<open>bind_argument\<close> that the loop of \<open>funcall_lambda\<close> makes for a
  list of formals and their values, and the signal the loop ends with after them.\<close>

fun bind_each ::
  "Lisp_Object \<Rightarrow> (Lisp_Object \<times> Lisp_Object) list \<Rightarrow> lisp_state
   \<Rightarrow> Lisp_Object result \<times> lisp_state" where
  "bind_each lexenv [] s = (Ret lexenv, s)"
| "bind_each lexenv ((x, a) # bs) s =
     seq (bind_argument lexenv x a s) (\<lambda>lexenv s. bind_each lexenv bs s)"

definition wrong_number_of_arguments ::
  "Lisp_Object \<Rightarrow> nat \<Rightarrow> Lisp_Object result \<times> lisp_state \<Rightarrow> Lisp_Object result \<times> lisp_state" where
  "wrong_number_of_arguments fn nargs m =
     seq m (\<lambda>lexenv s. (Sig Qwrong_number_of_arguments (list2 fn (Integer (int nargs))), s))"

lemma is_formal_markers [simp]: "\<not> is_formal Qand_rest" "\<not> is_formal Qand_optional"
  by (simp_all add: is_formal_def)

lemma is_formal_cases:
  obtains "x = Qand_rest" | "x = Qand_optional"
  | "is_formal x" "x \<noteq> Qand_rest" "x \<noteq> Qand_optional"
  by (auto simp: is_formal_def)

text \<open>After a formal behind \<open>&rest\<close> has been bound, \<open>i\<close> is \<open>nargs\<close>: every
  further formal is bound to \<open>nil\<close>.\<close>

lemma loop_after_rest_formal:
  assumes "\<forall>x \<in> set fs. SYMBOLP x"
  shows "funcall_lambda_loop fn args (Flist fs) (length args) optional True lexenv s
         = bind_each lexenv (map (\<lambda>x. (x, Qnil)) (filter is_formal fs)) s"
  using assms
proof (induction fs arbitrary: optional lexenv s)
  case Nil
  then show ?case by (simp add: NILP_def)
next
  case (Cons x fs)
  show ?case
  proof (cases x rule: is_formal_cases)
    case 1
    then show ?thesis using Cons by simp
  next
    case 2
    then show ?thesis using Cons by simp
  next
    case 3
    then show ?thesis using Cons by (auto intro!: seq_cong_fun)
  qed
qed

text \<open>After \<open>&rest\<close>: the first formal takes the remaining arguments.\<close>

lemma loop_after_rest:
  assumes "\<forall>x \<in> set fs. SYMBOLP x" and "i \<le> length args"
  shows "funcall_lambda_loop fn args (Flist fs) i optional True lexenv s
         = (if filter is_formal fs = [] \<and> i < length args
            then (Sig Qwrong_number_of_arguments (list2 fn (Integer (int (length args)))), s)
            else bind_each lexenv (rest_bindings (filter is_formal fs) (drop i args)) s)"
  using assms
proof (induction fs arbitrary: optional lexenv s)
  case Nil
  then show ?case by (simp add: NILP_def)
next
  case (Cons x fs)
  show ?case
  proof (cases x rule: is_formal_cases)
    case 1
    then show ?thesis using Cons by simp
  next
    case 2
    then show ?thesis using Cons by simp
  next
    case 3
    then show ?thesis using Cons by (auto simp: loop_after_rest_formal intro!: seq_cong_fun)
  qed
qed

lemma formals_before_rest_simps [simp]:
  "formals_before_rest [] = []"
  "formals_before_rest (Qand_rest # fs) = []"
  "formals_before_rest (Qand_optional # fs) = formals_before_rest fs"
  "is_formal x \<Longrightarrow> formals_before_rest (x # fs) = x # formals_before_rest fs"
  by (auto simp: formals_before_rest_def is_formal_def)

lemma formals_after_rest_simps [simp]:
  "formals_after_rest [] = []"
  "formals_after_rest (Qand_rest # fs) = filter is_formal fs"
  "formals_after_rest (Qand_optional # fs) = formals_after_rest fs"
  "is_formal x \<Longrightarrow> formals_after_rest (x # fs) = formals_after_rest fs"
  by (auto simp: formals_after_rest_def is_formal_def)

lemma required_count_simps [simp]:
  "required_count [] = 0"
  "required_count (Qand_rest # fs) = 0"
  "required_count (Qand_optional # fs) = 0"
  "is_formal x \<Longrightarrow> required_count (x # fs) = Suc (required_count fs)"
  by (auto simp: required_count_def)

lemma formal_count_simps [simp]:
  "formal_count [] = 0"
  "formal_count (Qand_rest # fs) = formal_count fs"
  "formal_count (Qand_optional # fs) = formal_count fs"
  "is_formal x \<Longrightarrow> formal_count (x # fs) = Suc (formal_count fs)"
  by (auto simp: formal_count_def)

lemma formal_count_split:
  "formal_count fs = length (formals_before_rest fs) + length (formals_after_rest fs)"
proof (induction fs)
  case Nil
  then show ?case by simp
next
  case (Cons x fs)
  then show ?case
    by (cases x rule: is_formal_cases) (simp_all add: formal_count_def)
qed

lemma pad_actuals_eq:
  "pad_actuals n as = take n as @ replicate (n - length as) Qnil"
  by (simp add: pad_actuals_def min_def)

lemma pad_actuals_simps [simp]:
  "pad_actuals 0 as = []"
  "pad_actuals (Suc n) (a # as) = a # pad_actuals n as"
  "pad_actuals (Suc n) [] = Qnil # pad_actuals n []"
  by (simp_all add: pad_actuals_eq)

lemma expected_bindings_simps [simp]:
  "expected_bindings [] as = []"
  "expected_bindings (Qand_optional # fs) as = expected_bindings fs as"
  "is_formal x \<Longrightarrow> expected_bindings (x # fs) (a # as) = (x, a) # expected_bindings fs as"
  "is_formal x \<Longrightarrow> expected_bindings (x # fs) [] = (x, Qnil) # expected_bindings fs []"
  by (simp_all add: expected_bindings_def)

lemma expected_bindings_rest:
  "expected_bindings (Qand_rest # fs) as = rest_bindings (filter is_formal fs) as"
  by (simp add: expected_bindings_def)

lemma wrong_number_of_arguments_seq:
  "wrong_number_of_arguments fn n (seq m f)
   = seq m (\<lambda>x s. wrong_number_of_arguments fn n (f x s))"
  by (simp add: wrong_number_of_arguments_def seq_assoc)

lemma wrong_number_of_arguments_Ret [simp]:
  "wrong_number_of_arguments fn n (Ret x, s)
   = (Sig Qwrong_number_of_arguments (list2 fn (Integer (int n))), s)"
  by (simp add: wrong_number_of_arguments_def)

text \<open>After \<open>&optional\<close>: the loop itself never fails for the number of arguments; only
  the check after it can.\<close>

lemma loop_after_optional:
  assumes "\<forall>x \<in> set fs. SYMBOLP x" and "i \<le> length args"
  shows "funcall_lambda_loop fn args (Flist fs) i True False lexenv s
         = (if formals_after_rest fs = [] \<and> length (drop i args) > formal_count fs
            then wrong_number_of_arguments fn (length args)
                   (bind_each lexenv (expected_bindings fs (drop i args)) s)
            else bind_each lexenv (expected_bindings fs (drop i args)) s)"
  using assms
proof (induction fs arbitrary: i lexenv s)
  case Nil
  then show ?case by (simp add: NILP_def)
next
  case (Cons x fs)
  show ?case
  proof (cases x rule: is_formal_cases)
    case 1
    then show ?thesis
      using Cons.prems
      by (auto simp: loop_after_rest expected_bindings_rest formal_count_def)
  next
    case 2
    then show ?thesis using Cons by simp
  next
    case 3
    show ?thesis
    proof (cases "i < length args")
      case True
      then have d: "drop i args = args ! i # drop (Suc i) args"
        by (simp add: Cons_nth_drop_Suc)
      have "Suc i \<le> length args" using True by simp
      note IH = Cons.IH [OF _ this]
      show ?thesis
        using 3 True Cons.prems
        by (auto simp: d IH wrong_number_of_arguments_seq intro!: seq_cong_fun)
    next
      case False
      with Cons.prems have ieq: "i = length args" by simp
      have IH: "funcall_lambda_loop fn args (Flist fs) (length args) True False lexenv s
         = (if formals_after_rest fs = [] \<and> length (drop (length args) args) > formal_count fs
            then wrong_number_of_arguments fn (length args)
                   (bind_each lexenv (expected_bindings fs (drop (length args) args)) s)
            else bind_each lexenv (expected_bindings fs (drop (length args) args)) s)"
        for lexenv s
        using Cons.prems by (intro Cons.IH) simp_all
      show ?thesis
        using 3 Cons.prems
        by (auto simp: ieq IH wrong_number_of_arguments_seq intro!: seq_cong_fun)
    qed
  qed
qed

text \<open>Before any marker: a formal with no argument left fails.\<close>

lemma loop_required:
  assumes "\<forall>x \<in> set fs. SYMBOLP x" and "i \<le> length args"
  shows "funcall_lambda_loop fn args (Flist fs) i False False lexenv s
         = (if length (drop i args) < required_count fs
            then wrong_number_of_arguments fn (length args)
                   (bind_each lexenv (zip (take (length (drop i args)) fs) (drop i args)) s)
            else if formals_after_rest fs = [] \<and> length (drop i args) > formal_count fs
            then wrong_number_of_arguments fn (length args)
                   (bind_each lexenv (expected_bindings fs (drop i args)) s)
            else bind_each lexenv (expected_bindings fs (drop i args)) s)"
  using assms
proof (induction fs arbitrary: i lexenv s)
  case Nil
  then show ?case by (simp add: NILP_def)
next
  case (Cons x fs)
  show ?case
  proof (cases x rule: is_formal_cases)
    case 1
    then show ?thesis
      using Cons.prems
      by (auto simp: loop_after_rest expected_bindings_rest formal_count_def)
  next
    case 2
    then show ?thesis using Cons.prems by (simp add: loop_after_optional)
  next
    case 3
    show ?thesis
    proof (cases "i < length args")
      case True
      then have d: "drop i args = args ! i # drop (Suc i) args"
        by (simp add: Cons_nth_drop_Suc)
      have "Suc i \<le> length args" using True by simp
      note IH = Cons.IH [OF _ this]
      show ?thesis
        using 3 True Cons.prems
        by (auto simp: d IH wrong_number_of_arguments_seq intro!: seq_cong_fun)
    next
      case False
      with Cons.prems have d: "drop i args = []" by simp
      show ?thesis
        using 3 False Cons.prems by (simp add: d)
    qed
  qed
qed

text \<open>Binding into a lexical environment never fails.\<close>

lemma bind_each_lexical:
  assumes "\<not> NILP lexenv" and "\<forall>b \<in> set bs. SYMBOLP (fst b)"
  shows "bind_each lexenv bs s = (Ret (extend_lexenv lexenv bs), s)"
  using assms
proof (induction bs arbitrary: lexenv)
  case Nil
  then show ?case by (simp add: extend_lexenv_def)
next
  case (Cons b bs)
  obtain x a where b: "b = (x, a)" by (cases b)
  have "\<not> NILP (Cons (Cons x a) lexenv)" by (simp add: NILP_def)
  then have "bind_each (Cons (Cons x a) lexenv) bs s
             = (Ret (extend_lexenv (Cons (Cons x a) lexenv) bs), s)"
    using Cons.prems by (intro Cons.IH) auto
  then show ?case
    using Cons.prems b by (simp add: bind_argument_def extend_lexenv_def)
qed

lemma expected_bindings_symbols:
  assumes "\<forall>x \<in> set fs. SYMBOLP x"
  shows "\<forall>b \<in> set (expected_bindings fs as). SYMBOLP (fst b)"
proof -
  have "set (formals_before_rest fs) \<subseteq> set fs"
    by (auto simp: formals_before_rest_def dest: set_takeWhileD)
  moreover have "set (formals_after_rest fs) \<subseteq> set fs"
    by (auto simp: formals_after_rest_def dest: in_set_dropD set_dropWhileD)
  ultimately show ?thesis
    using assms
    by (cases "formals_after_rest fs") (auto simp: expected_bindings_def dest!: set_zip_leftD)
qed

text \<open>Binding without a lexical environment is \<open>specbind\<close> of each formal.\<close>

lemma bind_each_dynamic:
  assumes "NILP lexenv"
  shows "bind_each lexenv bs s = seq (specbind_each bs s) (\<lambda>u s. (Ret lexenv, s))"
proof (induction bs arbitrary: s)
  case Nil
  show ?case by simp
next
  case (Cons b bs)
  obtain x a where b: "b = (x, a)" by (cases b)
  show ?case
    using assms
    by (simp add: b bind_argument_def seq_assoc Cons.IH)
qed

lemma absence_of_rest:
  assumes "Qand_rest \<in> set formals \<longrightarrow> formals_after_rest formals \<noteq> []"
  shows "formals_after_rest formals = [] \<longleftrightarrow> Qand_rest \<notin> set formals"
proof
  assume "formals_after_rest formals = []"
  with assms show "Qand_rest \<notin> set formals" by blast
next
  assume "Qand_rest \<notin> set formals"
  then have d: "dropWhile (\<lambda>x. x \<noteq> Qand_rest) formals = []"
    by (auto simp: dropWhile_eq_Nil_conv)
  show "formals_after_rest formals = []"
    unfolding formals_after_rest_def d by simp
qed

lemma loop_is_spec:
  assumes sym: "\<forall>x \<in> set formals. SYMBOLP x"
    and rest: "Qand_rest \<in> set formals \<longrightarrow> formals_after_rest formals \<noteq> []"
  shows "funcall_lambda_loop fn actuals (Flist formals) 0 False False lexenv s
         = spec_BindParameters fn formals actuals lexenv s"
proof -
  note loop = loop_required [OF sym, of 0 actuals fn lexenv s, simplified]
  note ab = absence_of_rest [OF rest]
  show ?thesis
  proof (cases "NILP lexenv")
    case False
    have z: "\<forall>b \<in> set (zip (take (length actuals) formals) actuals). SYMBOLP (fst b)"
      using sym by (auto dest!: set_zip_leftD in_set_takeD)
    show ?thesis
      unfolding loop using False
      by (simp add: spec_BindParameters_def wrong_number_def ab
          bind_each_lexical [OF False z]
          bind_each_lexical [OF False expected_bindings_symbols [OF sym]])
  next
    case True
    show ?thesis
      unfolding loop using True
      by (simp add: spec_BindParameters_def wrong_number_def bindings_reached_def ab
          bind_each_dynamic [OF True] wrong_number_of_arguments_def seq_assoc)
  qed
qed

text \<open>
  Claim C9, amended.  For a lambda list of symbols in which a formal follows \<open>&rest\<close>
  when \<open>&rest\<close> is there, the loop of \<open>funcall_lambda\<close> binds the parameters as the
  specification says.  With a lexical environment it signals
  \<open>wrong-number-of-arguments\<close> exactly when the actuals are fewer than the required
  formals or, in the absence of \<open>&rest\<close>, more than all formals, and otherwise the result
  is the environment extended by every formal's binding (the actuals in order, \<open>nil\<close>
  for the optionals beyond them, the list of the remaining actuals for the formal after
  \<open>&rest\<close>).  Without one it binds the formals it reaches by \<open>specbind\<close>; the first
  \<open>specbind\<close> that signals ends it with that error, and when every \<open>specbind\<close>
  returns the outcome is the same: the signal exactly in the two cases, every formal bound
  otherwise.
\<close>

theorem funcall_lambda_binds_parameters:
  assumes "\<forall>x \<in> set formals. SYMBOLP x"
    and "Qand_rest \<in> set formals \<longrightarrow> formals_after_rest formals \<noteq> []"
  shows "funcall_lambda_loop fn actuals (Flist formals) 0 False False lexenv s
         = spec_BindParameters fn formals actuals lexenv s
       \<and> (\<not> NILP lexenv \<longrightarrow>
            funcall_lambda_loop fn actuals (Flist formals) 0 False False lexenv s
            = (if length actuals < required_count formals
                  \<or> (Qand_rest \<notin> set formals \<and> length actuals > formal_count formals)
               then (Sig Qwrong_number_of_arguments
                       (list2 fn (Integer (int (length actuals)))), s)
               else (Ret (extend_lexenv lexenv (expected_bindings formals actuals)), s)))
       \<and> (\<forall>s'. NILP lexenv \<and> specbind_each (bindings_reached formals actuals) s = (Ret (), s') \<longrightarrow>
            funcall_lambda_loop fn actuals (Flist formals) 0 False False lexenv s
            = (if length actuals < required_count formals
                  \<or> (Qand_rest \<notin> set formals \<and> length actuals > formal_count formals)
               then (Sig Qwrong_number_of_arguments
                       (list2 fn (Integer (int (length actuals)))), s')
               else (Ret lexenv, s'))
            \<and> (\<not> length actuals < required_count formals \<longrightarrow>
                 specbind_each (expected_bindings formals actuals) s = (Ret (), s')))
       \<and> (\<forall>e d s'. NILP lexenv \<and> specbind_each (bindings_reached formals actuals) s = (Sig e d, s') \<longrightarrow>
            funcall_lambda_loop fn actuals (Flist formals) 0 False False lexenv s = (Sig e d, s'))"
proof -
  note spec = loop_is_spec [OF assms, of fn actuals lexenv s]
  show ?thesis
    unfolding spec
    by (auto simp: spec_BindParameters_def wrong_number_def bindings_reached_def seq_def)
qed


text \<open>Without a lexical environment, on a formal that is a frame-local variable: with
  the right number of arguments the call neither binds the formal nor signals
  \<open>wrong-number-of-arguments\<close>, and with too few arguments the signal is not
  \<open>wrong-number-of-arguments\<close> either.  Both times it is the error of \<open>specbind\<close>.\<close>

theorem funcall_lambda_frame_local_formal:
  "length [Integer 1] = required_count [Symbol 100]
   \<and> length [Integer 1] = formal_count [Symbol 100]
   \<and> funcall_lambda_loop Qnil [Integer 1] (Flist [Symbol 100]) 0 False False Qnil
        frame_local_state
      = (Sig Qerror (list1 (String ''Frame-local vars cannot be let-bound'')), frame_local_state)
   \<and> length [Integer 1] < required_count [Symbol 100, Symbol 101]
   \<and> funcall_lambda_loop Qnil [Integer 1] (Flist [Symbol 100, Symbol 101]) 0 False False Qnil
        frame_local_state
      = (Sig Qerror (list1 (String ''Frame-local vars cannot be let-bound'')), frame_local_state)"
proof -
  have "specbind (Symbol 100) (Integer 1) frame_local_state
         = (Sig Qerror (list1 (String ''Frame-local vars cannot be let-bound'')), frame_local_state)"
    using frame_local_state_redirect
    by (simp add: specbind_def CHECK_SYMBOL_def start_def error_def)
  then show ?thesis
    by (simp add: required_count_def formal_count_def is_formal_def bind_argument_def NILP_def
        seq_def)
qed

theorem funcall_lambda_binds_parameters_witness:
  "funcall_lambda_loop Qnil [Integer 1, Integer 2, Integer 3]
     (Flist [Symbol 100, Qand_optional, Symbol 101, Symbol 102, Qand_rest, Symbol 103])
     0 False False (Cons Qt Qnil) initial_state
   = (Ret (Flist [Cons (Symbol 103) Qnil, Cons (Symbol 102) (Integer 3),
                  Cons (Symbol 101) (Integer 2), Cons (Symbol 100) (Integer 1), Qt]),
      initial_state)
   \<and> funcall_lambda_loop Qnil [Integer 1] (Flist [Symbol 100, Qand_optional, Symbol 101])
       0 False False Qnil initial_state
     = (Ret Qnil,
        scm_dynwind_unwind_handler unbind_once_fn True
          (SET_SYMBOL_VAL 101 Qnil
             ((scm_dynwind_unwind_handler unbind_once_fn True
                 (SET_SYMBOL_VAL 100 (Integer 1)
                    (initial_state\<lparr>specpdl := [SPECPDL_LET (Symbol 100) Qunbound]\<rparr>)))
              \<lparr>specpdl := [SPECPDL_LET (Symbol 101) Qunbound,
                           SPECPDL_LET (Symbol 100) Qunbound]\<rparr>)))"
proof -
  have a: "\<forall>x \<in> set [Symbol 100, Qand_optional, Symbol 101, Symbol 102, Qand_rest, Symbol 103].
          SYMBOLP x"
    "Qand_rest \<in> set [Symbol 100, Qand_optional, Symbol 101, Symbol 102, Qand_rest, Symbol 103]
     \<longrightarrow> formals_after_rest
           [Symbol 100, Qand_optional, Symbol 101, Symbol 102, Qand_rest, Symbol 103] \<noteq> []"
    by (simp_all add: formals_after_rest_def is_formal_def)
  note h = funcall_lambda_binds_parameters [OF a, THEN conjunct1,
      of Qnil "[Integer 1, Integer 2, Integer 3]" "Cons Qt Qnil" initial_state]
  have b: "\<forall>x \<in> set [Symbol 100, Qand_optional, Symbol 101]. SYMBOLP x"
    "Qand_rest \<in> set [Symbol 100, Qand_optional, Symbol 101]
     \<longrightarrow> formals_after_rest [Symbol 100, Qand_optional, Symbol 101] \<noteq> []"
    by simp_all
  note g = funcall_lambda_binds_parameters [OF b, THEN conjunct1,
      of Qnil "[Integer 1]" Qnil initial_state]
  have p: "specpdl initial_state = []" by (simp add: initial_state_def)
  let ?s1 = "scm_dynwind_unwind_handler unbind_once_fn True
                 (SET_SYMBOL_VAL 100 (Integer 1)
                    (initial_state\<lparr>specpdl := [SPECPDL_LET (Symbol 100) Qunbound]\<rparr>))"
  have s1: "specbind (Symbol 100) (Integer 1) initial_state = (Ret (), ?s1)"
    using specbind_plain [of initial_state 100 Qunbound "Integer 1"]
    by (simp add: initial_state_def initial_symbol_def)
  have p1: "specpdl ?s1 = [SPECPDL_LET (Symbol 100) Qunbound]"
    by (simp add: scm_dynwind_unwind_handler_def SET_SYMBOL_VAL_def SET_SYMBOL_REDIRECT_def)
  have "specbind (Symbol 101) Qnil ?s1
            = (Ret (), scm_dynwind_unwind_handler unbind_once_fn True
                 (SET_SYMBOL_VAL 101 Qnil (?s1\<lparr>specpdl := SPECPDL_LET (Symbol 101) Qunbound
                                    # specpdl ?s1\<rparr>)))"
    by (rule specbind_plain)
      (simp_all add: initial_state_def initial_symbol_def scm_dynwind_unwind_handler_def
        SET_SYMBOL_VAL_def SET_SYMBOL_REDIRECT_def)
  then have s2: "specbind (Symbol 101) Qnil ?s1
            = (Ret (), scm_dynwind_unwind_handler unbind_once_fn True
                 (SET_SYMBOL_VAL 101 Qnil (?s1\<lparr>specpdl := [SPECPDL_LET (Symbol 101) Qunbound,
                           SPECPDL_LET (Symbol 100) Qunbound]\<rparr>)))"
    by (simp only: p1)
  have lex: "spec_BindParameters Qnil
        [Symbol 100, Qand_optional, Symbol 101, Symbol 102, Qand_rest, Symbol 103]
        [Integer 1, Integer 2, Integer 3] (Cons Qt Qnil) initial_state
      = (Ret (Flist [Cons (Symbol 103) Qnil, Cons (Symbol 102) (Integer 3),
                  Cons (Symbol 101) (Integer 2), Cons (Symbol 100) (Integer 1), Qt]),
      initial_state)"
    by (simp add: spec_BindParameters_def wrong_number_def NILP_def
        required_count_def formals_after_rest_def formal_count_def
        is_formal_def expected_bindings_def formals_before_rest_def extend_lexenv_def
        pad_actuals_def)
  have dyn: "spec_BindParameters Qnil [Symbol 100, Qand_optional, Symbol 101] [Integer 1] Qnil
        initial_state
      = (Ret Qnil, scm_dynwind_unwind_handler unbind_once_fn True
                 (SET_SYMBOL_VAL 101 Qnil (?s1\<lparr>specpdl := [SPECPDL_LET (Symbol 101) Qunbound,
                           SPECPDL_LET (Symbol 100) Qunbound]\<rparr>)))"
    by (simp add: spec_BindParameters_def wrong_number_def bindings_reached_def NILP_def
        required_count_def formals_after_rest_def formal_count_def
        is_formal_def expected_bindings_def formals_before_rest_def
        pad_actuals_def s1 s2 del: One_nat_def)
  show ?thesis
    unfolding h g lex dyn by (rule conjI) (rule refl)+
qed

section \<open>The found flag of a buffer-local value\<close>

text \<open>
  The invariant of the cell heap and the buffer-local values.  For every symbol that is
  \<open>SYMBOL_LOCALIZED\<close>: \<open>found\<close> says whether \<open>valcell\<close> and \<open>defcell\<close> are
  different cells; the \<open>defcell\<close> is an allocated cell and no element of a buffer's
  \<open>local_var_alist\<close> or a frame's \<open>param_alist\<close>; and a binding that is loaded for
  a buffer and \<open>found\<close> is in that buffer's alist.  Every cell of an alist is
  allocated.
\<close>

definition blv_ok :: "lisp_state \<Rightarrow> sym_t \<Rightarrow> Lisp_Buffer_Local_Value \<Rightarrow> bool" where
  "blv_ok s symb blv =
     (found blv = (defcell blv \<noteq> valcell blv)
      \<and> defcell blv < next_cell s
      \<and> (\<forall>b. defcell blv \<notin> set (local_var_alist (buffers s b)))
      \<and> (\<forall>f. defcell blv \<notin> set (param_alist (frames s f)))
      \<and> (\<forall>b. found blv \<and> \<not> frame_local blv \<and> blv_where blv = BufferObj b
             \<longrightarrow> (\<exists>c \<in> set (local_var_alist (buffers s b)). fst (cells s c) = Symbol symb)))"

definition heap_ok :: "lisp_state \<Rightarrow> bool" where
  "heap_ok s =
     ((\<forall>b. \<forall>c \<in> set (local_var_alist (buffers s b)). c < next_cell s)
      \<and> (\<forall>f. \<forall>c \<in> set (param_alist (frames s f)). c < next_cell s))"

definition blv_invariant :: "lisp_state \<Rightarrow> bool" where
  "blv_invariant s =
     (heap_ok s
      \<and> (\<forall>symb blv. redirect (symtab s symb) = SYMBOL_LOCALIZED blv \<longrightarrow> blv_ok s symb blv))"

text \<open>What the invariant reads of a state.\<close>

definition blv_view ::
  "lisp_state \<Rightarrow> (sym_t \<Rightarrow> Lisp_Symbol) \<times> (nat \<Rightarrow> Lisp_Object) \<times> nat
                 \<times> (nat \<Rightarrow> nat list) \<times> (nat \<Rightarrow> nat list)" where
  "blv_view s =
     (symtab s, (\<lambda>c. fst (cells s c)), next_cell s,
      (\<lambda>b. local_var_alist (buffers s b)), (\<lambda>f. param_alist (frames s f)))"

lemma blv_view_eqD:
  assumes "blv_view s' = blv_view s"
  shows "symtab s' = symtab s" "fst (cells s' c) = fst (cells s c)" "next_cell s' = next_cell s"
    "local_var_alist (buffers s' b) = local_var_alist (buffers s b)"
    "param_alist (frames s' f) = param_alist (frames s f)"
  using assms by (auto simp: blv_view_def fun_eq_iff)

lemma blv_ok_view:
  assumes "blv_view s' = blv_view s"
  shows "blv_ok s' symb blv = blv_ok s symb blv"
  by (simp add: blv_ok_def blv_view_eqD [OF assms])

lemma blv_invariant_view:
  assumes "blv_view s' = blv_view s"
  shows "blv_invariant s' = blv_invariant s"
  by (simp add: blv_invariant_def heap_ok_def blv_ok_view [OF assms] blv_view_eqD [OF assms])

lemma assq_no_quit_None:
  "assq_no_quit s key al = None \<longleftrightarrow> (\<forall>c \<in> set al. fst (cells s c) \<noteq> key)"
  by (induction al) auto

lemma assq_no_quit_Some:
  "assq_no_quit s key al = Some c \<Longrightarrow> c \<in> set al \<and> fst (cells s c) = key"
  by (induction al) (auto split: if_splits)

lemma assq_no_quit_view:
  assumes "blv_view s' = blv_view s"
  shows "assq_no_quit s' key al = assq_no_quit s key al"
  by (induction al) (simp_all add: blv_view_eqD [OF assms])

text \<open>Writes that the invariant does not see.\<close>

lemma blv_view_set_per_buffer_value [simp]:
  "blv_view (set_per_buffer_value b offset v s) = blv_view s"
  by (simp add: blv_view_def set_per_buffer_value_def fun_eq_iff)

lemma blv_view_store_in_buffers:
  "blv_view (snd (store_in_buffers idx offset v bs s)) = blv_view s"
proof (induction bs arbitrary: s)
  case Nil
  then show ?case by simp
next
  case (Cons b bs)
  show ?case
  proof (cases "PER_BUFFER_VALUE_P s b idx")
    case None
    then show ?thesis by simp
  next
    case (Some flag)
    then show ?thesis using Cons [of s] Cons [of "set_per_buffer_value b offset v s"]
      by (cases flag) simp_all
  qed
qed

lemma blv_view_store_symval_forwarding:
  "blv_view (snd (store_symval_forwarding f v buf s)) = blv_view s"
proof (cases f)
  case (Fwd_Int i)
  then show ?thesis by (cases v) (simp_all add: blv_view_def)
next
  case (Fwd_Bool i)
  then show ?thesis by (simp add: blv_view_def)
next
  case (Fwd_Obj p)
  show ?thesis
  proof (cases p)
    case (CVar i)
    then show ?thesis using Fwd_Obj by (simp add: blv_view_def)
  next
    case (BufferDefaultsSlot offset)
    have d: "blv_view (s\<lparr>buffer_defaults := d\<rparr>) = blv_view s" for d
      by (simp add: blv_view_def)
    show ?thesis
      using Fwd_Obj BufferDefaultsSlot
      by (simp add: Let_def blv_view_store_in_buffers d)
  qed
next
  case (Fwd_Buffer_Obj offset predicate)
  then show ?thesis by simp
next
  case (Fwd_Kboard_Obj offset)
  then show ?thesis by (simp add: blv_view_def)
qed

lemma blv_view_XSETCDR_cell [simp]:
  "blv_view (XSETCDR_cell c v s) = blv_view s"
  by (auto simp: blv_view_def XSETCDR_cell_def)

lemma blv_view_set_blv_value [simp]:
  "blv_view (set_blv_value symb v s) = blv_view s"
  by (simp add: set_blv_value_def)

lemma blv_view_unload_binding [simp]:
  "blv_view (unload_binding symb s) = blv_view s"
  by (simp add: unload_binding_def split: option.splits)

lemma blv_view_message [simp]:
  "blv_view (message m s) = blv_view s"
  by (simp add: blv_view_def message_def)

text \<open>A write through the \<open>blv\<close> pointer.\<close>

lemma blv_ok_SET_SYMBOL_REDIRECT [simp]:
  "blv_ok (SET_SYMBOL_REDIRECT symb r s) x blv = blv_ok s x blv"
  by (simp add: blv_ok_def SET_SYMBOL_REDIRECT_def)

lemma heap_ok_SET_SYMBOL_REDIRECT [simp]:
  "heap_ok (SET_SYMBOL_REDIRECT symb r s) = heap_ok s"
  by (simp add: heap_ok_def SET_SYMBOL_REDIRECT_def)

lemma blv_invariant_SET_SYMBOL_REDIRECT:
  assumes "blv_invariant s"
    and "\<And>blv. r = SYMBOL_LOCALIZED blv \<Longrightarrow> blv_ok s symb blv"
  shows "blv_invariant (SET_SYMBOL_REDIRECT symb r s)"
  unfolding blv_invariant_def
proof (intro conjI allI impI)
  show "heap_ok (SET_SYMBOL_REDIRECT symb r s)"
    using assms(1) by (simp add: blv_invariant_def)
next
  fix x blv
  assume a: "redirect (symtab (SET_SYMBOL_REDIRECT symb r s) x) = SYMBOL_LOCALIZED blv"
  show "blv_ok (SET_SYMBOL_REDIRECT symb r s) x blv"
  proof (cases "x = symb")
    case True
    with a have "r = SYMBOL_LOCALIZED blv" by (simp add: SET_SYMBOL_REDIRECT_def)
    then show ?thesis using assms(2) True by simp
  next
    case False
    with a have "redirect (symtab s x) = SYMBOL_LOCALIZED blv"
      by (simp add: SET_SYMBOL_REDIRECT_def)
    then show ?thesis using assms(1) by (simp add: blv_invariant_def)
  qed
qed

lemma blv_invariant_upd_blv:
  assumes "blv_invariant s"
    and "blv_ok s symb (f (SYMBOL_BLV s symb))"
  shows "blv_invariant (upd_blv symb f s)"
  unfolding upd_blv_def
  using assms by (intro blv_invariant_SET_SYMBOL_REDIRECT) auto

lemma SYMBOL_BLV_localized:
  "SYMBOL_REDIRECT s symb = SYMBOL_LOCALIZED blv \<Longrightarrow> SYMBOL_BLV s symb = blv"
  by (simp add: SYMBOL_BLV_def SYMBOL_REDIRECT_def)

lemma blv_invariantD:
  "blv_invariant s \<Longrightarrow> SYMBOL_REDIRECT s symb = SYMBOL_LOCALIZED blv \<Longrightarrow> blv_ok s symb blv"
  by (simp add: blv_invariant_def SYMBOL_REDIRECT_def)

lemma SYMBOL_REDIRECT_upd_blv [simp]:
  "SYMBOL_REDIRECT (upd_blv symb f s) symb = SYMBOL_LOCALIZED (f (SYMBOL_BLV s symb))"
  by (simp add: upd_blv_def SET_SYMBOL_REDIRECT_def SYMBOL_REDIRECT_def)

lemma SYMBOL_BLV_upd_blv [simp]:
  "SYMBOL_BLV (upd_blv symb f s) symb = f (SYMBOL_BLV s symb)"
  by (simp add: upd_blv_def SET_SYMBOL_REDIRECT_def SYMBOL_BLV_def)

lemma SYMBOL_REDIRECT_view:
  assumes "blv_view s' = blv_view s"
  shows "SYMBOL_REDIRECT s' symb = SYMBOL_REDIRECT s symb"
  by (simp add: SYMBOL_REDIRECT_def blv_view_eqD(1) [OF assms])

lemma SYMBOL_BLV_view:
  assumes "blv_view s' = blv_view s"
  shows "SYMBOL_BLV s' symb = SYMBOL_BLV s symb"
  by (simp add: SYMBOL_BLV_def blv_view_eqD(1) [OF assms])


text \<open>The part of the invariant that speaks of the \<open>defcell\<close> alone; loading a
  binding (the cell found in the alist of the context, or the \<open>defcell\<close>) makes the
  rest true.\<close>

definition defcell_ok :: "lisp_state \<Rightarrow> Lisp_Buffer_Local_Value \<Rightarrow> bool" where
  "defcell_ok s blv =
     (defcell blv < next_cell s
      \<and> (\<forall>b. defcell blv \<notin> set (local_var_alist (buffers s b)))
      \<and> (\<forall>f. defcell blv \<notin> set (param_alist (frames s f))))"

lemma blv_ok_defcell_ok: "blv_ok s symb blv \<Longrightarrow> defcell_ok s blv"
  by (simp add: blv_ok_def defcell_ok_def)

lemma context_alist_cases:
  assumes "c \<in> set (context_alist s fl w)"
  shows "(\<exists>b. c \<in> set (local_var_alist (buffers s b)))
         \<or> (\<exists>f. c \<in> set (param_alist (frames s f)))"
  using assms by (cases "(s, fl, w)" rule: context_alist.cases) auto

lemma blv_ok_loaded_found:
  assumes "defcell_ok s blv"
    and "assq_no_quit s (Symbol symb) (context_alist s (frame_local blv) w) = Some c"
  shows "blv_ok s symb (blv\<lparr>blv_where := w, found := True, valcell := c\<rparr>)"
proof -
  from assq_no_quit_Some [OF assms(2)]
  have c: "c \<in> set (context_alist s (frame_local blv) w)" "fst (cells s c) = Symbol symb"
    by simp_all
  from context_alist_cases [OF c(1)] assms(1) have ne: "defcell blv \<noteq> c"
    by (auto simp: defcell_ok_def)
  have "\<exists>c' \<in> set (local_var_alist (buffers s b)). fst (cells s c') = Symbol symb"
    if "\<not> frame_local blv" "w = BufferObj b" for b
    using c that by auto
  then show ?thesis
    using assms(1) ne by (simp add: blv_ok_def defcell_ok_def)
qed

lemma blv_ok_loaded_default:
  assumes "defcell_ok s blv"
  shows "blv_ok s symb (blv\<lparr>blv_where := w, found := False, valcell := defcell blv\<rparr>)"
  using assms by (simp add: blv_ok_def defcell_ok_def)

text \<open>The invariant for every symbol but one, whose \<open>blv\<close> is about to be
  reloaded.\<close>

definition blv_invariant_but :: "sym_t \<Rightarrow> lisp_state \<Rightarrow> bool" where
  "blv_invariant_but symb s =
     (heap_ok s
      \<and> (\<forall>x blv. x \<noteq> symb \<longrightarrow> redirect (symtab s x) = SYMBOL_LOCALIZED blv \<longrightarrow> blv_ok s x blv)
      \<and> (\<forall>blv. redirect (symtab s symb) = SYMBOL_LOCALIZED blv \<longrightarrow> defcell_ok s blv))"

lemma blv_invariant_butI: "blv_invariant s \<Longrightarrow> blv_invariant_but symb s"
  unfolding blv_invariant_def blv_invariant_but_def
  by (blast intro: blv_ok_defcell_ok)

lemma blv_invariant_but_view:
  assumes "blv_view s' = blv_view s"
  shows "blv_invariant_but symb s' = blv_invariant_but symb s"
  by (simp add: blv_invariant_but_def heap_ok_def defcell_ok_def blv_ok_view [OF assms]
      blv_view_eqD [OF assms])

lemma blv_invariant_but_upd_blv:
  assumes "blv_invariant_but symb s"
    and "blv_ok s symb (f (SYMBOL_BLV s symb))"
  shows "blv_invariant (upd_blv symb f s)"
  unfolding blv_invariant_def
proof (intro conjI allI impI)
  show "heap_ok (upd_blv symb f s)"
    using assms(1) by (simp add: blv_invariant_but_def upd_blv_def)
next
  fix x blv
  assume a: "redirect (symtab (upd_blv symb f s) x) = SYMBOL_LOCALIZED blv"
  show "blv_ok (upd_blv symb f s) x blv"
  proof (cases "x = symb")
    case True
    with a have "blv = f (SYMBOL_BLV s symb)"
      by (simp add: upd_blv_def SET_SYMBOL_REDIRECT_def)
    then show ?thesis using assms(2) True by (simp add: upd_blv_def)
  next
    case False
    with a have "redirect (symtab s x) = SYMBOL_LOCALIZED blv"
      by (simp add: upd_blv_def SET_SYMBOL_REDIRECT_def)
    then show ?thesis using assms(1) False by (simp add: blv_invariant_but_def upd_blv_def)
  qed
qed

lemma upd_blv_upd_blv:
  "upd_blv symb g (upd_blv symb f s) = upd_blv symb (\<lambda>blv. g (f blv)) s"
  by (simp add: upd_blv_def SET_SYMBOL_REDIRECT_def SYMBOL_BLV_def)

lemma blv_view_upd_blv_other:
  "fst (cells (upd_blv symb f s) c) = fst (cells s c)"
  "next_cell (upd_blv symb f s) = next_cell s"
  "buffers (upd_blv symb f s) = buffers s"
  "frames (upd_blv symb f s) = frames s"
  "cells (upd_blv symb f s) = cells s"
  "current_buffer (upd_blv symb f s) = current_buffer s"
  "selected_frame (upd_blv symb f s) = selected_frame s"
  "specpdl (upd_blv symb f s) = specpdl s"
  by (simp_all add: upd_blv_def SET_SYMBOL_REDIRECT_def)

text \<open>Reloading the binding of a symbol, as \<open>swap_in_symval_forwarding\<close> does.\<close>

definition reload :: "sym_t \<Rightarrow> lisp_state \<Rightarrow> lisp_state" where
  "reload symb s =
     (let blv = SYMBOL_BLV s symb;
          w = (if frame_local blv then FrameObj (selected_frame s) else Fcurrent_buffer s);
          tem = assq_no_quit s (Symbol symb) (context_alist s (frame_local blv) w)
      in upd_blv symb (\<lambda>blv. blv\<lparr>blv_where := w, found := (tem \<noteq> None),
                                   valcell := (case tem of None \<Rightarrow> defcell blv | Some c \<Rightarrow> c)\<rparr>) s)"

lemma blv_invariant_reload:
  assumes "blv_invariant_but symb s"
    and "SYMBOL_REDIRECT s symb = SYMBOL_LOCALIZED blv"
  shows "blv_invariant (reload symb s)"
proof -
  have d: "defcell_ok s blv"
    using assms by (simp add: blv_invariant_but_def SYMBOL_REDIRECT_def)
  have b: "SYMBOL_BLV s symb = blv" using assms(2) by (rule SYMBOL_BLV_localized)
  let ?w = "if frame_local blv then FrameObj (selected_frame s) else Fcurrent_buffer s"
  show ?thesis
  proof (cases "assq_no_quit s (Symbol symb) (context_alist s (frame_local blv) ?w)")
    case None
    then show ?thesis
      unfolding reload_def Let_def b
      using blv_ok_loaded_default [OF d, of symb ?w]
      by (intro blv_invariant_but_upd_blv [OF assms(1)]) (simp add: b)
  next
    case (Some c)
    then show ?thesis
      unfolding reload_def Let_def b
      using blv_ok_loaded_found [OF d Some]
      by (intro blv_invariant_but_upd_blv [OF assms(1)]) (simp add: b)
  qed
qed

lemma unload_binding_frame:
  "SYMBOL_BLV (unload_binding symb s) symb = SYMBOL_BLV s symb"
  "selected_frame (unload_binding symb s) = selected_frame s"
  "current_buffer (unload_binding symb s) = current_buffer s"
proof -
  have v: "blv_view (unload_binding symb s) = blv_view s" by simp
  show "SYMBOL_BLV (unload_binding symb s) symb = SYMBOL_BLV s symb"
    by (rule SYMBOL_BLV_view [OF v])
  show "selected_frame (unload_binding symb s) = selected_frame s"
    by (simp add: unload_binding_def set_blv_value_def XSETCDR_cell_def split: option.splits)
  show "current_buffer (unload_binding symb s) = current_buffer s"
    by (simp add: unload_binding_def set_blv_value_def XSETCDR_cell_def split: option.splits)
qed

lemma reload_eq:
  "reload symb s1 =
     upd_blv symb
       (\<lambda>blv. blv\<lparr>valcell :=
                  (case assq_no_quit s1 (Symbol symb) (context_alist s1 (frame_local (SYMBOL_BLV s1 symb))
                          (if frame_local (SYMBOL_BLV s1 symb) then FrameObj (selected_frame s1)
                           else Fcurrent_buffer s1)) of
                     None \<Rightarrow> defcell blv | Some c \<Rightarrow> c)\<rparr>)
       (upd_blv symb
          (\<lambda>blv. blv\<lparr>blv_where := (if frame_local (SYMBOL_BLV s1 symb) then FrameObj (selected_frame s1)
                                      else Fcurrent_buffer s1),
                       found := (assq_no_quit s1 (Symbol symb) (context_alist s1 (frame_local (SYMBOL_BLV s1 symb))
                          (if frame_local (SYMBOL_BLV s1 symb) then FrameObj (selected_frame s1)
                           else Fcurrent_buffer s1)) \<noteq> None)\<rparr>) s1)"
  unfolding reload_def Let_def upd_blv_upd_blv
  by (rule arg_cong [where f = "\<lambda>f. upd_blv symb f s1"]) (rule ext, simp split: option.split)

lemma swap_in_symval_forwarding_eq:
  "swap_in_symval_forwarding symb s =
     (if NILP (blv_where (SYMBOL_BLV s symb))
         \<or> (if frame_local (SYMBOL_BLV s symb)
             then FrameObj (selected_frame s) \<noteq> blv_where (SYMBOL_BLV s symb)
             else BufferObj (current_buffer s) \<noteq> blv_where (SYMBOL_BLV s symb))
      then (case fwd (SYMBOL_BLV (reload symb (unload_binding symb s)) symb) of
                 None \<Rightarrow> (Ret (), reload symb (unload_binding symb s))
               | Some f \<Rightarrow> store_symval_forwarding f
                    (blv_value (reload symb (unload_binding symb s))
                       (SYMBOL_BLV (reload symb (unload_binding symb s)) symb)) None
                    (reload symb (unload_binding symb s)))
      else (Ret (), s))"
  unfolding swap_in_symval_forwarding_def Let_def reload_eq unload_binding_frame
  by (rule refl)

lemma swap_in_symval_forwarding_reloaded:
  assumes "blv_invariant_but symb s"
    and "SYMBOL_REDIRECT s symb = SYMBOL_LOCALIZED blv"
  shows "blv_invariant (snd (case fwd (SYMBOL_BLV (reload symb (unload_binding symb s)) symb) of
                 None \<Rightarrow> (Ret (), reload symb (unload_binding symb s))
               | Some f \<Rightarrow> store_symval_forwarding f
                    (blv_value (reload symb (unload_binding symb s))
                       (SYMBOL_BLV (reload symb (unload_binding symb s)) symb)) None
                    (reload symb (unload_binding symb s))))"
proof -
  let ?s1 = "unload_binding symb s"
  have "blv_invariant_but symb ?s1"
    using assms(1) by (simp only: blv_invariant_but_view [OF blv_view_unload_binding])
  moreover have "SYMBOL_REDIRECT ?s1 symb = SYMBOL_LOCALIZED blv"
    using assms(2) by (simp only: SYMBOL_REDIRECT_view [OF blv_view_unload_binding])
  ultimately have r: "blv_invariant (reload symb ?s1)" by (rule blv_invariant_reload)
  show ?thesis
  proof (cases "fwd (SYMBOL_BLV (reload symb ?s1) symb)")
    case None
    then show ?thesis using r by simp
  next
    case (Some f)
    have "blv_invariant (snd (store_symval_forwarding f
                    (blv_value (reload symb ?s1) (SYMBOL_BLV (reload symb ?s1) symb)) None
                    (reload symb ?s1)))"
      using r by (simp only: blv_invariant_view [OF blv_view_store_symval_forwarding])
    then show ?thesis using Some by simp
  qed
qed

lemma swap_in_symval_forwarding_invariant_but:
  assumes "blv_invariant_but symb s"
    and "SYMBOL_REDIRECT s symb = SYMBOL_LOCALIZED blv"
    and "NILP (blv_where blv)"
  shows "blv_invariant (snd (swap_in_symval_forwarding symb s))"
proof -
  have b: "SYMBOL_BLV s symb = blv" using assms(2) by (rule SYMBOL_BLV_localized)
  show ?thesis
    unfolding swap_in_symval_forwarding_eq b
    using assms(3) swap_in_symval_forwarding_reloaded [OF assms(1,2)] by simp
qed

lemma swap_in_symval_forwarding_invariant:
  assumes "blv_invariant s"
    and "SYMBOL_REDIRECT s symb = SYMBOL_LOCALIZED blv"
  shows "blv_invariant (snd (swap_in_symval_forwarding symb s))"
proof -
  have b: "SYMBOL_BLV s symb = blv" using assms(2) by (rule SYMBOL_BLV_localized)
  note r = swap_in_symval_forwarding_reloaded [OF blv_invariant_butI [OF assms(1)] assms(2)]
  show ?thesis
    unfolding swap_in_symval_forwarding_eq b
    using assms(1) r by (simp split: if_split)
qed


text \<open>Sequencing and the invariant.\<close>

lemma seq_preserves:
  assumes "P (snd m)"
    and "\<And>x s'. m = (Ret x, s') \<Longrightarrow> P s' \<Longrightarrow> P (snd (f x s'))"
  shows "P (snd (seq m f))"
proof (cases m)
  case (Pair r s')
  show ?thesis
  proof (cases r)
    case (Ret x)
    with Pair assms show ?thesis by (simp add: seq_def)
  qed (use Pair assms(1) in \<open>simp_all add: seq_def\<close>)
qed

lemma CHECK_SYMBOL_state: "CHECK_SYMBOL x s = (r, s') \<Longrightarrow> s' = s"
  by (auto simp: CHECK_SYMBOL_def split: if_splits)

lemma start_state: "start symb s = (r, s') \<Longrightarrow> s' = s"
  by (auto simp: start_def split: if_splits)

lemma redirect_SET_SYMBOL_REDIRECT:
  "redirect (symtab (SET_SYMBOL_REDIRECT symb r s) x) = (if x = symb then r else redirect (symtab s x))"
  by (simp add: SET_SYMBOL_REDIRECT_def)

lemma defcell_ok_SET_SYMBOL_REDIRECT [simp]:
  "defcell_ok (SET_SYMBOL_REDIRECT symb r s) blv = defcell_ok s blv"
  by (simp add: defcell_ok_def SET_SYMBOL_REDIRECT_def)

lemma blv_invariant_but_SET_SYMBOL_REDIRECT:
  assumes "blv_invariant_but symb s"
    and "\<And>blv. r = SYMBOL_LOCALIZED blv \<Longrightarrow> defcell_ok s blv"
  shows "blv_invariant_but symb (SET_SYMBOL_REDIRECT symb r s)"
  using assms unfolding blv_invariant_but_def
  by (simp add: redirect_SET_SYMBOL_REDIRECT)

lemma blv_invariant_but_upd_blv_defcell:
  assumes "blv_invariant_but symb s"
    and "SYMBOL_REDIRECT s symb = SYMBOL_LOCALIZED blv"
    and "defcell (f blv) = defcell blv"
  shows "blv_invariant_but symb (upd_blv symb f s)"
proof -
  have b: "SYMBOL_BLV s symb = blv" using assms(2) by (rule SYMBOL_BLV_localized)
  have d: "defcell_ok s blv"
    using assms(1,2) by (simp add: blv_invariant_but_def SYMBOL_REDIRECT_def)
  have "defcell_ok s (f blv)" using d assms(3) by (simp add: defcell_ok_def)
  then show ?thesis
    unfolding upd_blv_def b
    by (intro blv_invariant_but_SET_SYMBOL_REDIRECT [OF assms(1)]) simp
qed

text \<open>A fresh cell consed onto the \<open>local_var_alist\<close> of a buffer.\<close>

definition push_local_cell :: "nat \<Rightarrow> Lisp_Object \<Rightarrow> Lisp_Object \<Rightarrow> lisp_state \<Rightarrow> lisp_state" where
  "push_local_cell b a d s =
     bset_local_var_alist b (next_cell s # local_var_alist (buffers s b)) (snd (Fcons_cell a d s))"

lemma push_local_cell_frame:
  "symtab (push_local_cell b a d s) = symtab s"
  "next_cell (push_local_cell b a d s) = Suc (next_cell s)"
  "frames (push_local_cell b a d s) = frames s"
  "local_var_alist (buffers (push_local_cell b a d s) b') =
     (if b' = b then next_cell s # local_var_alist (buffers s b) else local_var_alist (buffers s b'))"
  "c < next_cell s \<Longrightarrow> cells (push_local_cell b a d s) c = cells s c"
  "cells (push_local_cell b a d s) (next_cell s) = (a, d)"
  by (simp_all add: push_local_cell_def bset_local_var_alist_def Fcons_cell_def)

lemma heap_ok_push_local_cell:
  "heap_ok s \<Longrightarrow> heap_ok (push_local_cell b a d s)"
  by (auto simp: heap_ok_def push_local_cell_frame less_Suc_eq)

lemma defcell_ok_push_local_cell:
  "defcell_ok s blv \<Longrightarrow> defcell_ok (push_local_cell b a d s) blv"
  by (auto simp: defcell_ok_def push_local_cell_frame less_Suc_eq)

lemma blv_ok_push_local_cell:
  assumes "heap_ok s" and "blv_ok s x blv"
  shows "blv_ok (push_local_cell b a d s) x blv"
proof -
  have "\<exists>c \<in> set (local_var_alist (buffers (push_local_cell b a d s) b')).
          fst (cells (push_local_cell b a d s) c) = Symbol x"
    if "\<exists>c \<in> set (local_var_alist (buffers s b')). fst (cells s c) = Symbol x" for b'
  proof -
    from that obtain c where c: "c \<in> set (local_var_alist (buffers s b'))" "fst (cells s c) = Symbol x"
      by blast
    from c(1) assms(1) have "c < next_cell s" by (auto simp: heap_ok_def)
    with c show ?thesis by (auto simp: push_local_cell_frame intro!: bexI [of _ c])
  qed
  moreover have "defcell_ok (push_local_cell b a d s) blv"
    using assms(2) by (intro defcell_ok_push_local_cell blv_ok_defcell_ok)
  ultimately show ?thesis
    using assms(2) unfolding blv_ok_def defcell_ok_def by blast
qed

lemma blv_invariant_but_push_local_cell:
  assumes "blv_invariant_but symb s"
  shows "blv_invariant_but symb (push_local_cell b a d s)"
  using assms unfolding blv_invariant_but_def push_local_cell_frame
  by (blast intro: heap_ok_push_local_cell defcell_ok_push_local_cell blv_ok_push_local_cell)

lemma blv_invariant_push_local_cell:
  assumes "blv_invariant s"
  shows "blv_invariant (push_local_cell b a d s)"
  using assms unfolding blv_invariant_def push_local_cell_frame
  by (blast intro: heap_ok_push_local_cell blv_ok_push_local_cell)

lemma blv_ok_pushed:
  assumes "defcell_ok s blv"
    and "\<forall>b'. w = BufferObj b' \<longrightarrow> b' = b"
  shows "blv_ok (push_local_cell b (Symbol symb) d s) symb
           (blv\<lparr>blv_where := w, found := True, valcell := next_cell s\<rparr>)"
proof -
  have "defcell blv \<noteq> next_cell s" using assms(1) by (auto simp: defcell_ok_def)
  moreover have "defcell_ok (push_local_cell b (Symbol symb) d s) blv"
    using assms(1) by (rule defcell_ok_push_local_cell)
  moreover have "\<exists>c \<in> set (local_var_alist (buffers (push_local_cell b (Symbol symb) d s) b)).
          fst (cells (push_local_cell b (Symbol symb) d s) c) = Symbol symb"
    by (auto simp: push_local_cell_frame)
  ultimately show ?thesis
    using assms(2) unfolding blv_ok_def defcell_ok_def by auto
qed


lemma Fcons_cell_frame:
  "fst (Fcons_cell a d s) = next_cell s"
  "buffers (snd (Fcons_cell a d s)) = buffers s"
  "current_buffer (snd (Fcons_cell a d s)) = current_buffer s"
  by (simp_all add: Fcons_cell_def)

lemma set_internal_load_eq:
  "set_internal_load symb w bindflag s =
     (case assq_no_quit (unload_binding symb s) (Symbol symb)
             (context_alist (unload_binding symb s) (frame_local (SYMBOL_BLV s symb)) w) of
        Some c \<Rightarrow> upd_blv symb (\<lambda>blv. blv\<lparr>valcell := c\<rparr>)
                    (upd_blv symb (\<lambda>blv. blv\<lparr>blv_where := w, found := True\<rparr>) (unload_binding symb s))
      | None \<Rightarrow>
          if bindflag \<or> \<not> local_if_set (SYMBOL_BLV s symb)
             \<or> let_shadows_buffer_binding_p
                  (upd_blv symb (\<lambda>blv. blv\<lparr>blv_where := w, found := True\<rparr>) (unload_binding symb s)) symb
                  (specpdl (upd_blv symb (\<lambda>blv. blv\<lparr>blv_where := w, found := True\<rparr>) (unload_binding symb s)))
          then upd_blv symb (\<lambda>blv. blv\<lparr>found := False, valcell := defcell blv\<rparr>)
                 (upd_blv symb (\<lambda>blv. blv\<lparr>blv_where := w, found := True\<rparr>) (unload_binding symb s))
          else upd_blv symb
                 (\<lambda>blv. blv\<lparr>valcell :=
                    next_cell (upd_blv symb (\<lambda>blv. blv\<lparr>blv_where := w, found := True\<rparr>) (unload_binding symb s))\<rparr>)
                 (push_local_cell
                    (case w of BufferObj b \<Rightarrow> b
                     | _ \<Rightarrow> current_buffer (upd_blv symb (\<lambda>blv. blv\<lparr>blv_where := w, found := True\<rparr>) (unload_binding symb s)))
                    (Symbol symb)
                    (snd (cells (upd_blv symb (\<lambda>blv. blv\<lparr>blv_where := w, found := True\<rparr>) (unload_binding symb s))
                           (defcell (SYMBOL_BLV s symb))))
                    (upd_blv symb (\<lambda>blv. blv\<lparr>blv_where := w, found := True\<rparr>) (unload_binding symb s))))"
  unfolding set_internal_load_def Let_def unload_binding_frame push_local_cell_def
  by (simp only: split_beta Fcons_cell_frame)


lemma set_internal_load_invariant:
  assumes "blv_invariant_but symb s"
    and "SYMBOL_REDIRECT s symb = SYMBOL_LOCALIZED blv"
  shows "blv_invariant (set_internal_load symb w bindflag s)"
proof -
  define s1 where "s1 = unload_binding symb s"
  define s2 where "s2 = upd_blv symb (\<lambda>blv. blv\<lparr>blv_where := w, found := True\<rparr>) s1"
  have b: "SYMBOL_BLV s symb = blv" using assms(2) by (rule SYMBOL_BLV_localized)
  have i1: "blv_invariant_but symb s1"
    unfolding s1_def using assms(1) by (simp only: blv_invariant_but_view [OF blv_view_unload_binding])
  have r1: "SYMBOL_REDIRECT s1 symb = SYMBOL_LOCALIZED blv"
    unfolding s1_def using assms(2) by (simp only: SYMBOL_REDIRECT_view [OF blv_view_unload_binding])
  have b1: "SYMBOL_BLV s1 symb = blv" using r1 by (rule SYMBOL_BLV_localized)
  have d1: "defcell_ok s1 blv"
    using i1 r1 by (simp add: blv_invariant_but_def SYMBOL_REDIRECT_def)
  have i2: "blv_invariant_but symb s2"
    unfolding s2_def by (rule blv_invariant_but_upd_blv_defcell [OF i1 r1]) simp
  have b2: "SYMBOL_BLV s2 symb = blv\<lparr>blv_where := w, found := True\<rparr>"
    unfolding s2_def by (simp add: b1)
  have n2: "next_cell s2 = next_cell s1" unfolding s2_def by (simp add: blv_view_upd_blv_other)
  have d2: "defcell_ok s2 blv"
    using d1 unfolding s2_def upd_blv_def by simp
  show ?thesis
  proof (cases "assq_no_quit s1 (Symbol symb) (context_alist s1 (frame_local blv) w)")
    case (Some c)
    have "blv_invariant (upd_blv symb (\<lambda>blv. blv\<lparr>valcell := c\<rparr>) s2)"
      unfolding s2_def upd_blv_upd_blv
      using blv_ok_loaded_found [OF d1 Some]
      by (intro blv_invariant_but_upd_blv [OF i1]) (simp add: b1)
    then show ?thesis
      unfolding set_internal_load_eq s1_def [symmetric] b s2_def [symmetric] using Some by simp
  next
    case None
    have A: "blv_invariant (upd_blv symb (\<lambda>blv. blv\<lparr>found := False, valcell := defcell blv\<rparr>) s2)"
      unfolding s2_def upd_blv_upd_blv
      using blv_ok_loaded_default [OF d1, of symb w]
      by (intro blv_invariant_but_upd_blv [OF i1]) (simp add: b1)
    have B: "blv_invariant (upd_blv symb (\<lambda>blv. blv\<lparr>valcell := next_cell s2\<rparr>)
                (push_local_cell bb (Symbol symb) d s2))"
      if "\<forall>b'. w = BufferObj b' \<longrightarrow> b' = bb" for bb d
    proof (rule blv_invariant_but_upd_blv)
      show "blv_invariant_but symb (push_local_cell bb (Symbol symb) d s2)"
        using i2 by (rule blv_invariant_but_push_local_cell)
      have "SYMBOL_BLV (push_local_cell bb (Symbol symb) d s2) symb = SYMBOL_BLV s2 symb"
        by (simp add: SYMBOL_BLV_def push_local_cell_frame)
      then show "blv_ok (push_local_cell bb (Symbol symb) d s2) symb
              (SYMBOL_BLV (push_local_cell bb (Symbol symb) d s2) symb\<lparr>valcell := next_cell s2\<rparr>)"
        using blv_ok_pushed [OF d2 that, of symb d] by (simp add: b2)
    qed
    have C: "\<forall>b'. w = BufferObj b' \<longrightarrow> b' = (case w of BufferObj b \<Rightarrow> b | _ \<Rightarrow> current_buffer s2)"
      by simp
    show ?thesis
      unfolding set_internal_load_eq s1_def [symmetric] b s2_def [symmetric]
      using None A B [OF C] by simp
  qed
qed


lemma with_symbol_preserves:
  assumes "P s" and "\<And>symb. P (snd (body symb s))"
  shows "P (snd (seq (CHECK_SYMBOL symbol s) (\<lambda>u s. seq (start (XSYMBOL symbol) s) body)))"
proof (rule seq_preserves [where P = P])
  show "P (snd (CHECK_SYMBOL symbol s))" using assms(1) by (simp add: CHECK_SYMBOL_def)
next
  fix x s' assume "CHECK_SYMBOL symbol s = (Ret x, s')"
  then have s': "s' = s" by (rule CHECK_SYMBOL_state)
  show "P (snd (seq (start (XSYMBOL symbol) s') body))"
  proof (rule seq_preserves [where P = P])
    show "P (snd (start (XSYMBOL symbol) s'))"
      using assms(1) s' by (simp add: start_def)
  next
    fix y s'' assume "start (XSYMBOL symbol) s' = (Ret y, s'')"
    then have "s'' = s" using s' by (simp add: start_state)
    then show "P (snd (body y s''))" using assms(2) by simp
  qed
qed

lemma find_symbol_value_localized:
  assumes "SYMBOL_REDIRECT s symb = SYMBOL_LOCALIZED blv"
  shows "find_symbol_value (Symbol symb) s =
           seq (swap_in_symval_forwarding symb s) (\<lambda>u s.
             (Ret (case fwd (SYMBOL_BLV s symb) of
                     Some f \<Rightarrow> do_symval_forwarding s f
                   | None \<Rightarrow> blv_value s (SYMBOL_BLV s symb)), s))"
  using assms by (simp add: find_symbol_value_def CHECK_SYMBOL_def start_def seq_def)

lemma find_symbol_value_invariant:
  assumes "blv_invariant s"
  shows "blv_invariant (snd (find_symbol_value symbol s))"
  unfolding find_symbol_value_def
proof (rule with_symbol_preserves [where P = blv_invariant, OF assms])
  fix symb
  show "blv_invariant (snd (case SYMBOL_REDIRECT s symb of
         SYMBOL_VARALIAS t \<Rightarrow> (Diverges, s)
       | SYMBOL_PLAINVAL v \<Rightarrow> (Ret v, s)
       | SYMBOL_LOCALIZED b \<Rightarrow>
           seq (swap_in_symval_forwarding symb s) (\<lambda>u s.
             (Ret (case fwd (SYMBOL_BLV s symb) of
                     Some f \<Rightarrow> do_symval_forwarding s f
                   | None \<Rightarrow> blv_value s (SYMBOL_BLV s symb)), s))
       | SYMBOL_FORWARDED f \<Rightarrow> (Ret (do_symval_forwarding s f), s)))"
  proof (cases "SYMBOL_REDIRECT s symb")
    case (SYMBOL_LOCALIZED b)
    have "blv_invariant (snd (seq (swap_in_symval_forwarding symb s) (\<lambda>u s.
             (Ret (case fwd (SYMBOL_BLV s symb) of
                     Some f \<Rightarrow> do_symval_forwarding s f
                   | None \<Rightarrow> blv_value s (SYMBOL_BLV s symb)), s))))"
      by (rule seq_preserves [where P = blv_invariant]) (simp_all add: swap_in_symval_forwarding_invariant [OF assms SYMBOL_LOCALIZED])
    then show ?thesis using SYMBOL_LOCALIZED by simp
  qed (use assms in simp_all)
qed

lemma Fsymbol_value_invariant:
  assumes "blv_invariant s"
  shows "blv_invariant (snd (Fsymbol_value symbol s))"
  unfolding Fsymbol_value_def
  by (rule seq_preserves [where P = blv_invariant]) (simp_all add: find_symbol_value_invariant [OF assms])

lemma Fboundp_invariant:
  assumes "blv_invariant s"
  shows "blv_invariant (snd (Fboundp symbol s))"
  unfolding Fboundp_def
proof (rule with_symbol_preserves [where P = blv_invariant, OF assms])
  fix symb
  show "blv_invariant (snd (case SYMBOL_REDIRECT s symb of
         SYMBOL_VARALIAS t \<Rightarrow> (Diverges, s)
       | SYMBOL_PLAINVAL v \<Rightarrow> (Ret (if v = Qunbound then Qnil else Qt), s)
       | SYMBOL_LOCALIZED b \<Rightarrow>
           (if fwd b \<noteq> None then (Ret Qt, s)
            else seq (swap_in_symval_forwarding symb s) (\<lambda>u s.
                   (Ret (if blv_value s (SYMBOL_BLV s symb) = Qunbound then Qnil else Qt), s)))
       | SYMBOL_FORWARDED f \<Rightarrow> (Ret Qt, s)))"
  proof (cases "SYMBOL_REDIRECT s symb")
    case (SYMBOL_LOCALIZED b)
    have "blv_invariant (snd (seq (swap_in_symval_forwarding symb s) (\<lambda>u s.
                   (Ret (if blv_value s (SYMBOL_BLV s symb) = Qunbound then Qnil else Qt), s))))"
      by (rule seq_preserves [where P = blv_invariant]) (simp_all add: swap_in_symval_forwarding_invariant [OF assms SYMBOL_LOCALIZED])
    then show ?thesis using SYMBOL_LOCALIZED assms by simp
  qed (use assms in simp_all)
qed


lemma start_snd [simp]: "snd (start symb s) = s"
  by (simp add: start_def)

lemma CHECK_SYMBOL_snd [simp]: "snd (CHECK_SYMBOL x s) = s"
  by (simp add: CHECK_SYMBOL_def)

lemma blv_ok_fwd [simp]: "blv_ok s symb (blv\<lparr>fwd := x\<rparr>) = blv_ok s symb blv"
  by (simp add: blv_ok_def)

lemma blv_ok_local_if_set [simp]: "blv_ok s symb (blv\<lparr>local_if_set := x\<rparr>) = blv_ok s symb blv"
  by (simp add: blv_ok_def)

lemma blv_view_SET_PER_BUFFER_VALUE_P:
  "blv_view (snd (SET_PER_BUFFER_VALUE_P b idx v s)) = blv_view s"
  by (auto simp: SET_PER_BUFFER_VALUE_P_def blv_view_def intro!: ext)

lemma blv_invariant_SET_SYMBOL_VAL:
  "blv_invariant s \<Longrightarrow> blv_invariant (SET_SYMBOL_VAL symb v s)"
  unfolding SET_SYMBOL_VAL_def by (rule blv_invariant_SET_SYMBOL_REDIRECT) simp_all

lemma set_internal_load_localized:
  "SYMBOL_REDIRECT (set_internal_load symb w bindflag s) symb =
     SYMBOL_LOCALIZED (SYMBOL_BLV (set_internal_load symb w bindflag s) symb)"
proof -
  have u: "SYMBOL_REDIRECT (upd_blv symb f t) symb = SYMBOL_LOCALIZED (SYMBOL_BLV (upd_blv symb f t) symb)"
    for f t by simp
  show ?thesis
    unfolding set_internal_load_eq
    by (simp only: u split: option.split if_split) simp
qed

lemma blv_invariant_set_blv_value:
  "blv_invariant (set_blv_value symb v s) = blv_invariant s"
  by (rule blv_invariant_view [OF blv_view_set_blv_value])

lemma SYMBOL_REDIRECT_set_blv_value [simp]:
  "SYMBOL_REDIRECT (set_blv_value symb v s) x = SYMBOL_REDIRECT s x"
  by (rule SYMBOL_REDIRECT_view [OF blv_view_set_blv_value])

lemma SYMBOL_BLV_set_blv_value [simp]:
  "SYMBOL_BLV (set_blv_value symb v s) x = SYMBOL_BLV s x"
  by (rule SYMBOL_BLV_view [OF blv_view_set_blv_value])

text \<open>The body of the \<open>SYMBOL_LOCALIZED\<close> case of \<open>set_internal\<close>.\<close>

lemma set_internal_localized_invariant:
  assumes "blv_invariant s1"
    and "SYMBOL_REDIRECT s1 symb = SYMBOL_LOCALIZED blv1"
  shows "blv_invariant (snd (case fwd (SYMBOL_BLV (set_blv_value symb newval s1) symb) of
                 None \<Rightarrow> (Ret (), set_blv_value symb newval s1)
               | Some f \<Rightarrow>
                   (if voide then (Ret (), upd_blv symb (\<lambda>blv. blv\<lparr>fwd := None\<rparr>) (set_blv_value symb newval s1))
                    else store_symval_forwarding f newval buf (set_blv_value symb newval s1))))"
proof -
  let ?s2 = "set_blv_value symb newval s1"
  have i2: "blv_invariant ?s2" using assms(1) by (simp only: blv_invariant_set_blv_value)
  have r2: "SYMBOL_REDIRECT ?s2 symb = SYMBOL_LOCALIZED blv1" using assms(2) by simp
  have b2: "SYMBOL_BLV ?s2 symb = blv1" using r2 by (rule SYMBOL_BLV_localized)
  have "blv_ok ?s2 symb (SYMBOL_BLV ?s2 symb)"
    unfolding b2 by (rule blv_invariantD [OF i2 r2])
  then have A: "blv_invariant (upd_blv symb (\<lambda>blv. blv\<lparr>fwd := None\<rparr>) ?s2)"
    by (intro blv_invariant_upd_blv [OF i2]) (simp only: blv_ok_fwd)
  have B: "blv_invariant (snd (store_symval_forwarding f newval buf ?s2))" for f
    using i2 by (simp only: blv_invariant_view [OF blv_view_store_symval_forwarding])
  show ?thesis
    using i2 A B by (simp split: option.split)
qed


lemma set_internal_dispatch_invariant:
  assumes inv: "blv_invariant s"
  shows "blv_invariant (snd (case SYMBOL_REDIRECT s symb of
         SYMBOL_VARALIAS t \<Rightarrow> (Diverges, s)
       | SYMBOL_PLAINVAL v \<Rightarrow> (Ret (), SET_SYMBOL_VAL symb newval s)
       | SYMBOL_LOCALIZED b \<Rightarrow>
           (case fwd (SYMBOL_BLV (set_blv_value symb newval
                 (if blv_where b \<noteq> (if NILP wh
                     then (if frame_local b then FrameObj (selected_frame s)
                           else BufferObj (current_buffer s))
                     else wh) \<or> valcell b = defcell b
                      then set_internal_load symb (if NILP wh
                     then (if frame_local b then FrameObj (selected_frame s)
                           else BufferObj (current_buffer s))
                     else wh) bindflag s else s)) symb) of
                 None \<Rightarrow> (Ret (), set_blv_value symb newval
                 (if blv_where b \<noteq> (if NILP wh
                     then (if frame_local b then FrameObj (selected_frame s)
                           else BufferObj (current_buffer s))
                     else wh) \<or> valcell b = defcell b
                      then set_internal_load symb (if NILP wh
                     then (if frame_local b then FrameObj (selected_frame s)
                           else BufferObj (current_buffer s))
                     else wh) bindflag s else s))
               | Some f \<Rightarrow>
                   (if newval = Qunbound then (Ret (), upd_blv symb (\<lambda>blv. blv\<lparr>fwd := None\<rparr>) (set_blv_value symb newval
                 (if blv_where b \<noteq> (if NILP wh
                     then (if frame_local b then FrameObj (selected_frame s)
                           else BufferObj (current_buffer s))
                     else wh) \<or> valcell b = defcell b
                      then set_internal_load symb (if NILP wh
                     then (if frame_local b then FrameObj (selected_frame s)
                           else BufferObj (current_buffer s))
                     else wh) bindflag s else s)))
                    else store_symval_forwarding f newval
                           (case (if NILP wh
                     then (if frame_local b then FrameObj (selected_frame s)
                           else BufferObj (current_buffer s))
                     else wh) of BufferObj b \<Rightarrow> Some b | _ \<Rightarrow> None) (set_blv_value symb newval
                 (if blv_where b \<noteq> (if NILP wh
                     then (if frame_local b then FrameObj (selected_frame s)
                           else BufferObj (current_buffer s))
                     else wh) \<or> valcell b = defcell b
                      then set_internal_load symb (if NILP wh
                     then (if frame_local b then FrameObj (selected_frame s)
                           else BufferObj (current_buffer s))
                     else wh) bindflag s else s))))
       | SYMBOL_FORWARDED innercontents \<Rightarrow>
            seq (case innercontents of
                   Fwd_Buffer_Obj offset predicate \<Rightarrow>
                      if PER_BUFFER_IDX s offset > 0 \<and> \<not> bindflag
                         \<and> \<not> let_shadows_buffer_binding_p s symb (specpdl s)
                      then SET_PER_BUFFER_VALUE_P (case wh of BufferObj b \<Rightarrow> b | _ \<Rightarrow> current_buffer s)
                             (PER_BUFFER_IDX s offset) True s
                      else (Ret (), s)
                 | _ \<Rightarrow> (Ret (), s)) (\<lambda>u s'.
              if newval = Qunbound then (Ret (), SET_SYMBOL_VAL symb newval s')
              else store_symval_forwarding innercontents newval
                     (Some (case wh of BufferObj b \<Rightarrow> b | _ \<Rightarrow> current_buffer s)) s')))"
proof (cases "SYMBOL_REDIRECT s symb")
  case (SYMBOL_PLAINVAL v)
  then show ?thesis using inv by (simp add: blv_invariant_SET_SYMBOL_VAL)
next
  case (SYMBOL_VARALIAS t)
  then show ?thesis using inv by simp
next
  case (SYMBOL_LOCALIZED b)
  define w where "w = (if NILP wh
                     then (if frame_local b then FrameObj (selected_frame s)
                           else BufferObj (current_buffer s))
                     else wh)"
  define s1 where "s1 = (if blv_where b \<noteq> w \<or> valcell b = defcell b
                      then set_internal_load symb w bindflag s else s)"
  have i1: "blv_invariant s1"
    unfolding s1_def
    using inv set_internal_load_invariant [OF blv_invariant_butI [OF inv] SYMBOL_LOCALIZED]
    by simp
  have "\<exists>blv1. SYMBOL_REDIRECT s1 symb = SYMBOL_LOCALIZED blv1"
    unfolding s1_def using SYMBOL_LOCALIZED set_internal_load_localized by simp
  then obtain blv1 where r1: "SYMBOL_REDIRECT s1 symb = SYMBOL_LOCALIZED blv1" ..
  show ?thesis
    using SYMBOL_LOCALIZED
    by (simp only: symbol_redirect.case w_def [symmetric] s1_def [symmetric]
        set_internal_localized_invariant [OF i1 r1])
next
  case (SYMBOL_FORWARDED innercontents)
  have A: "blv_invariant (snd (case innercontents of
                   Fwd_Buffer_Obj offset predicate \<Rightarrow>
                      if PER_BUFFER_IDX s offset > 0 \<and> \<not> bindflag
                         \<and> \<not> let_shadows_buffer_binding_p s symb (specpdl s)
                      then SET_PER_BUFFER_VALUE_P (case wh of BufferObj b \<Rightarrow> b | _ \<Rightarrow> current_buffer s)
                             (PER_BUFFER_IDX s offset) True s
                      else (Ret (), s)
                 | _ \<Rightarrow> (Ret (), s)))"
    using inv
    by (cases innercontents)
      (simp_all add: blv_invariant_view [OF blv_view_SET_PER_BUFFER_VALUE_P])
  have "blv_invariant (snd (seq (case innercontents of
                   Fwd_Buffer_Obj offset predicate \<Rightarrow>
                      if PER_BUFFER_IDX s offset > 0 \<and> \<not> bindflag
                         \<and> \<not> let_shadows_buffer_binding_p s symb (specpdl s)
                      then SET_PER_BUFFER_VALUE_P (case wh of BufferObj b \<Rightarrow> b | _ \<Rightarrow> current_buffer s)
                             (PER_BUFFER_IDX s offset) True s
                      else (Ret (), s)
                 | _ \<Rightarrow> (Ret (), s)) (\<lambda>u s'.
              if newval = Qunbound then (Ret (), SET_SYMBOL_VAL symb newval s')
              else store_symval_forwarding innercontents newval
                     (Some (case wh of BufferObj b \<Rightarrow> b | _ \<Rightarrow> current_buffer s)) s')))"
  proof (rule seq_preserves [where P = blv_invariant, OF A])
    fix x s' assume "blv_invariant s'"
    then show "blv_invariant (snd (if newval = Qunbound then (Ret (), SET_SYMBOL_VAL symb newval s')
              else store_symval_forwarding innercontents newval
                     (Some (case wh of BufferObj b \<Rightarrow> b | _ \<Rightarrow> current_buffer s)) s'))"
      by (simp add: blv_invariant_SET_SYMBOL_VAL blv_invariant_view [OF blv_view_store_symval_forwarding])
  qed
  then show ?thesis using SYMBOL_FORWARDED by (simp only: symbol_redirect.case)
qed


lemma set_internal_invariant:
  assumes inv: "blv_invariant s"
  shows "blv_invariant (snd (set_internal symbol newval wh bindflag s))"
  unfolding set_internal_def Let_def
proof (rule seq_preserves [where P = blv_invariant], goal_cases)
  case 1
  show ?case using inv by simp
next
  case (2 u s1)
  show ?case
  proof (rule seq_preserves [where P = blv_invariant], goal_cases)
    case 1
    have "blv_invariant (snd (seq (Fsymbol_value symbol s1) (\<lambda>v s.
                    if newval \<noteq> v then (Sig Qsetting_constant (list1 symbol), s)
                    else (Ret True, s))))"
      by (rule seq_preserves [where P = blv_invariant])
        (simp_all add: Fsymbol_value_invariant [OF 2(2)])
    then show ?case using 2(2) by simp
  next
    case (2 d s2)
    show ?case
    proof (cases d)
      case True
      then show ?thesis using 2(2) by simp
    next
      case False
      have "blv_invariant (snd (seq (start (XSYMBOL symbol) s2) (\<lambda>symb s.
              case SYMBOL_REDIRECT s symb of
         SYMBOL_VARALIAS t \<Rightarrow> (Diverges, s)
       | SYMBOL_PLAINVAL v \<Rightarrow> (Ret (), SET_SYMBOL_VAL symb newval s)
       | SYMBOL_LOCALIZED b \<Rightarrow>
           (case fwd (SYMBOL_BLV (set_blv_value symb newval
                 (if blv_where b \<noteq> (if NILP wh
                     then (if frame_local b then FrameObj (selected_frame s)
                           else BufferObj (current_buffer s))
                     else wh) \<or> valcell b = defcell b
                      then set_internal_load symb (if NILP wh
                     then (if frame_local b then FrameObj (selected_frame s)
                           else BufferObj (current_buffer s))
                     else wh) bindflag s else s)) symb) of
                 None \<Rightarrow> (Ret (), set_blv_value symb newval
                 (if blv_where b \<noteq> (if NILP wh
                     then (if frame_local b then FrameObj (selected_frame s)
                           else BufferObj (current_buffer s))
                     else wh) \<or> valcell b = defcell b
                      then set_internal_load symb (if NILP wh
                     then (if frame_local b then FrameObj (selected_frame s)
                           else BufferObj (current_buffer s))
                     else wh) bindflag s else s))
               | Some f \<Rightarrow>
                   (if newval = Qunbound then (Ret (), upd_blv symb (\<lambda>blv. blv\<lparr>fwd := None\<rparr>) (set_blv_value symb newval
                 (if blv_where b \<noteq> (if NILP wh
                     then (if frame_local b then FrameObj (selected_frame s)
                           else BufferObj (current_buffer s))
                     else wh) \<or> valcell b = defcell b
                      then set_internal_load symb (if NILP wh
                     then (if frame_local b then FrameObj (selected_frame s)
                           else BufferObj (current_buffer s))
                     else wh) bindflag s else s)))
                    else store_symval_forwarding f newval
                           (case (if NILP wh
                     then (if frame_local b then FrameObj (selected_frame s)
                           else BufferObj (current_buffer s))
                     else wh) of BufferObj b \<Rightarrow> Some b | _ \<Rightarrow> None) (set_blv_value symb newval
                 (if blv_where b \<noteq> (if NILP wh
                     then (if frame_local b then FrameObj (selected_frame s)
                           else BufferObj (current_buffer s))
                     else wh) \<or> valcell b = defcell b
                      then set_internal_load symb (if NILP wh
                     then (if frame_local b then FrameObj (selected_frame s)
                           else BufferObj (current_buffer s))
                     else wh) bindflag s else s))))
       | SYMBOL_FORWARDED innercontents \<Rightarrow>
            seq (case innercontents of
                   Fwd_Buffer_Obj offset predicate \<Rightarrow>
                      if PER_BUFFER_IDX s offset > 0 \<and> \<not> bindflag
                         \<and> \<not> let_shadows_buffer_binding_p s symb (specpdl s)
                      then SET_PER_BUFFER_VALUE_P (case wh of BufferObj b \<Rightarrow> b | _ \<Rightarrow> current_buffer s)
                             (PER_BUFFER_IDX s offset) True s
                      else (Ret (), s)
                 | _ \<Rightarrow> (Ret (), s)) (\<lambda>u s'.
              if newval = Qunbound then (Ret (), SET_SYMBOL_VAL symb newval s')
              else store_symval_forwarding innercontents newval
                     (Some (case wh of BufferObj b \<Rightarrow> b | _ \<Rightarrow> current_buffer s)) s'))))"
      proof (rule seq_preserves [where P = blv_invariant], goal_cases)
        case 1
        show ?case using 2(2) by simp
      next
        case (2 symb s3)
        show ?case by (rule set_internal_dispatch_invariant [OF 2(2)])
      qed
      then show ?thesis using False by simp
    qed
  qed
qed

lemma Fset_invariant:
  assumes "blv_invariant s"
  shows "blv_invariant (snd (Fset symbol newval s))"
  unfolding Fset_def
  by (rule seq_preserves [where P = blv_invariant])
    (simp_all add: set_internal_invariant [OF assms])


lemma default_value_snd [simp]: "snd (default_value symbol s) = s"
proof -
  have "snd (seq (CHECK_SYMBOL symbol s) (\<lambda>u s. seq (start (XSYMBOL symbol) s) (\<lambda>symb s.
       case SYMBOL_REDIRECT s symb of
         SYMBOL_VARALIAS t \<Rightarrow> (Diverges, s)
       | SYMBOL_PLAINVAL v \<Rightarrow> (Ret v, s)
       | SYMBOL_LOCALIZED blv \<Rightarrow>
           (case fwd blv of
              Some f \<Rightarrow> if valcell blv = defcell blv then (Ret (do_symval_forwarding s f), s)
                        else (Ret (snd (cells s (defcell blv))), s)
            | None \<Rightarrow> (Ret (snd (cells s (defcell blv))), s))
       | SYMBOL_FORWARDED valcontents \<Rightarrow>
           (case valcontents of
              Fwd_Buffer_Obj offset predicate \<Rightarrow>
                if PER_BUFFER_IDX s offset \<noteq> 0 then (Ret (per_buffer_default s offset), s)
                else (Ret (do_symval_forwarding s valcontents), s)
            | _ \<Rightarrow> (Ret (do_symval_forwarding s valcontents), s))))) = s"
    by (rule with_symbol_preserves [where P = "\<lambda>t. t = s"])
      (simp_all split: symbol_redirect.split option.split Lisp_Fwd.split)
  then show ?thesis by (simp only: default_value_def)
qed

lemma Fdefault_value_snd [simp]: "snd (Fdefault_value symbol s) = s"
  unfolding Fdefault_value_def
  by (rule seq_preserves [where P = "\<lambda>t. t = s"]) simp_all

lemma blv_view_set_per_buffer_default [simp]:
  "blv_view (set_per_buffer_default offset v s) = blv_view s"
  by (simp add: set_per_buffer_default_def blv_view_def)

lemma Fset_default_dispatch_invariant:
  assumes inv: "blv_invariant s"
  shows "blv_invariant (snd (case SYMBOL_REDIRECT s symb of
         SYMBOL_VARALIAS t \<Rightarrow> (Diverges, s)
       | SYMBOL_PLAINVAL old \<Rightarrow> Fset symbol v s
       | SYMBOL_LOCALIZED blv \<Rightarrow>
           (case fwd blv of
              Some f \<Rightarrow>
                if defcell blv = valcell blv
                then seq (store_symval_forwarding f v None (XSETCDR_cell (defcell blv) v s)) (\<lambda>u s. (Ret v, s))
                else (Ret v, XSETCDR_cell (defcell blv) v s)
            | None \<Rightarrow> (Ret v, XSETCDR_cell (defcell blv) v s))
       | SYMBOL_FORWARDED valcontents \<Rightarrow>
           (case valcontents of
              Fwd_Buffer_Obj offset predicate \<Rightarrow>
                 if PER_BUFFER_IDX s offset > 0
                    then seq (store_in_buffers (PER_BUFFER_IDX s offset) offset v
                                (all_buffers (set_per_buffer_default offset v s))
                                (set_per_buffer_default offset v s)) (\<lambda>u s. (Ret v, s))
                    else (Ret v, set_per_buffer_default offset v s)
            | _ \<Rightarrow> Fset symbol v s)))"
proof (cases "SYMBOL_REDIRECT s symb")
  case (SYMBOL_PLAINVAL old)
  then show ?thesis by (simp add: Fset_invariant [OF inv])
next
  case (SYMBOL_VARALIAS t)
  then show ?thesis using inv by simp
next
  case (SYMBOL_LOCALIZED blv)
  have x: "blv_invariant (XSETCDR_cell c v s)" for c
    using inv by (simp only: blv_invariant_view [OF blv_view_XSETCDR_cell])
  have "blv_invariant (snd (seq (store_symval_forwarding f v None (XSETCDR_cell c v s))
                                 (\<lambda>u s. (Ret v, s))))" for f c
    by (rule seq_preserves [where P = blv_invariant])
      (simp_all add: blv_invariant_view [OF blv_view_store_symval_forwarding] x)
  then show ?thesis using SYMBOL_LOCALIZED x by (simp split: option.split)
next
  case (SYMBOL_FORWARDED valcontents)
  have d: "blv_invariant (set_per_buffer_default offset v s)" for offset
    using inv by (simp only: blv_invariant_view [OF blv_view_set_per_buffer_default])
  have "blv_invariant (snd (seq (store_in_buffers idx offset v bs (set_per_buffer_default offset v s))
                                 (\<lambda>u s. (Ret v, s))))" for idx offset bs
    by (rule seq_preserves [where P = blv_invariant])
      (simp_all add: blv_invariant_view [OF blv_view_store_in_buffers] d)
  then show ?thesis
    using SYMBOL_FORWARDED d by (simp add: Fset_invariant [OF inv] split: Lisp_Fwd.split)
qed

lemma Fset_default_invariant:
  assumes inv: "blv_invariant s"
  shows "blv_invariant (snd (Fset_default symbol v s))"
  unfolding Fset_default_def Let_def
proof (rule seq_preserves [where P = blv_invariant], goal_cases)
  case 1
  show ?case using inv by simp
next
  case (2 u s1)
  show ?case
  proof (rule seq_preserves [where P = blv_invariant], goal_cases)
    case 1
    have "blv_invariant (snd (seq (Fdefault_value symbol s1) (\<lambda>d s.
                    if v \<noteq> d then (Sig Qsetting_constant (list1 symbol), s)
                    else (Ret True, s))))"
      by (rule seq_preserves [where P = blv_invariant]) (simp_all add: 2(2))
    then show ?case using 2(2) by simp
  next
    case (2 d s2)
    show ?case
    proof (cases d)
      case True
      then show ?thesis using 2(2) by simp
    next
      case False
      have "blv_invariant (snd (seq (start (XSYMBOL symbol) s2) (\<lambda>symb s.
          case SYMBOL_REDIRECT s symb of
         SYMBOL_VARALIAS t \<Rightarrow> (Diverges, s)
       | SYMBOL_PLAINVAL old \<Rightarrow> Fset symbol v s
       | SYMBOL_LOCALIZED blv \<Rightarrow>
           (case fwd blv of
              Some f \<Rightarrow>
                if defcell blv = valcell blv
                then seq (store_symval_forwarding f v None (XSETCDR_cell (defcell blv) v s)) (\<lambda>u s. (Ret v, s))
                else (Ret v, XSETCDR_cell (defcell blv) v s)
            | None \<Rightarrow> (Ret v, XSETCDR_cell (defcell blv) v s))
       | SYMBOL_FORWARDED valcontents \<Rightarrow>
           (case valcontents of
              Fwd_Buffer_Obj offset predicate \<Rightarrow>
                 if PER_BUFFER_IDX s offset > 0
                    then seq (store_in_buffers (PER_BUFFER_IDX s offset) offset v
                                (all_buffers (set_per_buffer_default offset v s))
                                (set_per_buffer_default offset v s)) (\<lambda>u s. (Ret v, s))
                    else (Ret v, set_per_buffer_default offset v s)
            | _ \<Rightarrow> Fset symbol v s))))"
      proof (rule seq_preserves [where P = blv_invariant], goal_cases)
        case 1
        show ?case using 2(2) by simp
      next
        case (2 symb s3)
        show ?case by (rule Fset_default_dispatch_invariant [OF 2(2)])
      qed
      then show ?thesis using False by simp
    qed
  qed
qed


text \<open>A new \<open>blv\<close>: its \<open>defcell\<close> is a fresh cell, in no alist.\<close>

lemma Fcons_cell_view:
  "symtab (snd (Fcons_cell a d s)) = symtab s"
  "next_cell (snd (Fcons_cell a d s)) = Suc (next_cell s)"
  "frames (snd (Fcons_cell a d s)) = frames s"
  "c < next_cell s \<Longrightarrow> cells (snd (Fcons_cell a d s)) c = cells s c"
  by (simp_all add: Fcons_cell_def)

lemma heap_ok_Fcons_cell: "heap_ok s \<Longrightarrow> heap_ok (snd (Fcons_cell a d s))"
  by (auto simp: heap_ok_def Fcons_cell_view Fcons_cell_frame less_Suc_eq)

lemma blv_ok_Fcons_cell:
  assumes "heap_ok s" and "blv_ok s x blv"
  shows "blv_ok (snd (Fcons_cell a d s)) x blv"
proof -
  have "\<exists>c \<in> set (local_var_alist (buffers s b')). fst (cells (snd (Fcons_cell a d s)) c) = Symbol x"
    if "\<exists>c \<in> set (local_var_alist (buffers s b')). fst (cells s c) = Symbol x" for b'
  proof -
    from that obtain c where c: "c \<in> set (local_var_alist (buffers s b'))" "fst (cells s c) = Symbol x"
      by blast
    from c(1) assms(1) have "c < next_cell s" by (auto simp: heap_ok_def)
    with c show ?thesis by (auto simp: Fcons_cell_view intro!: bexI [of _ c])
  qed
  then show ?thesis
    using assms(2) unfolding blv_ok_def Fcons_cell_view Fcons_cell_frame
    by (auto simp: less_Suc_eq)
qed

lemma blv_invariant_Fcons_cell:
  assumes "blv_invariant s"
  shows "blv_invariant (snd (Fcons_cell a d s))"
  using assms unfolding blv_invariant_def Fcons_cell_view
  by (blast intro: heap_ok_Fcons_cell blv_ok_Fcons_cell)

lemma make_blv_fst:
  "fst (make_blv symb forwarded v s) =
     \<lparr>local_if_set = False, frame_local = False, found = False, fwd = forwarded,
      blv_where = Qnil, defcell = next_cell s, valcell = next_cell s\<rparr>"
  by (simp add: make_blv_def Fcons_cell_def)

lemma make_blv_snd:
  "snd (make_blv symb forwarded v s) =
     snd (Fcons_cell (Symbol symb)
            (case forwarded of Some f \<Rightarrow> do_symval_forwarding s f | None \<Rightarrow> v) s)"
  by (simp add: make_blv_def split_beta)

lemma blv_ok_make_blv:
  assumes "heap_ok s"
  shows "blv_ok (snd (make_blv symb forwarded v s)) symb (fst (make_blv symb forwarded v s))"
  using assms unfolding make_blv_fst make_blv_snd blv_ok_def heap_ok_def
  by (auto simp: Fcons_cell_view Fcons_cell_frame)

lemma blv_ok_frame_local:
  "\<not> found blv \<Longrightarrow> blv_ok s symb (blv\<lparr>frame_local := x\<rparr>) = blv_ok s symb blv"
  by (simp add: blv_ok_def)

lemma install_blv_eq:
  "install_blv symb blv msg s = SET_SYMBOL_REDIRECT symb (SYMBOL_LOCALIZED blv) s
   \<or> install_blv symb blv msg s = message msg (SET_SYMBOL_REDIRECT symb (SYMBOL_LOCALIZED blv) s)"
  by (simp add: install_blv_def Let_def)

lemma SYMBOL_REDIRECT_install_blv [simp]:
  "SYMBOL_REDIRECT (install_blv symb blv msg s) symb = SYMBOL_LOCALIZED blv"
  by (simp add: install_blv_def Let_def SYMBOL_REDIRECT_def SET_SYMBOL_REDIRECT_def message_def)

lemma blv_invariant_install_blv:
  assumes "blv_invariant s" and "blv_ok s symb blv"
  shows "blv_invariant (install_blv symb blv msg s)"
proof -
  have A: "blv_invariant (SET_SYMBOL_REDIRECT symb (SYMBOL_LOCALIZED blv) s)"
    by (rule blv_invariant_SET_SYMBOL_REDIRECT [OF assms(1)]) (use assms(2) in simp)
  then have "blv_invariant (message msg (SET_SYMBOL_REDIRECT symb (SYMBOL_LOCALIZED blv) s))"
    by (simp only: blv_invariant_view [OF blv_view_message])
  with A show ?thesis using install_blv_eq [of symb blv msg s] by auto
qed

lemma make_install_invariant:
  assumes "blv_invariant s"
  shows "blv_invariant (install_blv symb (fst (make_blv symb forwarded v s)) msg
                          (snd (make_blv symb forwarded v s)))"
    and "blv_invariant (install_blv symb (fst (make_blv symb forwarded v s)\<lparr>frame_local := True\<rparr>) msg
                          (snd (make_blv symb forwarded v s)))"
proof -
  have h: "heap_ok s" using assms by (simp add: blv_invariant_def)
  have i: "blv_invariant (snd (make_blv symb forwarded v s))"
    unfolding make_blv_snd using assms by (rule blv_invariant_Fcons_cell)
  note ok = blv_ok_make_blv [OF h, of symb forwarded v]
  show "blv_invariant (install_blv symb (fst (make_blv symb forwarded v s)) msg
                          (snd (make_blv symb forwarded v s)))"
    by (rule blv_invariant_install_blv [OF i ok])
  have "\<not> found (fst (make_blv symb forwarded v s))" by (simp add: make_blv_fst)
  then have "blv_ok (snd (make_blv symb forwarded v s)) symb
               (fst (make_blv symb forwarded v s)\<lparr>frame_local := True\<rparr>)"
    using ok blv_ok_frame_local [of "fst (make_blv symb forwarded v s)"] by blast
  then show "blv_invariant (install_blv symb (fst (make_blv symb forwarded v s)\<lparr>frame_local := True\<rparr>) msg
                          (snd (make_blv symb forwarded v s)))"
    by (rule blv_invariant_install_blv [OF i])
qed

lemma blv_invariant_finish:
  assumes "blv_invariant s" and "SYMBOL_REDIRECT s symb = SYMBOL_LOCALIZED blv"
  shows "blv_invariant (upd_blv symb (\<lambda>blv. blv\<lparr>local_if_set := True\<rparr>) s)"
proof -
  have b: "SYMBOL_BLV s symb = blv" using assms(2) by (rule SYMBOL_BLV_localized)
  have "blv_ok s symb (SYMBOL_BLV s symb)" unfolding b by (rule blv_invariantD [OF assms])
  then show ?thesis
    by (intro blv_invariant_upd_blv [OF assms(1)]) (simp only: blv_ok_local_if_set)
qed

lemma error_snd [simp]: "snd (error m s) = s"
  by (simp add: error_def)

lemma Fmake_variable_buffer_local_invariant:
  assumes inv: "blv_invariant s"
  shows "blv_invariant (snd (Fmake_variable_buffer_local variable s))"
  unfolding Fmake_variable_buffer_local_def
proof (rule with_symbol_preserves [where P = blv_invariant, OF inv])
  fix symb
  have create: "blv_invariant (snd (
              if sym_constant (symtab s symb)
              then error ''Symbol %s may not be buffer-local'' s
              else (let (blv, s1) = make_blv symb forwarded v s
                    in (Ret variable, upd_blv symb (\<lambda>blv. blv\<lparr>local_if_set := True\<rparr>)
                       (install_blv symb blv ''Making %s buffer-local while let-bound!'' s1)))))"
    for forwarded v
    using inv
      blv_invariant_finish [OF make_install_invariant(1) [OF inv] SYMBOL_REDIRECT_install_blv,
        of symb forwarded v "''Making %s buffer-local while let-bound!''"]
    by (simp add: split_beta)
  show "blv_invariant (snd (
       let finish = (\<lambda>s. (Ret variable, upd_blv symb (\<lambda>blv. blv\<lparr>local_if_set := True\<rparr>) s));
           create = (\<lambda>forwarded v s.
              if sym_constant (symtab s symb)
              then error ''Symbol %s may not be buffer-local'' s
              else (let (blv, s1) = make_blv symb forwarded v s
                    in finish (install_blv symb blv ''Making %s buffer-local while let-bound!'' s1)))
       in case SYMBOL_REDIRECT s symb of
         SYMBOL_VARALIAS t \<Rightarrow> (Diverges, s)
       | SYMBOL_PLAINVAL v \<Rightarrow> create None (if v = Qunbound then Qnil else v) s
       | SYMBOL_LOCALIZED blv \<Rightarrow>
           if frame_local blv then error ''Symbol %s may not be buffer-local'' s
           else if sym_constant (symtab s symb)
           then error ''Symbol %s may not be buffer-local'' s
           else finish s
       | SYMBOL_FORWARDED f \<Rightarrow>
           if KBOARD_OBJFWDP f then error ''Symbol %s may not be buffer-local'' s
           else if BUFFER_OBJFWDP f then (Ret variable, s)
           else create (Some f) Qnil s))"
  proof (cases "SYMBOL_REDIRECT s symb")
    case (SYMBOL_PLAINVAL v)
    then show ?thesis using create [of None] by (simp add: Let_def)
  next
    case (SYMBOL_VARALIAS t)
    then show ?thesis using inv by simp
  next
    case (SYMBOL_LOCALIZED blv)
    then show ?thesis using inv blv_invariant_finish [OF inv SYMBOL_LOCALIZED] by (simp add: Let_def)
  next
    case (SYMBOL_FORWARDED f)
    then show ?thesis using inv create [of "Some f" Qnil] by (simp add: Let_def)
  qed
qed

lemma Fmake_variable_frame_local_invariant:
  assumes inv: "blv_invariant s"
  shows "blv_invariant (snd (Fmake_variable_frame_local variable s))"
  unfolding Fmake_variable_frame_local_def
proof (rule with_symbol_preserves [where P = blv_invariant, OF inv])
  fix symb
  have create: "blv_invariant (snd (
              if sym_constant (symtab s symb)
              then error ''Symbol %s may not be frame-local'' s
              else (let (blv, s1) = make_blv symb forwarded v s
                    in (Ret variable,
                        install_blv symb (blv\<lparr>frame_local := True\<rparr>)
                          ''Making %s frame-local while let-bound!'' s1))))"
    for forwarded v
    using inv make_install_invariant(2) [OF inv, of symb forwarded v]
    by (simp add: split_beta)
  show "blv_invariant (snd (
       let create = (\<lambda>forwarded v s.
              if sym_constant (symtab s symb)
              then error ''Symbol %s may not be frame-local'' s
              else (let (blv, s1) = make_blv symb forwarded v s
                    in (Ret variable,
                        install_blv symb (blv\<lparr>frame_local := True\<rparr>)
                          ''Making %s frame-local while let-bound!'' s1)))
       in case SYMBOL_REDIRECT s symb of
         SYMBOL_VARALIAS t \<Rightarrow> (Diverges, s)
       | SYMBOL_PLAINVAL v \<Rightarrow> create None (if v = Qunbound then Qnil else v) s
       | SYMBOL_LOCALIZED blv \<Rightarrow>
           if frame_local blv then (Ret variable, s)
           else error ''Symbol %s may not be frame-local'' s
       | SYMBOL_FORWARDED f \<Rightarrow>
           if KBOARD_OBJFWDP f \<or> BUFFER_OBJFWDP f
           then error ''Symbol %s may not be frame-local'' s
           else create (Some f) Qnil s))"
  proof (cases "SYMBOL_REDIRECT s symb")
    case (SYMBOL_PLAINVAL v)
    then show ?thesis using create [of None] by (simp add: Let_def)
  next
    case (SYMBOL_VARALIAS t)
    then show ?thesis using inv by simp
  next
    case (SYMBOL_LOCALIZED blv)
    then show ?thesis using inv by (simp add: Let_def)
  next
    case (SYMBOL_FORWARDED f)
    then show ?thesis using inv create [of "Some f" Qnil] by (simp add: Let_def)
  qed
qed


text \<open>\<open>Fdelq\<close> of the alist element of a symbol in one buffer.\<close>

lemma bset_local_var_alist_frame:
  "symtab (bset_local_var_alist b al s) = symtab s"
  "cells (bset_local_var_alist b al s) = cells s"
  "next_cell (bset_local_var_alist b al s) = next_cell s"
  "frames (bset_local_var_alist b al s) = frames s"
  "current_buffer (bset_local_var_alist b al s) = current_buffer s"
  "local_var_alist (buffers (bset_local_var_alist b al s) b') =
     (if b' = b then al else local_var_alist (buffers s b'))"
  by (simp_all add: bset_local_var_alist_def)

lemma heap_ok_removeAll:
  "heap_ok s \<Longrightarrow> heap_ok (bset_local_var_alist b (removeAll tem (local_var_alist (buffers s b))) s)"
  by (auto simp: heap_ok_def bset_local_var_alist_frame)

lemma defcell_ok_removeAll:
  "defcell_ok s blv \<Longrightarrow>
   defcell_ok (bset_local_var_alist b (removeAll tem (local_var_alist (buffers s b))) s) blv"
  by (auto simp: defcell_ok_def bset_local_var_alist_frame)

lemma blv_ok_removeAll:
  assumes "blv_ok s x blv"
    and "fst (cells s tem) \<noteq> Symbol x \<or> blv_where blv \<noteq> BufferObj b"
  shows "blv_ok (bset_local_var_alist b (removeAll tem (local_var_alist (buffers s b))) s) x blv"
proof -
  let ?s' = "bset_local_var_alist b (removeAll tem (local_var_alist (buffers s b))) s"
  have "\<exists>c \<in> set (local_var_alist (buffers ?s' b')). fst (cells ?s' c) = Symbol x"
    if "\<exists>c \<in> set (local_var_alist (buffers s b')). fst (cells s c) = Symbol x"
      and "blv_where blv = BufferObj b'" for b'
  proof -
    from that obtain c where c: "c \<in> set (local_var_alist (buffers s b'))" "fst (cells s c) = Symbol x"
      by blast
    show ?thesis
    proof (cases "b' = b")
      case True
      with assms(2) that(2) have "fst (cells s tem) \<noteq> Symbol x" by simp
      with c have "c \<noteq> tem" by auto
      with c True show ?thesis by (auto simp: bset_local_var_alist_frame intro!: bexI [of _ c])
    next
      case False
      with c show ?thesis by (auto simp: bset_local_var_alist_frame intro!: bexI [of _ c])
    qed
  qed
  moreover have "defcell_ok ?s' blv"
    using assms(1) by (intro defcell_ok_removeAll blv_ok_defcell_ok)
  ultimately show ?thesis
    using assms(1) unfolding blv_ok_def defcell_ok_def by blast
qed

lemma blv_invariant_but_removeAll:
  assumes "blv_invariant s" and "fst (cells s tem) = Symbol symb"
  shows "blv_invariant_but symb
           (bset_local_var_alist b (removeAll tem (local_var_alist (buffers s b))) s)"
  unfolding blv_invariant_but_def bset_local_var_alist_frame
proof (intro conjI allI impI)
  show "heap_ok (bset_local_var_alist b (removeAll tem (local_var_alist (buffers s b))) s)"
    using assms(1) by (intro heap_ok_removeAll) (simp add: blv_invariant_def)
next
  fix x blv assume "x \<noteq> symb" "redirect (symtab s x) = SYMBOL_LOCALIZED blv"
  then show "blv_ok (bset_local_var_alist b (removeAll tem (local_var_alist (buffers s b))) s) x blv"
    using assms by (intro blv_ok_removeAll) (auto simp: blv_invariant_def)
next
  fix blv assume "redirect (symtab s symb) = SYMBOL_LOCALIZED blv"
  then show "defcell_ok (bset_local_var_alist b (removeAll tem (local_var_alist (buffers s b))) s) blv"
    using assms(1) by (intro defcell_ok_removeAll blv_ok_defcell_ok) (auto simp: blv_invariant_def)
qed

lemma blv_invariant_removeAll:
  assumes "blv_invariant s" and "fst (cells s tem) = Symbol symb"
    and "SYMBOL_REDIRECT s symb = SYMBOL_LOCALIZED blv" and "blv_where blv \<noteq> BufferObj b"
  shows "blv_invariant (bset_local_var_alist b (removeAll tem (local_var_alist (buffers s b))) s)"
  unfolding blv_invariant_def bset_local_var_alist_frame
proof (intro conjI allI impI)
  show "heap_ok (bset_local_var_alist b (removeAll tem (local_var_alist (buffers s b))) s)"
    using assms(1) by (intro heap_ok_removeAll) (simp add: blv_invariant_def)
next
  fix x blv' assume a: "redirect (symtab s x) = SYMBOL_LOCALIZED blv'"
  show "blv_ok (bset_local_var_alist b (removeAll tem (local_var_alist (buffers s b))) s) x blv'"
  proof (cases "x = symb")
    case True
    with a assms(3) have "blv' = blv" by (simp add: SYMBOL_REDIRECT_def)
    with a assms(1,4) show ?thesis by (intro blv_ok_removeAll) (auto simp: blv_invariant_def)
  next
    case False
    with a assms(1,2) show ?thesis by (intro blv_ok_removeAll) (auto simp: blv_invariant_def)
  qed
qed

text \<open>The \<open>SYMBOL_LOCALIZED\<close> case of \<open>Fkill_local_variable\<close>, after the alist element
  has been removed.\<close>

lemma kill_reload_invariant:
  assumes but: "blv_invariant_but symb s1"
    and full: "blv_where blv \<noteq> BufferObj (current_buffer s1) \<Longrightarrow> blv_invariant s1"
    and r: "SYMBOL_REDIRECT s1 symb = SYMBOL_LOCALIZED blv"
  shows "blv_invariant (snd (
           if BufferObj (current_buffer s1) = blv_where (SYMBOL_BLV s1 symb)
           then seq (find_symbol_value (Symbol symb)
                       (upd_blv symb (\<lambda>blv. blv\<lparr>blv_where := Qnil, found := False\<rparr>) s1))
                  (\<lambda>v s. (Ret (Symbol symb), s))
           else (Ret (Symbol symb), s1)))"
proof -
  have b: "SYMBOL_BLV s1 symb = blv" using r by (rule SYMBOL_BLV_localized)
  let ?s2 = "upd_blv symb (\<lambda>blv. blv\<lparr>blv_where := Qnil, found := False\<rparr>) s1"
  have i2: "blv_invariant_but symb ?s2"
    by (rule blv_invariant_but_upd_blv_defcell [OF but r]) simp
  have r2: "SYMBOL_REDIRECT ?s2 symb = SYMBOL_LOCALIZED (blv\<lparr>blv_where := Qnil, found := False\<rparr>)"
    by (simp add: b)
  have sw: "blv_invariant (snd (swap_in_symval_forwarding symb ?s2))"
    by (rule swap_in_symval_forwarding_invariant_but [OF i2 r2]) (simp add: NILP_def)
  have "blv_invariant (snd (seq (find_symbol_value (Symbol symb) ?s2) (\<lambda>v s. (Ret (Symbol symb), s))))"
    unfolding find_symbol_value_localized [OF r2]
    by (rule seq_preserves [where P = blv_invariant], rule seq_preserves [where P = blv_invariant])
      (simp_all add: sw)
  then show ?thesis using full by (auto simp: b)
qed


lemma Fkill_local_variable_localized_invariant:
  assumes inv: "blv_invariant s"
    and r: "SYMBOL_REDIRECT s symb = SYMBOL_LOCALIZED blv"
  shows "blv_invariant (snd (
             (let variable = Symbol symb;
                  al = local_var_alist (buffers s (current_buffer s));
                  s1 = (case assq_no_quit s variable al of
                          Some tem \<Rightarrow> bset_local_var_alist (current_buffer s) (removeAll tem al) s
                        | None \<Rightarrow> s)
              in if BufferObj (current_buffer s1) = blv_where (SYMBOL_BLV s1 symb)
                 then seq (find_symbol_value variable
                             (upd_blv symb (\<lambda>blv. blv\<lparr>blv_where := Qnil, found := False\<rparr>) s1))
                        (\<lambda>v s. (Ret variable, s))
                 else (Ret variable, s1))))"
proof -
  define s1 where "s1 = (case assq_no_quit s (Symbol symb) (local_var_alist (buffers s (current_buffer s))) of
                          Some tem \<Rightarrow> bset_local_var_alist (current_buffer s)
                             (removeAll tem (local_var_alist (buffers s (current_buffer s)))) s
                        | None \<Rightarrow> s)"
  have cur: "current_buffer s1 = current_buffer s"
    unfolding s1_def by (simp add: bset_local_var_alist_frame split: option.split)
  have r1: "SYMBOL_REDIRECT s1 symb = SYMBOL_LOCALIZED blv"
    unfolding s1_def using r
    by (simp add: SYMBOL_REDIRECT_def bset_local_var_alist_frame split: option.split)
  have but: "blv_invariant_but symb s1"
  proof (cases "assq_no_quit s (Symbol symb) (local_var_alist (buffers s (current_buffer s)))")
    case None
    then show ?thesis unfolding s1_def using blv_invariant_butI [OF inv] by simp
  next
    case (Some tem)
    from assq_no_quit_Some [OF Some] have "fst (cells s tem) = Symbol symb" by simp
    from blv_invariant_but_removeAll [OF inv this] Some show ?thesis unfolding s1_def by simp
  qed
  have full: "blv_invariant s1" if "blv_where blv \<noteq> BufferObj (current_buffer s1)"
  proof (cases "assq_no_quit s (Symbol symb) (local_var_alist (buffers s (current_buffer s)))")
    case None
    then show ?thesis unfolding s1_def using inv by simp
  next
    case (Some tem)
    from assq_no_quit_Some [OF Some] have c: "fst (cells s tem) = Symbol symb" by simp
    from that cur have "blv_where blv \<noteq> BufferObj (current_buffer s)" by simp
    from blv_invariant_removeAll [OF inv c r this] Some show ?thesis unfolding s1_def by simp
  qed
  show ?thesis
    unfolding Let_def s1_def [symmetric]
    by (rule kill_reload_invariant [OF but full r1])
qed

lemma Fkill_local_variable_invariant:
  assumes inv: "blv_invariant s"
  shows "blv_invariant (snd (Fkill_local_variable variable0 s))"
  unfolding Fkill_local_variable_def
proof (rule with_symbol_preserves [where P = blv_invariant, OF inv])
  fix symb
  show "blv_invariant (snd (
       case SYMBOL_REDIRECT s symb of
         SYMBOL_VARALIAS t \<Rightarrow> (Diverges, s)
       | SYMBOL_PLAINVAL v \<Rightarrow> (Ret variable0, s)
       | SYMBOL_FORWARDED valcontents \<Rightarrow>
           (case valcontents of
              Fwd_Buffer_Obj offset predicate \<Rightarrow>
                (let idx = PER_BUFFER_IDX s offset in
                 if idx > 0 then
                   seq (SET_PER_BUFFER_VALUE_P (current_buffer s) idx False s) (\<lambda>u s.
                     (Ret variable0,
                      set_per_buffer_value (current_buffer s) offset (per_buffer_default s offset) s))
                 else (Ret variable0, s))
            | _ \<Rightarrow> (Ret variable0, s))
       | SYMBOL_LOCALIZED blv \<Rightarrow>
           if frame_local blv then (Ret variable0, s)
           else
             (let variable = Symbol symb;
                  al = local_var_alist (buffers s (current_buffer s));
                  s1 = (case assq_no_quit s variable al of
                          Some tem \<Rightarrow> bset_local_var_alist (current_buffer s) (removeAll tem al) s
                        | None \<Rightarrow> s)
              in if BufferObj (current_buffer s1) = blv_where (SYMBOL_BLV s1 symb)
                 then seq (find_symbol_value variable
                             (upd_blv symb (\<lambda>blv. blv\<lparr>blv_where := Qnil, found := False\<rparr>) s1))
                        (\<lambda>v s. (Ret variable, s))
                 else (Ret variable, s1))))"
  proof (cases "SYMBOL_REDIRECT s symb")
    case (SYMBOL_PLAINVAL v)
    then show ?thesis using inv by simp
  next
    case (SYMBOL_VARALIAS t)
    then show ?thesis using inv by simp
  next
    case (SYMBOL_LOCALIZED blv)
    show ?thesis
      using inv Fkill_local_variable_localized_invariant [OF inv SYMBOL_LOCALIZED]
      by (simp only: SYMBOL_LOCALIZED symbol_redirect.case split: if_split) simp
  next
    case (SYMBOL_FORWARDED valcontents)
    have "blv_invariant (snd (seq (SET_PER_BUFFER_VALUE_P (current_buffer s) idx False s) (\<lambda>u s.
                     (Ret variable0,
                      set_per_buffer_value (current_buffer s) offset (per_buffer_default s offset) s))))"
      for idx offset
      by (rule seq_preserves [where P = blv_invariant])
        (simp_all add: blv_invariant_view [OF blv_view_SET_PER_BUFFER_VALUE_P]
          blv_invariant_view [OF blv_view_set_per_buffer_value] inv)
    then show ?thesis
      using inv SYMBOL_FORWARDED by (simp add: Let_def split: Lisp_Fwd.split)
  qed
qed


text \<open>\<open>Fmake_local_variable\<close>: after \<open>find_symbol_value\<close> in a buffer that has no
  alist element for the symbol, the default binding is the loaded one.\<close>

lemma reload_default:
  assumes "SYMBOL_REDIRECT s1 symb = SYMBOL_LOCALIZED blv"
    and "\<not> frame_local blv"
    and "assq_no_quit s1 (Symbol symb) (local_var_alist (buffers s1 (current_buffer s1))) = None"
  shows "SYMBOL_REDIRECT (reload symb s1) symb =
           SYMBOL_LOCALIZED (blv\<lparr>blv_where := Fcurrent_buffer s1, found := False, valcell := defcell blv\<rparr>)"
proof -
  have b: "SYMBOL_BLV s1 symb = blv" using assms(1) by (rule SYMBOL_BLV_localized)
  show ?thesis
    unfolding reload_def Let_def b using assms(2,3) by (simp add: Fcurrent_buffer_def b)
qed

lemma swap_in_symval_forwarding_default:
  assumes inv: "blv_invariant s"
    and r: "SYMBOL_REDIRECT s symb = SYMBOL_LOCALIZED blv"
    and fl: "\<not> frame_local blv"
    and tem: "assq_no_quit s (Symbol symb) (local_var_alist (buffers s (current_buffer s))) = None"
  shows "\<exists>blv'. SYMBOL_REDIRECT (snd (swap_in_symval_forwarding symb s)) symb = SYMBOL_LOCALIZED blv'
                \<and> valcell blv' = defcell blv'"
proof (cases "NILP (blv_where blv) \<or> BufferObj (current_buffer s) \<noteq> blv_where blv")
  case True
  let ?s1 = "unload_binding symb s"
  note v = blv_view_unload_binding [of symb s]
  have r1: "SYMBOL_REDIRECT ?s1 symb = SYMBOL_LOCALIZED blv"
    using r by (simp only: SYMBOL_REDIRECT_view [OF v])
  have "assq_no_quit ?s1 (Symbol symb) (local_var_alist (buffers ?s1 (current_buffer ?s1))) = None"
    using tem by (simp only: assq_no_quit_view [OF v] blv_view_eqD(4) [OF v] unload_binding_frame)
  from reload_default [OF r1 fl this]
  have R: "SYMBOL_REDIRECT (reload symb ?s1) symb =
           SYMBOL_LOCALIZED (blv\<lparr>blv_where := Fcurrent_buffer ?s1, found := False, valcell := defcell blv\<rparr>)" .
  have b: "SYMBOL_BLV s symb = blv" using r by (rule SYMBOL_BLV_localized)
  have "SYMBOL_REDIRECT (snd (swap_in_symval_forwarding symb s)) symb
        = SYMBOL_REDIRECT (reload symb ?s1) symb"
    unfolding swap_in_symval_forwarding_eq b using True fl
    by (simp add: SYMBOL_REDIRECT_view [OF blv_view_store_symval_forwarding] split: option.split)
  with R show ?thesis by simp
next
  case False
  then have w: "blv_where blv = BufferObj (current_buffer s)" by auto
  have b: "SYMBOL_BLV s symb = blv" using r by (rule SYMBOL_BLV_localized)
  have same: "snd (swap_in_symval_forwarding symb s) = s"
    unfolding swap_in_symval_forwarding_eq b using False fl by simp
  from blv_invariantD [OF inv r] have ok: "blv_ok s symb blv" .
  have "\<not> found blv"
  proof
    assume "found blv"
    with ok w fl obtain c where "c \<in> set (local_var_alist (buffers s (current_buffer s)))"
      "fst (cells s c) = Symbol symb"
      unfolding blv_ok_def by blast
    with tem show False by (auto simp: assq_no_quit_None)
  qed
  with ok have "valcell blv = defcell blv" by (auto simp: blv_ok_def)
  with r same show ?thesis by simp
qed

lemma blv_ok_unfound:
  assumes "blv_ok s x blv" and "valcell blv = defcell blv"
  shows "blv_ok s x (blv\<lparr>blv_where := w, found := False\<rparr>)"
    and "blv_ok s x (blv\<lparr>found := False\<rparr>)"
  using assms by (simp_all add: blv_ok_def)

lemma localize_push_invariant:
  assumes inv: "blv_invariant t"
    and r: "SYMBOL_REDIRECT t symb = SYMBOL_LOCALIZED blv'"
    and vd: "valcell blv' = defcell blv'"
  shows "blv_invariant (upd_blv symb (\<lambda>blv. blv\<lparr>found := False\<rparr>)
           (if BufferObj (current_buffer (push_local_cell b (Symbol symb) d t))
               = blv_where (SYMBOL_BLV (push_local_cell b (Symbol symb) d t) symb)
            then upd_blv symb (\<lambda>blv. blv\<lparr>blv_where := Qnil\<rparr>) (push_local_cell b (Symbol symb) d t)
            else push_local_cell b (Symbol symb) d t))"
proof -
  let ?s3 = "push_local_cell b (Symbol symb) d t"
  have i3: "blv_invariant ?s3" using inv by (rule blv_invariant_push_local_cell)
  have r3: "SYMBOL_REDIRECT ?s3 symb = SYMBOL_LOCALIZED blv'"
    using r by (simp add: SYMBOL_REDIRECT_def push_local_cell_frame)
  have b3: "SYMBOL_BLV ?s3 symb = blv'" using r3 by (rule SYMBOL_BLV_localized)
  note ok = blv_invariantD [OF i3 r3]
  have A: "blv_invariant (upd_blv symb (\<lambda>blv. blv\<lparr>found := False\<rparr>) ?s3)"
    by (rule blv_invariant_upd_blv [OF i3]) (simp add: b3 blv_ok_unfound(2) [OF ok vd])
  have B: "blv_invariant (upd_blv symb (\<lambda>blv. blv\<lparr>found := False\<rparr>)
              (upd_blv symb (\<lambda>blv. blv\<lparr>blv_where := Qnil\<rparr>) ?s3))"
    unfolding upd_blv_upd_blv
    by (rule blv_invariant_upd_blv [OF i3]) (simp add: b3 blv_ok_unfound(1) [OF ok vd])
  show ?thesis using A B by simp
qed


lemma seq_establishes:
  assumes "P (snd m)"
    and "\<And>s'. P s' \<Longrightarrow> R s'"
    and "\<And>x s'. m = (Ret x, s') \<Longrightarrow> P s' \<Longrightarrow> R (snd (f x s'))"
  shows "R (snd (seq m f))"
proof (cases m)
  case (Pair r s')
  show ?thesis
  proof (cases r)
    case (Ret x)
    with Pair assms show ?thesis by (simp add: seq_def)
  qed (use Pair assms(1,2) in \<open>simp_all add: seq_def\<close>)
qed

lemma message_frame:
  "current_buffer (message m s) = current_buffer s"
  "specpdl (message m s) = specpdl s"
  "buffers (message m s) = buffers s"
  by (simp_all add: message_def)

text \<open>The part of \<open>Fmake_local_variable\<close> that gives the current buffer its own alist
  element.\<close>

lemma localize_invariant:
  assumes inv: "blv_invariant s"
    and r: "SYMBOL_REDIRECT s symb = SYMBOL_LOCALIZED blv"
    and fl: "\<not> frame_local blv"
  shows "blv_invariant (snd (
              let variable = Symbol symb;
                  tem = assq_no_quit s variable (local_var_alist (buffers s (current_buffer s)))
              in seq (if tem = None then
                        (let s1 = (if let_shadows_buffer_binding_p s symb (specpdl s)
                                   then message ''Making %s buffer-local while locally let-bound!'' s
                                   else s)
                         in seq (find_symbol_value variable s1) (\<lambda>v s.
                              let (c, s2) = Fcons_cell variable
                                              (snd (cells s (defcell (SYMBOL_BLV s symb)))) s;
                                  s3 = bset_local_var_alist (current_buffer s2)
                                         (c # local_var_alist (buffers s2 (current_buffer s2))) s2;
                                  s4 = (if BufferObj (current_buffer s3) = blv_where (SYMBOL_BLV s3 symb)
                                        then upd_blv symb (\<lambda>blv. blv\<lparr>blv_where := Qnil\<rparr>) s3
                                        else s3)
                              in (Ret (), upd_blv symb (\<lambda>blv. blv\<lparr>found := False\<rparr>) s4)))
                      else (Ret (), s)) (\<lambda>u s.
                 seq (if fwd (SYMBOL_BLV s symb) \<noteq> None then swap_in_symval_forwarding symb s
                      else (Ret (), s)) (\<lambda>u s. (Ret variable, s)))))"
proof -
  define Q where "Q t = (blv_invariant t \<and> (\<exists>blv'. SYMBOL_REDIRECT t symb = SYMBOL_LOCALIZED blv'))" for t
  define Q' where "Q' t = (blv_invariant t
      \<and> (\<exists>blv'. SYMBOL_REDIRECT t symb = SYMBOL_LOCALIZED blv' \<and> valcell blv' = defcell blv'))" for t
  define K where "K = (\<lambda>(v::Lisp_Object) s.
                              let (c, s2) = Fcons_cell (Symbol symb)
                                              (snd (cells s (defcell (SYMBOL_BLV s symb)))) s;
                                  s3 = bset_local_var_alist (current_buffer s2)
                                         (c # local_var_alist (buffers s2 (current_buffer s2))) s2;
                                  s4 = (if BufferObj (current_buffer s3) = blv_where (SYMBOL_BLV s3 symb)
                                        then upd_blv symb (\<lambda>blv. blv\<lparr>blv_where := Qnil\<rparr>) s3
                                        else s3)
                              in (Ret (), upd_blv symb (\<lambda>blv. blv\<lparr>found := False\<rparr>) s4))"
  have K_eq: "snd (K v t) = upd_blv symb (\<lambda>blv. blv\<lparr>found := False\<rparr>)
           (if BufferObj (current_buffer (push_local_cell (current_buffer t) (Symbol symb) (snd (cells t (defcell (SYMBOL_BLV t symb)))) t))
               = blv_where (SYMBOL_BLV (push_local_cell (current_buffer t) (Symbol symb) (snd (cells t (defcell (SYMBOL_BLV t symb)))) t) symb)
            then upd_blv symb (\<lambda>blv. blv\<lparr>blv_where := Qnil\<rparr>) (push_local_cell (current_buffer t) (Symbol symb) (snd (cells t (defcell (SYMBOL_BLV t symb)))) t)
            else push_local_cell (current_buffer t) (Symbol symb) (snd (cells t (defcell (SYMBOL_BLV t symb)))) t)" for v t
    unfolding K_def Let_def push_local_cell_def
    by (simp only: split_beta Fcons_cell_frame snd_conv)
  have QK: "Q (snd (K v t))" if "Q' t" for v t
  proof -
    from that obtain blv' where t: "blv_invariant t" "SYMBOL_REDIRECT t symb = SYMBOL_LOCALIZED blv'"
      "valcell blv' = defcell blv'" unfolding Q'_def by blast
    have "blv_invariant (snd (K v t))"
      unfolding K_eq by (rule localize_push_invariant [OF t])
    moreover have "\<exists>blv'. SYMBOL_REDIRECT (snd (K v t)) symb = SYMBOL_LOCALIZED blv'"
      unfolding K_eq by simp
    ultimately show ?thesis unfolding Q_def by simp
  qed
  have Q'Q: "Q t" if "Q' t" for t using that unfolding Q_def Q'_def by blast
  have first_None: "Q (snd (seq (find_symbol_value (Symbol symb) s1) K))"
    if s1: "s1 = s \<or> s1 = message m s"
      and tem: "assq_no_quit s (Symbol symb) (local_var_alist (buffers s (current_buffer s))) = None"
    for s1 m
  proof -
    have v: "blv_view s1 = blv_view s" using s1 by auto
    have cb: "current_buffer s1 = current_buffer s" using s1 by (auto simp: message_frame)
    have i1: "blv_invariant s1" using inv by (simp only: blv_invariant_view [OF v])
    have r1: "SYMBOL_REDIRECT s1 symb = SYMBOL_LOCALIZED blv"
      using r by (simp only: SYMBOL_REDIRECT_view [OF v])
    have t1: "assq_no_quit s1 (Symbol symb) (local_var_alist (buffers s1 (current_buffer s1))) = None"
      using tem by (simp only: assq_no_quit_view [OF v] blv_view_eqD(4) [OF v] cb)
    have sw: "Q' (snd (swap_in_symval_forwarding symb s1))"
      unfolding Q'_def
      using swap_in_symval_forwarding_invariant [OF i1 r1]
        swap_in_symval_forwarding_default [OF i1 r1 fl t1] by simp
    have "Q' (snd (find_symbol_value (Symbol symb) s1))"
      unfolding find_symbol_value_localized [OF r1]
      by (rule seq_preserves [where P = Q']) (simp_all add: sw)
    then show ?thesis
      by (rule seq_establishes [where P = Q' and R = Q]) (simp_all add: Q'Q QK)
  qed
  have first: "Q (snd (if assq_no_quit s (Symbol symb) (local_var_alist (buffers s (current_buffer s))) = None then
                        (let s1 = (if let_shadows_buffer_binding_p s symb (specpdl s)
                                   then message ''Making %s buffer-local while locally let-bound!'' s
                                   else s)
                         in seq (find_symbol_value (Symbol symb) s1) K)
                      else (Ret (), s)))"
  proof (cases "assq_no_quit s (Symbol symb) (local_var_alist (buffers s (current_buffer s)))")
    case None
    have "Q (snd (seq (find_symbol_value (Symbol symb) s) K))"
      by (rule first_None [OF _ None]) simp
    moreover have "Q (snd (seq (find_symbol_value (Symbol symb)
         (message ''Making %s buffer-local while locally let-bound!'' s)) K))"
      by (rule first_None [OF disjI2 None]) (rule refl)
    ultimately show ?thesis using None by (simp add: Let_def)
  next
    case (Some c)
    then show ?thesis using inv r by (simp add: Q_def)
  qed
  have second: "blv_invariant (snd (seq (if fwd (SYMBOL_BLV t symb) \<noteq> None then swap_in_symval_forwarding symb t
                      else (Ret (), t)) (\<lambda>u s. (Ret (Symbol symb), s))))" if "Q t" for t
  proof -
    from that obtain blv' where t: "blv_invariant t" "SYMBOL_REDIRECT t symb = SYMBOL_LOCALIZED blv'"
      unfolding Q_def by blast
    show ?thesis
      by (rule seq_preserves [where P = blv_invariant])
        (simp_all add: t(1) swap_in_symval_forwarding_invariant [OF t])
  qed
  have Qinv: "blv_invariant t" if "Q t" for t using that unfolding Q_def by simp
  have eq: "(let variable = Symbol symb;
                  tem = assq_no_quit s variable (local_var_alist (buffers s (current_buffer s)))
              in seq (if tem = None then
                        (let s1 = (if let_shadows_buffer_binding_p s symb (specpdl s)
                                   then message ''Making %s buffer-local while locally let-bound!'' s
                                   else s)
                         in seq (find_symbol_value variable s1) (\<lambda>v s.
                              let (c, s2) = Fcons_cell variable
                                              (snd (cells s (defcell (SYMBOL_BLV s symb)))) s;
                                  s3 = bset_local_var_alist (current_buffer s2)
                                         (c # local_var_alist (buffers s2 (current_buffer s2))) s2;
                                  s4 = (if BufferObj (current_buffer s3) = blv_where (SYMBOL_BLV s3 symb)
                                        then upd_blv symb (\<lambda>blv. blv\<lparr>blv_where := Qnil\<rparr>) s3
                                        else s3)
                              in (Ret (), upd_blv symb (\<lambda>blv. blv\<lparr>found := False\<rparr>) s4)))
                      else (Ret (), s)) (\<lambda>u s.
                 seq (if fwd (SYMBOL_BLV s symb) \<noteq> None then swap_in_symval_forwarding symb s
                      else (Ret (), s)) (\<lambda>u s. (Ret variable, s))))
     = seq (if assq_no_quit s (Symbol symb) (local_var_alist (buffers s (current_buffer s))) = None then
                        (let s1 = (if let_shadows_buffer_binding_p s symb (specpdl s)
                                   then message ''Making %s buffer-local while locally let-bound!'' s
                                   else s)
                         in seq (find_symbol_value (Symbol symb) s1) K)
                      else (Ret (), s)) (\<lambda>u s.
                 seq (if fwd (SYMBOL_BLV s symb) \<noteq> None then swap_in_symval_forwarding symb s
                      else (Ret (), s)) (\<lambda>u s. (Ret (Symbol symb), s)))"
    unfolding K_def Let_def by (rule refl)
  show ?thesis
    unfolding eq
  proof (rule seq_establishes [where P = Q and R = blv_invariant, OF first])
    fix t assume "Q t"
    then show "blv_invariant t" by (rule Qinv)
  next
    fix x t assume "Q t"
    then show "blv_invariant (snd (seq (if fwd (SYMBOL_BLV t symb) \<noteq> None then swap_in_symval_forwarding symb t
                      else (Ret (), t)) (\<lambda>u s. (Ret (Symbol symb), s))))"
      by (rule second)
  qed
qed


lemma Fmake_local_variable_invariant:
  assumes inv: "blv_invariant s"
  shows "blv_invariant (snd (Fmake_local_variable variable0 s))"
proof -
  define set_it where "set_it = (\<lambda>s.
              seq (Fboundp variable0 s) (\<lambda>tem s.
              seq (if tem = Qt then Fsymbol_value variable0 s else (Ret Qunbound, s)) (\<lambda>v s.
              seq (Fset variable0 v s) (\<lambda>u s. (Ret variable0, s)))))"
  define localize where "localize = (\<lambda>symb s.
              let variable = Symbol symb;
                  tem = assq_no_quit s variable (local_var_alist (buffers s (current_buffer s)))
              in seq (if tem = None then
                        (let s1 = (if let_shadows_buffer_binding_p s symb (specpdl s)
                                   then message ''Making %s buffer-local while locally let-bound!'' s
                                   else s)
                         in seq (find_symbol_value variable s1) (\<lambda>v s.
                              let (c, s2) = Fcons_cell variable
                                              (snd (cells s (defcell (SYMBOL_BLV s symb)))) s;
                                  s3 = bset_local_var_alist (current_buffer s2)
                                         (c # local_var_alist (buffers s2 (current_buffer s2))) s2;
                                  s4 = (if BufferObj (current_buffer s3) = blv_where (SYMBOL_BLV s3 symb)
                                        then upd_blv symb (\<lambda>blv. blv\<lparr>blv_where := Qnil\<rparr>) s3
                                        else s3)
                              in (Ret (), upd_blv symb (\<lambda>blv. blv\<lparr>found := False\<rparr>) s4)))
                      else (Ret (), s)) (\<lambda>u s.
                 seq (if fwd (SYMBOL_BLV s symb) \<noteq> None then swap_in_symval_forwarding symb s
                      else (Ret (), s)) (\<lambda>u s. (Ret variable, s))))"
  define body where "body = (\<lambda>symb s.
       case SYMBOL_REDIRECT s symb of
         SYMBOL_VARALIAS t \<Rightarrow> (Diverges, s)
       | SYMBOL_PLAINVAL v \<Rightarrow>
           if sym_constant (symtab s symb) then error ''Symbol %s may not be buffer-local'' s
           else localize symb (install_blv symb (fst (make_blv symb None v s))
                   ''Making %s local to %s while let-bound!'' (snd (make_blv symb None v s)))
       | SYMBOL_LOCALIZED blv \<Rightarrow>
           if frame_local blv then error ''Symbol %s may not be buffer-local'' s
           else if sym_constant (symtab s symb)
           then error ''Symbol %s may not be buffer-local'' s
           else if local_if_set blv then set_it s
           else localize symb s
       | SYMBOL_FORWARDED f \<Rightarrow>
           if KBOARD_OBJFWDP f then error ''Symbol %s may not be buffer-local'' s
           else if sym_constant (symtab s symb)
           then error ''Symbol %s may not be buffer-local'' s
           else if BUFFER_OBJFWDP f then set_it s
           else localize symb (install_blv symb (fst (make_blv symb (Some f) Qnil s))
                   ''Making %s local to %s while let-bound!'' (snd (make_blv symb (Some f) Qnil s))))"
  have eq: "Fmake_local_variable variable0 s =
     seq (CHECK_SYMBOL variable0 s) (\<lambda>u s. seq (start (XSYMBOL variable0) s) body)"
    unfolding Fmake_local_variable_def body_def localize_def set_it_def Let_def split_beta
    by (rule refl)
  have S: "blv_invariant (snd (set_it t))" if t: "blv_invariant t" for t
    unfolding set_it_def
  proof (rule seq_preserves [where P = blv_invariant], goal_cases)
    case 1
    show ?case by (rule Fboundp_invariant [OF t])
  next
    case (2 tem t1)
    show ?case
    proof (rule seq_preserves [where P = blv_invariant], goal_cases)
      case 1
      show ?case using 2(2) by (simp add: Fsymbol_value_invariant)
    next
      case (2 v t2)
      show ?case
        by (rule seq_preserves [where P = blv_invariant]) (simp_all add: Fset_invariant [OF 2(2)])
    qed
  qed
  have L: "blv_invariant (snd (localize symb t))"
    if "blv_invariant t" "SYMBOL_REDIRECT t symb = SYMBOL_LOCALIZED blv" "\<not> frame_local blv"
    for symb t blv
    unfolding localize_def by (rule localize_invariant [OF that])
  have C: "blv_invariant (snd (localize symb (install_blv symb (fst (make_blv symb fw v s)) msg
              (snd (make_blv symb fw v s)))))" for symb fw v msg
    by (rule L [OF make_install_invariant(1) [OF inv] SYMBOL_REDIRECT_install_blv])
      (simp add: make_blv_fst)
  have B: "blv_invariant (snd (body symb s))" for symb
  proof (cases "SYMBOL_REDIRECT s symb")
    case (SYMBOL_PLAINVAL v)
    then show ?thesis unfolding body_def using inv C by simp
  next
    case (SYMBOL_VARALIAS t)
    then show ?thesis unfolding body_def using inv by simp
  next
    case (SYMBOL_LOCALIZED blv)
    show ?thesis
      unfolding body_def using inv S [OF inv] L [OF inv SYMBOL_LOCALIZED]
      by (simp add: SYMBOL_LOCALIZED)
  next
    case (SYMBOL_FORWARDED f)
    then show ?thesis unfolding body_def using inv S [OF inv] C by simp
  qed
  show ?thesis
    unfolding eq by (rule with_symbol_preserves [where P = blv_invariant, OF inv]) (rule B)
qed


text \<open>The operations on variables, each called with some buffer current and some frame
  selected, and sequences of such calls.\<close>

datatype variable_operation =
    Get Lisp_Object
  | Set Lisp_Object Lisp_Object
  | Set_default Lisp_Object Lisp_Object
  | Swap_in sym_t
  | Make_local_variable Lisp_Object
  | Make_variable_buffer_local Lisp_Object
  | Make_variable_frame_local Lisp_Object
  | Kill_local_variable Lisp_Object

fun perform :: "variable_operation \<Rightarrow> lisp_state \<Rightarrow> lisp_state" where
  "perform (Get symbol) s = snd (find_symbol_value symbol s)"
| "perform (Set symbol v) s = snd (Fset symbol v s)"
| "perform (Set_default symbol v) s = snd (Fset_default symbol v s)"
| "perform (Swap_in symb) s =
     (case SYMBOL_REDIRECT s symb of
        SYMBOL_LOCALIZED blv \<Rightarrow> snd (swap_in_symval_forwarding symb s)
      | _ \<Rightarrow> s)"
| "perform (Make_local_variable symbol) s = snd (Fmake_local_variable symbol s)"
| "perform (Make_variable_buffer_local symbol) s = snd (Fmake_variable_buffer_local symbol s)"
| "perform (Make_variable_frame_local symbol) s = snd (Fmake_variable_frame_local symbol s)"
| "perform (Kill_local_variable symbol) s = snd (Fkill_local_variable symbol s)"

fun perform_all :: "(nat \<times> nat \<times> variable_operation) list \<Rightarrow> lisp_state \<Rightarrow> lisp_state" where
  "perform_all [] s = s"
| "perform_all ((b, f, operation) # ops) s =
     perform_all ops (perform operation (s\<lparr>current_buffer := b, selected_frame := f\<rparr>))"

lemma blv_invariant_initial_state: "blv_invariant initial_state"
  by (simp add: blv_invariant_def heap_ok_def initial_state_def initial_symbol_def)

lemma blv_view_context:
  "blv_view (s\<lparr>current_buffer := b, selected_frame := f\<rparr>) = blv_view s"
  by (simp add: blv_view_def)

lemma perform_invariant:
  assumes "blv_invariant s"
  shows "blv_invariant (perform operation s)"
proof (cases operation)
  case (Swap_in symb)
  show ?thesis
  proof (cases "SYMBOL_REDIRECT s symb")
    case (SYMBOL_LOCALIZED blv)
    then show ?thesis
      using Swap_in swap_in_symval_forwarding_invariant [OF assms SYMBOL_LOCALIZED] by simp
  qed (use Swap_in assms in simp_all)
qed (simp_all add: assms find_symbol_value_invariant Fset_invariant Fset_default_invariant
      Fmake_local_variable_invariant Fmake_variable_buffer_local_invariant
      Fmake_variable_frame_local_invariant Fkill_local_variable_invariant)

lemma perform_all_invariant:
  "blv_invariant s \<Longrightarrow> blv_invariant (perform_all ops s)"
proof (induction ops arbitrary: s)
  case Nil
  then show ?case by simp
next
  case (Cons a ops)
  obtain b f operation where a: "a = (b, f, operation)" by (cases a)
  have "blv_invariant (s\<lparr>current_buffer := b, selected_frame := f\<rparr>)"
    using Cons.prems by (simp only: blv_invariant_view [OF blv_view_context])
  then have "blv_invariant (perform operation (s\<lparr>current_buffer := b, selected_frame := f\<rparr>))"
    by (rule perform_invariant)
  then show ?case unfolding a perform_all.simps by (rule Cons.IH)
qed

text \<open>
  Claim C6.  In every state reached from a state that satisfies the invariant (the initial
  state does) by calls of \<open>find_symbol_value\<close>, \<open>Fset\<close>, \<open>Fset_default\<close>,
  \<open>swap_in_symval_forwarding\<close>, \<open>Fmake_local_variable\<close>,
  \<open>Fmake_variable_buffer_local\<close>, \<open>Fmake_variable_frame_local\<close> and
  \<open>Fkill_local_variable\<close>, in any buffers and frames and whether they return or signal,
  the \<open>found\<close> flag of the \<open>blv\<close> of every \<open>SYMBOL_LOCALIZED\<close> symbol says
  that \<open>defcell\<close> and \<open>valcell\<close> are different cells.
\<close>

theorem blv_found_invariant:
  assumes "blv_invariant s"
    and "SYMBOL_REDIRECT (perform_all ops s) symb = SYMBOL_LOCALIZED blv"
  shows "found blv = (defcell blv \<noteq> valcell blv)"
proof -
  have "blv_invariant (perform_all ops s)" using assms(1) by (rule perform_all_invariant)
  from blv_invariantD [OF this assms(2)] show ?thesis by (simp add: blv_ok_def)
qed


text \<open>The test of the invariant: a buffer-local binding is made and loaded.\<close>

declare indirect_variable_loop.simps [code]

lemma local_binding_loaded:
  "SYMBOL_REDIRECT (perform_all [(0, 0, Make_local_variable (Symbol 100)), (0, 0, Get (Symbol 100))]
      initial_state) 100
   = SYMBOL_LOCALIZED \<lparr>local_if_set = False, frame_local = False, found = True, fwd = None,
       blv_where = BufferObj 0, defcell = 0, valcell = 1\<rparr>"
  by code_simp

theorem blv_found_invariant_witness:
  "SYMBOL_REDIRECT (perform_all [(0, 0, Make_local_variable (Symbol 100)), (0, 0, Get (Symbol 100))]
      initial_state) 100
   = SYMBOL_LOCALIZED \<lparr>local_if_set = False, frame_local = False, found = True, fwd = None,
       blv_where = BufferObj 0, defcell = 0, valcell = 1\<rparr>
   \<and> found \<lparr>local_if_set = False, frame_local = False, found = True, fwd = None,
       blv_where = BufferObj 0, defcell = 0, valcell = 1\<rparr>
     = (defcell \<lparr>local_if_set = False, frame_local = False, found = True, fwd = None,
       blv_where = BufferObj 0, defcell = 0, valcell = 1\<rparr>
        \<noteq> valcell \<lparr>local_if_set = False, frame_local = False, found = True, fwd = None,
       blv_where = BufferObj 0, defcell = 0, valcell = (1::nat)\<rparr>)"
  by (rule conjI [OF local_binding_loaded
        blv_found_invariant [OF blv_invariant_initial_state local_binding_loaded]])


section \<open>Unwinding in reverse order\<close>

text \<open>\<open>dynwind_begin (); specbind (A, 1); record_unwind_protect (unwind_body, f);
  specbind (A, 2);\<close>\<close>

definition bound_twice :: "sym_t \<Rightarrow> form list \<Rightarrow> lisp_state \<Rightarrow> unit result \<times> lisp_state" where
  "bound_twice A f s =
     seq (specbind (Symbol A) (Integer 1) (dynwind_begin s)) (\<lambda>u s.
       specbind (Symbol A) (Integer 2) (record_unwind_protect (unwind_body_fn f) s))"

lemma SET_SYMBOL_VAL_frame:
  "redirect (symtab (SET_SYMBOL_VAL x v s) y) = (if y = x then SYMBOL_PLAINVAL v else redirect (symtab s y))"
  "sym_constant (symtab (SET_SYMBOL_VAL x v s) y) = sym_constant (symtab s y)"
  "specpdl (SET_SYMBOL_VAL x v s) = specpdl s"
  "specpdl_size (SET_SYMBOL_VAL x v s) = specpdl_size s"
  "dynstack (SET_SYMBOL_VAL x v s) = dynstack s"
  by (simp_all add: SET_SYMBOL_VAL_def SET_SYMBOL_REDIRECT_def)

lemma bound_twice_plain:
  assumes "redirect (symtab s A) = SYMBOL_PLAINVAL old" and "\<not> sym_constant (symtab s A)"
    and "length (specpdl s) + 2 < specpdl_size s"
  shows "bound_twice A f s =
     (Ret (), s\<lparr>symtab := (symtab s)(A := (symtab s A)\<lparr>redirect := SYMBOL_PLAINVAL (Integer 2)\<rparr>),
               specpdl := SPECPDL_LET (Symbol A) (Integer 1) # SPECPDL_LET (Symbol A) old # specpdl s,
               dynstack := WindUnwinder unbind_once_fn True # WindUnwinder (unwind_body_fn f) True
                           # WindUnwinder unbind_once_fn True # WindFrame # dynstack s\<rparr>)"
proof -
  let ?s1 = "scm_dynwind_unwind_handler unbind_once_fn True
               (SET_SYMBOL_VAL A (Integer 1)
                  ((dynwind_begin s)\<lparr>specpdl := SPECPDL_LET (Symbol A) old # specpdl (dynwind_begin s)\<rparr>))"
  have b1: "specbind (Symbol A) (Integer 1) (dynwind_begin s) = (Ret (), ?s1)"
    using assms by (intro specbind_plain) (simp_all add: dynwind_begin_def scm_dynwind_begin_def)
  let ?s2 = "record_unwind_protect (unwind_body_fn f) ?s1"
  have b2: "specbind (Symbol A) (Integer 2) ?s2 =
      (Ret (), scm_dynwind_unwind_handler unbind_once_fn True
                 (SET_SYMBOL_VAL A (Integer 2)
                    (?s2\<lparr>specpdl := SPECPDL_LET (Symbol A) (Integer 1) # specpdl ?s2\<rparr>)))"
    using assms
    by (intro specbind_plain)
      (simp_all add: dynwind_begin_def scm_dynwind_begin_def record_unwind_protect_def
        record_unwind_protect_ptr_1_def scm_dynwind_unwind_handler_def SET_SYMBOL_VAL_def
        SET_SYMBOL_REDIRECT_def)
  show ?thesis
    unfolding bound_twice_def b1
    by (simp add: seq_def b2)
      (simp add: dynwind_begin_def scm_dynwind_begin_def record_unwind_protect_def
        record_unwind_protect_ptr_1_def scm_dynwind_unwind_handler_def SET_SYMBOL_VAL_def
        SET_SYMBOL_REDIRECT_def)
qed

lemma first_binding_plain:
  assumes "redirect (symtab s A) = SYMBOL_PLAINVAL old" and "\<not> sym_constant (symtab s A)"
    and "length (specpdl s) + 2 < specpdl_size s"
  shows "specbind (Symbol A) (Integer 1) (dynwind_begin s) =
     (Ret (), s\<lparr>symtab := (symtab s)(A := (symtab s A)\<lparr>redirect := SYMBOL_PLAINVAL (Integer 1)\<rparr>),
               specpdl := SPECPDL_LET (Symbol A) old # specpdl s,
               dynstack := WindUnwinder unbind_once_fn True # WindFrame # dynstack s\<rparr>)"
proof -
  have "specbind (Symbol A) (Integer 1) (dynwind_begin s) =
     (Ret (), scm_dynwind_unwind_handler unbind_once_fn True
               (SET_SYMBOL_VAL A (Integer 1)
                  ((dynwind_begin s)\<lparr>specpdl := SPECPDL_LET (Symbol A) old # specpdl (dynwind_begin s)\<rparr>)))"
    using assms by (intro specbind_plain) (simp_all add: dynwind_begin_def scm_dynwind_begin_def)
  then show ?thesis
    by (simp add: dynwind_begin_def scm_dynwind_begin_def scm_dynwind_unwind_handler_def
        SET_SYMBOL_VAL_def SET_SYMBOL_REDIRECT_def)
qed


lemma dynwind_end_unbind_plain:
  assumes "dynstack t = WindUnwinder unbind_once_fn True # rest"
    and "specpdl t = SPECPDL_LET (Symbol x) old # pd"
    and "redirect (symtab t x) = SYMBOL_PLAINVAL v"
  shows "evaluator (Suc (Suc n)) Call_scm_dynwind_end t =
           evaluator (Suc n) Call_scm_dynwind_end
             (SET_SYMBOL_VAL x old (t\<lparr>dynstack := rest, specpdl := pd\<rparr>))"
proof -
  have "unbind_once (t\<lparr>dynstack := rest\<rparr>)
        = (Ret (), SET_SYMBOL_VAL x old (t\<lparr>dynstack := rest, specpdl := pd\<rparr>))"
    using assms(2,3) by (simp add: unbind_once_plain [where rest = pd and v = v])
  then have r: "evaluator (Suc n) (Call_run_unwinder unbind_once_fn) (t\<lparr>dynstack := rest\<rparr>)
        = (Ret Qnil, SET_SYMBOL_VAL x old (t\<lparr>dynstack := rest, specpdl := pd\<rparr>))"
    by (simp add: xsignal_def)
  have "evaluator (Suc (Suc n)) Call_scm_dynwind_end t = scm_dynwind_end (evaluator (Suc n)) t"
    by (simp only: evaluator_Suc dispatch.simps)
  also have "\<dots> = (case evaluator (Suc n) (Call_run_unwinder unbind_once_fn) (t\<lparr>dynstack := rest\<rparr>) of
               (Ret x, s1) \<Rightarrow> evaluator (Suc n) Call_scm_dynwind_end s1
             | (r, s1) \<Rightarrow> (r, s1))"
    by (simp only: scm_dynwind_end_def assms(1) list.case wind.case if_True)
  also have "\<dots> = evaluator (Suc n) Call_scm_dynwind_end
             (SET_SYMBOL_VAL x old (t\<lparr>dynstack := rest, specpdl := pd\<rparr>))"
    by (simp only: r prod.case result.case)
  finally show ?thesis .
qed

lemma dynwind_end_unwind_body:
  assumes "dynstack t = WindUnwinder (unwind_body_fn f) True # rest"
  shows "evaluator (Suc (Suc n)) Call_scm_dynwind_end t =
           (case evaluator n (Call_Fprogn Qnil f) (t\<lparr>dynstack := rest\<rparr>) of
              (Ret v, s4) \<Rightarrow> evaluator (Suc n) Call_scm_dynwind_end s4
            | (r, s4) \<Rightarrow> (r, s4))"
  using assms
  by (simp add: scm_dynwind_end_def split: prod.split result.split)

lemma dynwind_end_frame:
  assumes "dynstack t = WindFrame # rest"
  shows "evaluator (Suc n) Call_scm_dynwind_end t = (Ret Qnil, t\<lparr>dynstack := rest\<rparr>)"
  using assms by (simp add: scm_dynwind_end_def)


lemma log_cleanup:
  assumes "redirect (symtab t A) = SYMBOL_PLAINVAL v" and "v \<noteq> Qunbound"
    and "redirect (symtab t L) = SYMBOL_PLAINVAL l0" and "\<not> sym_constant (symtab t L)"
  shows "evaluator (Suc (Suc (Suc n))) (Call_Fprogn Qnil [Setq (Symbol L) (SymbolValue (Symbol A))]) t
         = (Ret v, SET_SYMBOL_VAL L v t)"
  using assms by (simp add: Fsymbol_value_plain Fset_plain)

lemma unwind_cleanup_between:
  assumes "redirect (symtab s A) = SYMBOL_PLAINVAL old" and "\<not> sym_constant (symtab s A)"
    and "length (specpdl s) + 2 < specpdl_size s"
  shows "evaluator (Suc (Suc (Suc n))) Call_scm_dynwind_end (snd (bound_twice A f s)) =
           (case evaluator n (Call_Fprogn Qnil f)
                   (snd (specbind (Symbol A) (Integer 1) (dynwind_begin s))) of
              (Ret v, s4) \<Rightarrow> evaluator (Suc n) Call_scm_dynwind_end s4
            | (r, s4) \<Rightarrow> (r, s4))"
proof -
  let ?s2 = "s\<lparr>symtab := (symtab s)(A := (symtab s A)\<lparr>redirect := SYMBOL_PLAINVAL (Integer 2)\<rparr>),
               specpdl := SPECPDL_LET (Symbol A) (Integer 1) # SPECPDL_LET (Symbol A) old # specpdl s,
               dynstack := WindUnwinder unbind_once_fn True # WindUnwinder (unwind_body_fn f) True
                           # WindUnwinder unbind_once_fn True # WindFrame # dynstack s\<rparr>"
  let ?s1 = "s\<lparr>symtab := (symtab s)(A := (symtab s A)\<lparr>redirect := SYMBOL_PLAINVAL (Integer 1)\<rparr>),
               specpdl := SPECPDL_LET (Symbol A) old # specpdl s,
               dynstack := WindUnwinder unbind_once_fn True # WindFrame # dynstack s\<rparr>"
  let ?t = "SET_SYMBOL_VAL A (Integer 1)
              (?s2\<lparr>dynstack := WindUnwinder (unwind_body_fn f) True
                           # WindUnwinder unbind_once_fn True # WindFrame # dynstack s,
                    specpdl := SPECPDL_LET (Symbol A) old # specpdl s\<rparr>)"
  have "evaluator (Suc (Suc (Suc n))) Call_scm_dynwind_end ?s2
        = evaluator (Suc (Suc n)) Call_scm_dynwind_end ?t"
    by (rule dynwind_end_unbind_plain [where v = "Integer 2"]) simp_all
  also have "\<dots> = (case evaluator n (Call_Fprogn Qnil f)
                        (?t\<lparr>dynstack := WindUnwinder unbind_once_fn True # WindFrame # dynstack s\<rparr>) of
              (Ret v, s4) \<Rightarrow> evaluator (Suc n) Call_scm_dynwind_end s4
            | (r, s4) \<Rightarrow> (r, s4))"
    by (rule dynwind_end_unwind_body) (simp add: SET_SYMBOL_VAL_frame)
  also have "?t\<lparr>dynstack := WindUnwinder unbind_once_fn True # WindFrame # dynstack s\<rparr> = ?s1"
    by (simp add: SET_SYMBOL_VAL_def SET_SYMBOL_REDIRECT_def)
  finally show ?thesis
    by (simp only: bound_twice_plain [OF assms] first_binding_plain [OF assms] snd_conv)
qed

lemma unwind_logged:
  assumes "redirect (symtab s A) = SYMBOL_PLAINVAL old" and "\<not> sym_constant (symtab s A)"
    and "length (specpdl s) + 2 < specpdl_size s"
    and "redirect (symtab s L) = SYMBOL_PLAINVAL l0" and "\<not> sym_constant (symtab s L)"
    and "L \<noteq> A"
  shows "evaluator (Suc (Suc (Suc (Suc (Suc (Suc n))))))  Call_scm_dynwind_end
           (snd (bound_twice A [Setq (Symbol L) (SymbolValue (Symbol A))] s))
         = (Ret Qnil, SET_SYMBOL_VAL L (Integer 1) s)"
proof -
  let ?s1 = "s\<lparr>symtab := (symtab s)(A := (symtab s A)\<lparr>redirect := SYMBOL_PLAINVAL (Integer 1)\<rparr>),
               specpdl := SPECPDL_LET (Symbol A) old # specpdl s,
               dynstack := WindUnwinder unbind_once_fn True # WindFrame # dynstack s\<rparr>"
  have c: "evaluator (Suc (Suc (Suc n))) (Call_Fprogn Qnil [Setq (Symbol L) (SymbolValue (Symbol A))]) ?s1
           = (Ret (Integer 1), SET_SYMBOL_VAL L (Integer 1) ?s1)"
    using assms(4,5,6) by (intro log_cleanup [where ?l0.0 = l0]) simp_all
  have u: "evaluator (Suc (Suc (Suc (Suc n)))) Call_scm_dynwind_end (SET_SYMBOL_VAL L (Integer 1) ?s1)
           = evaluator (Suc (Suc (Suc n))) Call_scm_dynwind_end
               (SET_SYMBOL_VAL A old ((SET_SYMBOL_VAL L (Integer 1) ?s1)
                  \<lparr>dynstack := WindFrame # dynstack s, specpdl := specpdl s\<rparr>))"
    using assms(6)
    by (intro dynwind_end_unbind_plain [where v = "Integer 1"]) (simp_all add: SET_SYMBOL_VAL_frame)
  have e: "evaluator (Suc (Suc (Suc n))) Call_scm_dynwind_end
               (SET_SYMBOL_VAL A old ((SET_SYMBOL_VAL L (Integer 1) ?s1)
                  \<lparr>dynstack := WindFrame # dynstack s, specpdl := specpdl s\<rparr>))
           = (Ret Qnil, (SET_SYMBOL_VAL A old ((SET_SYMBOL_VAL L (Integer 1) ?s1)
                  \<lparr>dynstack := WindFrame # dynstack s, specpdl := specpdl s\<rparr>))
                  \<lparr>dynstack := dynstack s\<rparr>)"
    by (rule dynwind_end_frame) (simp add: SET_SYMBOL_VAL_frame)
  have st: "symtab s A\<lparr>redirect := SYMBOL_PLAINVAL old\<rparr> = symtab s A"
    using assms(1) by simp
  have f: "(SET_SYMBOL_VAL A old ((SET_SYMBOL_VAL L (Integer 1) ?s1)
                  \<lparr>dynstack := WindFrame # dynstack s, specpdl := specpdl s\<rparr>))
                  \<lparr>dynstack := dynstack s\<rparr>
           = SET_SYMBOL_VAL L (Integer 1) s"
    using assms(6) st
    by (auto simp: SET_SYMBOL_VAL_def SET_SYMBOL_REDIRECT_def fun_upd_twist intro!: lisp_state.equality ext)
  show ?thesis
    unfolding unwind_cleanup_between [OF assms(1,2,3)] first_binding_plain [OF assms(1,2,3)] snd_conv c
    by (simp only: prod.case result.case u e f)
qed


text \<open>
  Claim C2.  After \<open>specbind (A, 1)\<close>, \<open>record_unwind_protect (unwind_body, f)\<close> and
  \<open>specbind (A, 2)\<close> inside one \<open>dynwind_begin\<close>, for a plain variable \<open>A\<close> and with
  room on the binding stack, \<open>scm_dynwind_end\<close> undoes the entries in reverse order:
  the cleanup \<open>f\<close> runs in exactly the state the first \<open>specbind\<close> left, where \<open>A\<close>
  is 1 again and the entry holding the old value of \<open>A\<close> is still on the stack, and the
  unwinding goes on from the state \<open>f\<close> leaves.  With the cleanup
  \<open>(setq L A)\<close> for another plain variable \<open>L\<close> the unwinding returns, and the
  final state is the first one with \<open>L\<close> set to 1: \<open>A\<close> has its old value and the
  stacks are as before.
\<close>

theorem unwind_reverse_order:
  assumes "SYMBOL_REDIRECT s A = SYMBOL_PLAINVAL old" and "\<not> sym_constant (symtab s A)"
    and "SPECPDL_INDEX s + 2 < specpdl_size s"
  shows "fst (bound_twice A f s) = Ret ()
       \<and> evaluator (n + 3) Call_scm_dynwind_end (snd (bound_twice A f s)) =
           (case evaluator n (Call_Fprogn Qnil f)
                   (snd (specbind (Symbol A) (Integer 1) (dynwind_begin s))) of
              (Ret v, s4) \<Rightarrow> evaluator (n + 1) Call_scm_dynwind_end s4
            | (r, s4) \<Rightarrow> (r, s4))
       \<and> (\<forall>L l0. SYMBOL_REDIRECT s L = SYMBOL_PLAINVAL l0 \<and> \<not> sym_constant (symtab s L) \<and> L \<noteq> A
            \<longrightarrow> evaluator (n + 6) Call_scm_dynwind_end
                  (snd (bound_twice A [Setq (Symbol L) (SymbolValue (Symbol A))] s))
                = (Ret Qnil, SET_SYMBOL_VAL L (Integer 1) s))"
proof -
  note a = assms [unfolded SYMBOL_REDIRECT_def SPECPDL_INDEX_def]
  have e: "n + 3 = Suc (Suc (Suc n))" "n + 1 = Suc n"
    "n + 6 = Suc (Suc (Suc (Suc (Suc (Suc n)))))"
    by simp_all
  have 1: "fst (bound_twice A f s) = Ret ()"
    by (simp only: bound_twice_plain [OF a] fst_conv)
  have 2: "evaluator (n + 3) Call_scm_dynwind_end (snd (bound_twice A f s)) =
           (case evaluator n (Call_Fprogn Qnil f)
                   (snd (specbind (Symbol A) (Integer 1) (dynwind_begin s))) of
              (Ret v, s4) \<Rightarrow> evaluator (n + 1) Call_scm_dynwind_end s4
            | (r, s4) \<Rightarrow> (r, s4))"
    unfolding e by (rule unwind_cleanup_between [OF a])
  have 3: "evaluator (n + 6) Call_scm_dynwind_end
                  (snd (bound_twice A [Setq (Symbol L) (SymbolValue (Symbol A))] s))
                = (Ret Qnil, SET_SYMBOL_VAL L (Integer 1) s)"
    if "SYMBOL_REDIRECT s L = SYMBOL_PLAINVAL l0" "\<not> sym_constant (symtab s L)" "L \<noteq> A" for L l0
    unfolding e by (rule unwind_logged [OF a that [unfolded SYMBOL_REDIRECT_def]])
  from 1 2 3 show ?thesis by blast
qed

theorem unwind_reverse_order_witness:
  "evaluator 6 Call_scm_dynwind_end
     (snd (bound_twice 100 [Setq (Symbol 101) (SymbolValue (Symbol 100))] initial_state))
   = (Ret Qnil, SET_SYMBOL_VAL 101 (Integer 1) initial_state)"
proof -
  have "SYMBOL_REDIRECT initial_state 100 = SYMBOL_PLAINVAL Qunbound"
    "\<not> sym_constant (symtab initial_state 100)"
    "SPECPDL_INDEX initial_state + 2 < specpdl_size initial_state"
    "SYMBOL_REDIRECT initial_state 101 = SYMBOL_PLAINVAL Qunbound
     \<and> \<not> sym_constant (symtab initial_state 101) \<and> (101::nat) \<noteq> 100"
    by (simp_all add: SYMBOL_REDIRECT_def SPECPDL_INDEX_def initial_state_def initial_symbol_def)
  from unwind_reverse_order [OF this(1,2,3), of _ 0, THEN conjunct2, THEN conjunct2, rule_format, OF this(4)]
  show ?thesis by simp
qed


section \<open>The clauses of condition-case\<close>






































section \<open>A throw to a catch through nested forms\<close>

text \<open>The forms between a catch and a throw in its body: \<open>let\<close> bindings,
  \<open>unwind-protect\<close> forms, \<open>progn\<close> bodies and other catches, nested to any depth.
  The cleanup of an \<open>unwind-protect\<close> here pushes a value of its own on the list held by
  the variable \<open>L\<close>, so that the value of \<open>L\<close> tells which cleanups ran and in which
  order.\<close>

definition log_form :: "sym_t \<Rightarrow> Lisp_Object \<Rightarrow> form" where
  "log_form L k = Setq (Symbol L) (ConsF (Quote k) (SymbolValue (Symbol L)))"

datatype nesting =
    Here
  | InLet sym_t Lisp_Object nesting
  | InProtect nesting Lisp_Object
  | InProgn nesting "form list"
  | InCatch Lisp_Object nesting

fun plug :: "sym_t \<Rightarrow> nesting \<Rightarrow> form \<Rightarrow> form" where
  "plug L Here f = f"
| "plug L (InLet x v c) f = BindSymbol (Symbol x) (Quote v) (plug L c f)"
| "plug L (InProtect c k) f = UnwindProtect (plug L c f) [log_form L k]"
| "plug L (InProgn c rest) f = Progn (plug L c f # rest)"
| "plug L (InCatch tag c) f = Catch tag (plug L c f)"

text \<open>The state in which the innermost form is evaluated: what \<open>Fbind_symbol\<close>,
  \<open>unwind_protect\<close> and \<open>internal_catch\<close> do before they call their body.\<close>

fun enter :: "sym_t \<Rightarrow> nesting \<Rightarrow> lisp_state \<Rightarrow> lisp_state" where
  "enter L Here s = s"
| "enter L (InLet x v c) s = enter L c (snd (specbind (Symbol x) v (dynwind_begin s)))"
| "enter L (InProtect c k) s =
     enter L c (record_unwind_protect (unwind_body_fn [log_form L k]) (dynwind_begin s))"
| "enter L (InProgn c rest) s = enter L c s"
| "enter L (InCatch tag c) s =
     enter L c (icc_thunk_enter (fst (make_catch_handler tag s))
                  (push_prompt (prompt_tags s) (snd (make_catch_handler tag s))))"

fun let_symbols :: "nesting \<Rightarrow> sym_t list" where
  "let_symbols Here = []"
| "let_symbols (InLet x v c) = x # let_symbols c"
| "let_symbols (InProtect c k) = let_symbols c"
| "let_symbols (InProgn c rest) = let_symbols c"
| "let_symbols (InCatch tag c) = let_symbols c"

fun catch_tags :: "nesting \<Rightarrow> Lisp_Object list" where
  "catch_tags Here = []"
| "catch_tags (InLet x v c) = catch_tags c"
| "catch_tags (InProtect c k) = catch_tags c"
| "catch_tags (InProgn c rest) = catch_tags c"
| "catch_tags (InCatch tag c) = tag # catch_tags c"

text \<open>The values of the cleanups, outermost first.\<close>

fun cleanups :: "nesting \<Rightarrow> Lisp_Object list" where
  "cleanups Here = []"
| "cleanups (InLet x v c) = cleanups c"
| "cleanups (InProtect c k) = k # cleanups c"
| "cleanups (InProgn c rest) = cleanups c"
| "cleanups (InCatch tag c) = cleanups c"

text \<open>The depth of the calls of \<open>eval_sub\<close> down to the innermost form, and the number
  of entries on the dynamic stack.\<close>

fun depth :: "nesting \<Rightarrow> nat" where
  "depth Here = 0"
| "depth (InLet x v c) = Suc (depth c)"
| "depth (InProtect c k) = Suc (depth c)"
| "depth (InProgn c rest) = Suc (Suc (depth c))"
| "depth (InCatch tag c) = Suc (Suc (depth c))"

fun entries :: "nesting \<Rightarrow> nat" where
  "entries Here = 0"
| "entries (InLet x v c) = Suc (Suc (entries c))"
| "entries (InProtect c k) = Suc (Suc (entries c))"
| "entries (InProgn c rest) = entries c"
| "entries (InCatch tag c) = Suc (Suc (Suc (Suc (entries c))))"

definition plain_value :: "lisp_state \<Rightarrow> sym_t \<Rightarrow> Lisp_Object" where
  "plain_value s x = (case redirect (symtab s x) of SYMBOL_PLAINVAL v \<Rightarrow> v | _ \<Rightarrow> Qunbound)"

definition plain_variable :: "lisp_state \<Rightarrow> sym_t \<Rightarrow> bool" where
  "plain_variable s x =
     ((case redirect (symtab s x) of SYMBOL_PLAINVAL v \<Rightarrow> True | _ \<Rightarrow> False)
      \<and> \<not> sym_constant (symtab s x))"

text \<open>The state after the unwinding: the cleanups have pushed their values, the
  innermost first, and the bindings are undone.\<close>

definition unwound :: "sym_t \<Rightarrow> nesting \<Rightarrow> lisp_state \<Rightarrow> lisp_state" where
  "unwound L c s =
     SET_SYMBOL_VAL L (foldr Cons (cleanups c) (plain_value s L))
       (s\<lparr>prompt_tags := prompt_tags s + length (catch_tags c),
          immediate_quit := immediate_quit s \<and> catch_tags c = []\<rparr>)"

text \<open>The states after the entry into one form.\<close>

definition let_state :: "sym_t \<Rightarrow> Lisp_Object \<Rightarrow> lisp_state \<Rightarrow> lisp_state" where
  "let_state x v s =
     s\<lparr>symtab := (symtab s)(x := (symtab s x)\<lparr>redirect := SYMBOL_PLAINVAL v\<rparr>),
       specpdl := SPECPDL_LET (Symbol x) (plain_value s x) # specpdl s,
       dynstack := WindUnwinder unbind_once_fn True # WindFrame # dynstack s\<rparr>"

definition protect_state :: "sym_t \<Rightarrow> Lisp_Object \<Rightarrow> lisp_state \<Rightarrow> lisp_state" where
  "protect_state L k s =
     s\<lparr>dynstack := WindUnwinder (unwind_body_fn [log_form L k]) True # WindFrame # dynstack s\<rparr>"

definition catch_handler :: "Lisp_Object \<Rightarrow> lisp_state \<Rightarrow> handler" where
  "catch_handler tag s =
     \<lparr>h_type = CATCHER, tag_or_ch = tag, h_var = Qnil, h_body = [],
      h_lisp_eval_depth = lisp_eval_depth s,
      h_interrupt_input_blocked = interrupt_input_blocked s, ptag = prompt_tags s\<rparr>"

definition catch_state :: "Lisp_Object \<Rightarrow> lisp_state \<Rightarrow> lisp_state" where
  "catch_state tag s =
     s\<lparr>prompt_tags := Suc (prompt_tags s),
       handlerlist := catch_handler tag s # handlerlist s,
       dynstack := WindUnwinder (set_handlerlist_fn (handlerlist s)) True
                   # WindUnwinder (restore_handler_fn (catch_handler tag s # handlerlist s)) False
                   # WindFrame # WindPrompt (prompt_tags s) # dynstack s\<rparr>"

lemma plain_variableD:
  "plain_variable s x \<Longrightarrow> redirect (symtab s x) = SYMBOL_PLAINVAL (plain_value s x)"
  "plain_variable s x \<Longrightarrow> \<not> sym_constant (symtab s x)"
  by (auto simp: plain_variable_def plain_value_def split: symbol_redirect.splits)

lemma specbind_enter:
  assumes "plain_variable s x" and "Suc (length (specpdl s)) < specpdl_size s"
  shows "specbind (Symbol x) v (dynwind_begin s) = (Ret (), let_state x v s)"
proof -
  note o = plain_variableD [OF assms(1)]
  have "specbind (Symbol x) v (dynwind_begin s) =
          (Ret (), scm_dynwind_unwind_handler unbind_once_fn True
                     (SET_SYMBOL_VAL x v
                        ((dynwind_begin s)\<lparr>specpdl := SPECPDL_LET (Symbol x) (plain_value s x)
                                                        # specpdl (dynwind_begin s)\<rparr>)))"
    by (rule specbind_plain)
      (use o assms(2) in \<open>simp_all add: dynwind_begin_def scm_dynwind_begin_def\<close>)
  then show ?thesis
    by (simp add: let_state_def dynwind_begin_def scm_dynwind_begin_def
        scm_dynwind_unwind_handler_def SET_SYMBOL_VAL_def SET_SYMBOL_REDIRECT_def)
qed

lemma enter_InLet:
  assumes "plain_variable s x" and "Suc (length (specpdl s)) < specpdl_size s"
  shows "enter L (InLet x v c) s = enter L c (let_state x v s)"
  by (simp add: specbind_enter [OF assms])

lemma enter_InProtect: "enter L (InProtect c k) s = enter L c (protect_state L k s)"
  by (simp add: protect_state_def record_unwind_protect_def record_unwind_protect_ptr_1_def
      dynwind_begin_def scm_dynwind_begin_def scm_dynwind_unwind_handler_def)

lemma catch_body_state:
  "icc_thunk_enter (fst (make_catch_handler tag s))
     (push_prompt (prompt_tags s) (snd (make_catch_handler tag s))) = catch_state tag s"
  "fst (make_catch_handler tag s) = catch_handler tag s # handlerlist s"
  by (simp_all add: catch_state_def catch_handler_def make_catch_handler_def make_prompt_tag_def
      icc_thunk_enter_def push_prompt_def scm_dynwind_begin_def scm_dynwind_unwind_handler_def
      Let_def)

lemma enter_InCatch: "enter L (InCatch tag c) s = enter L c (catch_state tag s)"
  by (simp only: enter.simps catch_body_state(1))

lemma let_state_frame:
  "plain_variable s y \<Longrightarrow> plain_variable (let_state x v s) y"
  "length (specpdl (let_state x v s)) = Suc (length (specpdl s))"
  "specpdl_size (let_state x v s) = specpdl_size s"
  "prompt_tags (let_state x v s) = prompt_tags s"
  "handlerlist (let_state x v s) = handlerlist s"
  "y \<noteq> x \<Longrightarrow> plain_value (let_state x v s) y = plain_value s y"
  by (auto simp: let_state_def plain_variable_def plain_value_def)

lemma protect_state_frame:
  "plain_variable (protect_state L k s) y = plain_variable s y"
  "specpdl (protect_state L k s) = specpdl s"
  "specpdl_size (protect_state L k s) = specpdl_size s"
  "prompt_tags (protect_state L k s) = prompt_tags s"
  "handlerlist (protect_state L k s) = handlerlist s"
  "plain_value (protect_state L k s) y = plain_value s y"
  by (simp_all add: protect_state_def plain_variable_def plain_value_def)

lemma catch_state_frame:
  "plain_variable (catch_state tag s) y = plain_variable s y"
  "specpdl (catch_state tag s) = specpdl s"
  "specpdl_size (catch_state tag s) = specpdl_size s"
  "prompt_tags (catch_state tag s) = Suc (prompt_tags s)"
  "handlerlist (catch_state tag s) = catch_handler tag s # handlerlist s"
  "plain_value (catch_state tag s) y = plain_value s y"
  by (simp_all add: catch_state_def plain_variable_def plain_value_def)


text \<open>A non-local exit of the innermost form passes through the forms around it.\<close>

lemma jump_through_let:
  assumes "plain_variable s x" and "Suc (length (specpdl s)) < specpdl_size s"
    and "evaluator n (Call_eval_sub f) (let_state x v s) = (Jump p w, t)"
  shows "evaluator (Suc n) (Call_eval_sub (BindSymbol (Symbol x) (Quote v) f)) s = (Jump p w, t)"
proof -
  from assms(3) obtain m where n: "n = Suc m" by (cases n) simp_all
  have q: "evaluator n (Call_eval_sub (Quote v)) s = (Ret v, s)"
    unfolding n by simp
  have "evaluator (Suc n) (Call_eval_sub (BindSymbol (Symbol x) (Quote v) f)) s
        = eval_sub (evaluator n) (BindSymbol (Symbol x) (Quote v) f) s"
    by (simp only: evaluator_Suc dispatch.simps)
  also have "\<dots> = then_dynwind_end (evaluator n)
                      (evaluator n (Call_eval_sub f) (let_state x v s))"
    by (simp add: q Fbind_symbol_def specbind_enter [OF assms(1,2)] xsignal_def
        del: evaluator.simps)
  also have "\<dots> = (Jump p w, t)"
    unfolding assms(3) by (simp add: then_dynwind_end_def)
  finally show ?thesis .
qed

lemma jump_through_protect:
  assumes "evaluator n (Call_eval_sub f) (protect_state L k s) = (Jump p w, t)"
  shows "evaluator (Suc n) (Call_eval_sub (UnwindProtect f [log_form L k])) s = (Jump p w, t)"
proof -
  have e: "record_unwind_protect (unwind_body_fn [log_form L k]) (dynwind_begin s)
           = protect_state L k s"
    by (simp add: protect_state_def record_unwind_protect_def record_unwind_protect_ptr_1_def
        dynwind_begin_def scm_dynwind_begin_def scm_dynwind_unwind_handler_def)
  have "evaluator (Suc n) (Call_eval_sub (UnwindProtect f [log_form L k])) s
        = then_dynwind_end (evaluator n) (evaluator n (Call_eval_sub f) (protect_state L k s))"
    by (simp only: evaluator_Suc dispatch.simps eval_sub.simps unwind_protect_def e)
  also have "\<dots> = (Jump p w, t)"
    unfolding assms by (simp add: then_dynwind_end_def)
  finally show ?thesis .
qed

lemma jump_through_progn:
  assumes "evaluator n (Call_eval_sub f) s = (Jump p w, t)"
  shows "evaluator (Suc (Suc n)) (Call_eval_sub (Progn (f # rest))) s = (Jump p w, t)"
  using assms by simp

lemma jump_through_catch:
  assumes "evaluator n (Call_eval_sub f) (catch_state tag s) = (Jump p w, t)"
    and "p < prompt_tags s"
  shows "evaluator (Suc (Suc n)) (Call_eval_sub (Catch tag f)) s = (Jump p w, t)"
proof -
  have "evaluator (Suc (Suc n)) (Call_eval_sub (Catch tag f)) s
        = internal_catch (evaluator n) tag f s"
    by simp
  also have "\<dots> = prompt_result (prompt_tags s) (\<lambda>v s. (Ret v, s))
                     (then_dynwind_end (evaluator n)
                        (evaluator n (Call_eval_sub f) (catch_state tag s)))"
    unfolding internal_catch_def Let_def split_beta catch_body_state [symmetric]
    by (simp add: make_catch_handler_def make_prompt_tag_def)
  also have "\<dots> = (Jump p w, t)"
    unfolding assms(1) using assms(2) by (simp add: then_dynwind_end_def prompt_result_def)
  finally show ?thesis .
qed

lemma jump_through:
  assumes "\<forall>x\<in>set (let_symbols c). plain_variable s x"
    and "length (specpdl s) + length (let_symbols c) < specpdl_size s"
    and "p < prompt_tags s"
    and "evaluator n (Call_eval_sub f) (enter L c s) = (Jump p w, t)"
  shows "evaluator (depth c + n) (Call_eval_sub (plug L c f)) s = (Jump p w, t)"
  using assms
proof (induction c arbitrary: s)
  case Here
  then show ?case by simp
next
  case (InLet x v c)
  have p: "plain_variable s x" and r: "Suc (length (specpdl s)) < specpdl_size s"
    using InLet.prems(1,2) by simp_all
  have "evaluator (depth c + n) (Call_eval_sub (plug L c f)) (let_state x v s) = (Jump p w, t)"
  proof (rule InLet.IH)
    show "\<forall>y\<in>set (let_symbols c). plain_variable (let_state x v s) y"
      using InLet.prems(1) by (simp add: let_state_frame)
    show "length (specpdl (let_state x v s)) + length (let_symbols c)
          < specpdl_size (let_state x v s)"
      using InLet.prems(2) by (simp add: let_state_frame)
    show "p < prompt_tags (let_state x v s)"
      using InLet.prems(3) by (simp add: let_state_frame)
    show "evaluator n (Call_eval_sub f) (enter L c (let_state x v s)) = (Jump p w, t)"
      using InLet.prems(4) by (simp only: enter_InLet [OF p r])
  qed
  from jump_through_let [OF p r this] show ?case
    by (simp only: plug.simps depth.simps add_Suc)
next
  case (InProtect c k)
  have "evaluator (depth c + n) (Call_eval_sub (plug L c f)) (protect_state L k s)
        = (Jump p w, t)"
  proof (rule InProtect.IH)
    show "\<forall>y\<in>set (let_symbols c). plain_variable (protect_state L k s) y"
      using InProtect.prems(1) by (simp add: protect_state_frame)
    show "length (specpdl (protect_state L k s)) + length (let_symbols c)
          < specpdl_size (protect_state L k s)"
      using InProtect.prems(2) by (simp add: protect_state_frame)
    show "p < prompt_tags (protect_state L k s)"
      using InProtect.prems(3) by (simp add: protect_state_frame)
    show "evaluator n (Call_eval_sub f) (enter L c (protect_state L k s)) = (Jump p w, t)"
      using InProtect.prems(4) by (simp only: enter_InProtect)
  qed
  from jump_through_protect [OF this] show ?case
    by (simp only: plug.simps depth.simps add_Suc)
next
  case (InProgn c rest)
  have "evaluator (depth c + n) (Call_eval_sub (plug L c f)) s = (Jump p w, t)"
    using InProgn.prems by (intro InProgn.IH) simp_all
  from jump_through_progn [OF this] show ?case
    by (simp only: plug.simps depth.simps add_Suc)
next
  case (InCatch tag c)
  have "evaluator (depth c + n) (Call_eval_sub (plug L c f)) (catch_state tag s)
        = (Jump p w, t)"
  proof (rule InCatch.IH)
    show "\<forall>y\<in>set (let_symbols c). plain_variable (catch_state tag s) y"
      using InCatch.prems(1) by (simp add: catch_state_frame)
    show "length (specpdl (catch_state tag s)) + length (let_symbols c)
          < specpdl_size (catch_state tag s)"
      using InCatch.prems(2) by (simp add: catch_state_frame)
    show "p < prompt_tags (catch_state tag s)"
      using InCatch.prems(3) by (simp add: catch_state_frame)
    show "evaluator n (Call_eval_sub f) (enter L c (catch_state tag s)) = (Jump p w, t)"
      using InCatch.prems(4) by (simp only: enter_InCatch)
  qed
  from jump_through_catch [OF this InCatch.prems(3)] show ?case
    by (simp only: plug.simps depth.simps add_Suc)
qed


text \<open>\<open>dynstack_unwind\<close> through the entries of one form.\<close>

lemma unwind_let_entry:
  assumes "dynstack t = WindUnwinder unbind_once_fn e # WindFrame # rest"
    and "specpdl t = SPECPDL_LET (Symbol x) old # pd"
    and "redirect (symtab t x) = SYMBOL_PLAINVAL v"
  shows "evaluator (Suc (Suc (Suc n))) (Call_dynstack_unwind p) t
         = evaluator (Suc n) (Call_dynstack_unwind p)
             (SET_SYMBOL_VAL x old (t\<lparr>dynstack := rest, specpdl := pd\<rparr>))"
proof -
  have "unbind_once (t\<lparr>dynstack := WindFrame # rest\<rparr>)
        = (Ret (), SET_SYMBOL_VAL x old (t\<lparr>dynstack := WindFrame # rest, specpdl := pd\<rparr>))"
    using assms(2,3) by (simp add: unbind_once_plain [where rest = pd and v = v])
  then have r: "evaluator (Suc (Suc n)) (Call_run_unwinder unbind_once_fn)
                  (t\<lparr>dynstack := WindFrame # rest\<rparr>)
        = (Ret Qnil, SET_SYMBOL_VAL x old (t\<lparr>dynstack := WindFrame # rest, specpdl := pd\<rparr>))"
    by (simp add: xsignal_def)
  have f: "(SET_SYMBOL_VAL x old (t\<lparr>dynstack := WindFrame # rest, specpdl := pd\<rparr>))
             \<lparr>dynstack := rest\<rparr>
           = SET_SYMBOL_VAL x old (t\<lparr>dynstack := rest, specpdl := pd\<rparr>)"
    by (simp add: SET_SYMBOL_VAL_def SET_SYMBOL_REDIRECT_def)
  have "evaluator (Suc (Suc (Suc n))) (Call_dynstack_unwind p) t
        = dynstack_unwind (evaluator (Suc (Suc n))) p t"
    by (simp only: evaluator_Suc dispatch.simps)
  also have "\<dots> = evaluator (Suc (Suc n)) (Call_dynstack_unwind p)
                     (SET_SYMBOL_VAL x old (t\<lparr>dynstack := WindFrame # rest, specpdl := pd\<rparr>))"
    by (simp only: dynstack_unwind_def assms(1) list.case wind.case r prod.case result.case)
  also have "\<dots> = dynstack_unwind (evaluator (Suc n)) p
                     (SET_SYMBOL_VAL x old (t\<lparr>dynstack := WindFrame # rest, specpdl := pd\<rparr>))"
    by (simp only: evaluator_Suc dispatch.simps)
  also have "\<dots> = evaluator (Suc n) (Call_dynstack_unwind p)
                     (SET_SYMBOL_VAL x old (t\<lparr>dynstack := rest, specpdl := pd\<rparr>))"
    unfolding dynstack_unwind_def
    by (simp add: SET_SYMBOL_VAL_frame f del: evaluator.simps)
  finally show ?thesis .
qed

lemma run_log_form:
  assumes "redirect (symtab t L) = SYMBOL_PLAINVAL l" and "l \<noteq> Qunbound"
    and "\<not> sym_constant (symtab t L)"
  shows "evaluator (Suc (Suc (Suc (Suc (Suc n))))) (Call_run_unwinder (unwind_body_fn [log_form L k])) t
         = (Ret Qnil, SET_SYMBOL_VAL L (Cons k l) t)"
  using assms by (simp add: log_form_def Fsymbol_value_plain Fset_plain)

lemma unwind_protect_entry:
  assumes "dynstack t = WindUnwinder (unwind_body_fn [log_form L k]) e # WindFrame # rest"
    and "redirect (symtab t L) = SYMBOL_PLAINVAL l" and "l \<noteq> Qunbound"
    and "\<not> sym_constant (symtab t L)"
  shows "evaluator (Suc (Suc (Suc (Suc (Suc (Suc n)))))) (Call_dynstack_unwind p) t
         = evaluator (Suc (Suc (Suc (Suc n)))) (Call_dynstack_unwind p)
             (SET_SYMBOL_VAL L (Cons k l) (t\<lparr>dynstack := rest\<rparr>))"
proof -
  have r: "evaluator (Suc (Suc (Suc (Suc (Suc n)))))
             (Call_run_unwinder (unwind_body_fn [log_form L k])) (t\<lparr>dynstack := WindFrame # rest\<rparr>)
           = (Ret Qnil, SET_SYMBOL_VAL L (Cons k l) (t\<lparr>dynstack := WindFrame # rest\<rparr>))"
    by (rule run_log_form) (use assms(2,3,4) in simp_all)
  have f: "(SET_SYMBOL_VAL L (Cons k l) (t\<lparr>dynstack := WindFrame # rest\<rparr>))\<lparr>dynstack := rest\<rparr>
           = SET_SYMBOL_VAL L (Cons k l) (t\<lparr>dynstack := rest\<rparr>)"
    by (simp add: SET_SYMBOL_VAL_def SET_SYMBOL_REDIRECT_def)
  have "evaluator (Suc (Suc (Suc (Suc (Suc (Suc n)))))) (Call_dynstack_unwind p) t
        = dynstack_unwind (evaluator (Suc (Suc (Suc (Suc (Suc n)))))) p t"
    by (simp only: evaluator_Suc dispatch.simps)
  also have "\<dots> = evaluator (Suc (Suc (Suc (Suc (Suc n))))) (Call_dynstack_unwind p)
                     (SET_SYMBOL_VAL L (Cons k l) (t\<lparr>dynstack := WindFrame # rest\<rparr>))"
    by (simp only: dynstack_unwind_def assms(1) list.case wind.case r prod.case result.case)
  also have "\<dots> = dynstack_unwind (evaluator (Suc (Suc (Suc (Suc n))))) p
                     (SET_SYMBOL_VAL L (Cons k l) (t\<lparr>dynstack := WindFrame # rest\<rparr>))"
    by (simp only: evaluator_Suc dispatch.simps)
  also have "\<dots> = evaluator (Suc (Suc (Suc (Suc n)))) (Call_dynstack_unwind p)
                     (SET_SYMBOL_VAL L (Cons k l) (t\<lparr>dynstack := rest\<rparr>))"
    unfolding dynstack_unwind_def
    by (simp add: SET_SYMBOL_VAL_frame f del: evaluator.simps)
  finally show ?thesis .
qed


text \<open>The state after the unwinding of one form more.\<close>

lemma unwound_Here:
  assumes "plain_variable s L"
  shows "unwound L Here s = s"
proof -
  have st: "symtab s L\<lparr>redirect := SYMBOL_PLAINVAL (plain_value s L)\<rparr> = symtab s L"
    using plain_variableD(1) [OF assms] by simp
  show ?thesis
    by (simp add: unwound_def SET_SYMBOL_VAL_def SET_SYMBOL_REDIRECT_def st)
qed

lemma unwound_InProgn: "unwound L (InProgn c rest) s = unwound L c s"
  by (simp add: unwound_def)

lemma unwound_frame:
  "dynstack (unwound L c s) = dynstack s"
  "specpdl (unwound L c s) = specpdl s"
  "y \<noteq> L \<Longrightarrow> redirect (symtab (unwound L c s) y) = redirect (symtab s y)"
  "redirect (symtab (unwound L c s) L) = SYMBOL_PLAINVAL (foldr Cons (cleanups c) (plain_value s L))"
  "sym_constant (symtab (unwound L c s) y) = sym_constant (symtab s y)"
  by (simp_all add: unwound_def SET_SYMBOL_VAL_def SET_SYMBOL_REDIRECT_def)

lemma unwound_InLet:
  assumes "plain_variable s x" and "x \<noteq> L"
  shows "SET_SYMBOL_VAL x (plain_value s x)
           ((unwound L c (let_state x v s))\<lparr>dynstack := dynstack s, specpdl := specpdl s\<rparr>)
         = unwound L (InLet x v c) s"
proof -
  have st: "symtab s x\<lparr>redirect := SYMBOL_PLAINVAL (plain_value s x)\<rparr> = symtab s x"
    using plain_variableD(1) [OF assms(1)] by simp
  have pv: "plain_value (let_state x v s) L = plain_value s L"
    using assms(2) by (simp add: let_state_frame)
  show ?thesis
    unfolding unwound_def pv
    using assms(2) st
    by (auto simp: let_state_def SET_SYMBOL_VAL_def SET_SYMBOL_REDIRECT_def fun_upd_twist
        intro!: lisp_state.equality ext)
qed

lemma unwound_InProtect:
  "SET_SYMBOL_VAL L (Cons k (foldr Cons (cleanups c) (plain_value s L)))
     ((unwound L c (protect_state L k s))\<lparr>dynstack := dynstack s\<rparr>)
   = unwound L (InProtect c k) s"
  unfolding unwound_def protect_state_frame
  by (simp add: protect_state_def SET_SYMBOL_VAL_def SET_SYMBOL_REDIRECT_def)

lemma unwound_InCatch:
  "restore_handler (catch_handler tag s # handlerlist s)
     ((unwound L c (catch_state tag s))\<lparr>dynstack := dynstack s, handlerlist := handlerlist s\<rparr>)
   = unwound L (InCatch tag c) s"
  unfolding unwound_def catch_state_frame
  by (simp add: catch_state_def catch_handler_def restore_handler_def SET_SYMBOL_VAL_def
      SET_SYMBOL_REDIRECT_def)

lemma foldr_Cons_bound: "l \<noteq> Qunbound \<Longrightarrow> foldr Cons ks l \<noteq> Qunbound"
  by (cases ks) simp_all

text \<open>\<open>dynstack_unwind\<close> through the entries of all the forms, the innermost first.\<close>

lemma unwind_nesting:
  assumes "\<forall>x\<in>set (let_symbols c). plain_variable s x \<and> x \<noteq> L"
    and "length (specpdl s) + length (let_symbols c) < specpdl_size s"
    and "p < prompt_tags s"
    and "plain_variable s L" and "plain_value s L \<noteq> Qunbound"
  shows "evaluator (entries c + (n + 4)) (Call_dynstack_unwind p) (enter L c s)
         = evaluator (n + 4) (Call_dynstack_unwind p) (unwound L c s)"
  using assms
proof (induction c arbitrary: s n)
  case Here
  then show ?case by (simp add: unwound_Here del: evaluator.simps)
next
  case (InLet x v c)
  let ?s1 = "let_state x v s"
  have px: "plain_variable s x" and xL: "x \<noteq> L"
    and r: "Suc (length (specpdl s)) < specpdl_size s"
    using InLet.prems(1,2) by simp_all
  have "evaluator (entries c + (Suc (Suc n) + 4)) (Call_dynstack_unwind p) (enter L c ?s1)
        = evaluator (Suc (Suc n) + 4) (Call_dynstack_unwind p) (unwound L c ?s1)"
  proof (rule InLet.IH)
    show "\<forall>y\<in>set (let_symbols c). plain_variable ?s1 y \<and> y \<noteq> L"
      using InLet.prems(1) by (simp add: let_state_frame)
    show "length (specpdl ?s1) + length (let_symbols c) < specpdl_size ?s1"
      using InLet.prems(2) by (simp add: let_state_frame)
    show "p < prompt_tags ?s1" using InLet.prems(3) by (simp add: let_state_frame)
    show "plain_variable ?s1 L" using InLet.prems(4) by (simp add: let_state_frame)
    show "plain_value ?s1 L \<noteq> Qunbound" using InLet.prems(5) xL by (simp add: let_state_frame)
  qed
  also have "Suc (Suc n) + 4 = Suc (Suc (Suc (n + 3)))" by simp
  also have "evaluator (Suc (Suc (Suc (n + 3)))) (Call_dynstack_unwind p) (unwound L c ?s1)
        = evaluator (Suc (n + 3)) (Call_dynstack_unwind p)
            (SET_SYMBOL_VAL x (plain_value s x)
               ((unwound L c ?s1)\<lparr>dynstack := dynstack s, specpdl := specpdl s\<rparr>))"
    by (rule unwind_let_entry [where e = True and v = v])
      (use xL in \<open>simp_all add: unwound_frame\<close>, simp_all add: let_state_def)
  also have "Suc (n + 3) = n + 4" by simp
  finally show ?case
    by (simp only: unwound_InLet [OF px xL] enter_InLet [OF px r] entries.simps add_Suc
        add_Suc_right)
next
  case (InProtect c k)
  let ?s1 = "protect_state L k s"
  have "evaluator (entries c + (Suc (Suc n) + 4)) (Call_dynstack_unwind p) (enter L c ?s1)
        = evaluator (Suc (Suc n) + 4) (Call_dynstack_unwind p) (unwound L c ?s1)"
  proof (rule InProtect.IH)
    show "\<forall>y\<in>set (let_symbols c). plain_variable ?s1 y \<and> y \<noteq> L"
      using InProtect.prems(1) by (simp add: protect_state_frame)
    show "length (specpdl ?s1) + length (let_symbols c) < specpdl_size ?s1"
      using InProtect.prems(2) by (simp add: protect_state_frame)
    show "p < prompt_tags ?s1" using InProtect.prems(3) by (simp add: protect_state_frame)
    show "plain_variable ?s1 L" using InProtect.prems(4) by (simp add: protect_state_frame)
    show "plain_value ?s1 L \<noteq> Qunbound"
      using InProtect.prems(5) by (simp add: protect_state_frame)
  qed
  also have "Suc (Suc n) + 4 = Suc (Suc (Suc (Suc (Suc (Suc n)))))" by simp
  also have "evaluator (Suc (Suc (Suc (Suc (Suc (Suc n)))))) (Call_dynstack_unwind p)
               (unwound L c ?s1)
        = evaluator (Suc (Suc (Suc (Suc n)))) (Call_dynstack_unwind p)
            (SET_SYMBOL_VAL L (Cons k (foldr Cons (cleanups c) (plain_value s L)))
               ((unwound L c ?s1)\<lparr>dynstack := dynstack s\<rparr>))"
    by (rule unwind_protect_entry [where e = True])
      (use InProtect.prems(4,5) in \<open>simp_all add: unwound_frame protect_state_frame
         foldr_Cons_bound plain_variableD(2)\<close>, simp add: protect_state_def)
  also have "Suc (Suc (Suc (Suc n))) = n + 4" by simp
  finally show ?case
    by (simp only: unwound_InProtect enter_InProtect entries.simps add_Suc add_Suc_right)
next
  case (InProgn c rest)
  then show ?case by (simp add: unwound_InProgn del: evaluator.simps)
next
  case (InCatch tag c)
  let ?s1 = "catch_state tag s"
  have "evaluator (entries c + ((n + 4) + 4)) (Call_dynstack_unwind p) (enter L c ?s1)
        = evaluator ((n + 4) + 4) (Call_dynstack_unwind p) (unwound L c ?s1)"
  proof (rule InCatch.IH)
    show "\<forall>y\<in>set (let_symbols c). plain_variable ?s1 y \<and> y \<noteq> L"
      using InCatch.prems(1) by (simp add: catch_state_frame)
    show "length (specpdl ?s1) + length (let_symbols c) < specpdl_size ?s1"
      using InCatch.prems(2) by (simp add: catch_state_frame)
    show "p < prompt_tags ?s1" using InCatch.prems(3) by (simp add: catch_state_frame)
    show "plain_variable ?s1 L" using InCatch.prems(4) by (simp add: catch_state_frame)
    show "plain_value ?s1 L \<noteq> Qunbound"
      using InCatch.prems(5) by (simp add: catch_state_frame)
  qed
  also have "(n + 4) + 4 = Suc (Suc (Suc (Suc (n + 4))))" by simp
  also have "evaluator (Suc (Suc (Suc (Suc (n + 4))))) (Call_dynstack_unwind p) (unwound L c ?s1)
        = evaluator (n + 4) (Call_dynstack_unwind p)
            (restore_handler (catch_handler tag s # handlerlist s)
               ((unwound L c ?s1)\<lparr>dynstack := dynstack s, handlerlist := handlerlist s\<rparr>))"
    by (rule dynstack_unwind_icc_miss [where q = "prompt_tags s"])
      (use InCatch.prems(3) in \<open>simp_all add: unwound_frame catch_state_def\<close>)
  finally show ?case
    by (simp only: unwound_InCatch enter_InCatch entries.simps add_Suc add_Suc_right)
qed


text \<open>The handlers and the prompts at the innermost form.\<close>

lemma throw_find_catch_enter:
  assumes "\<forall>x\<in>set (let_symbols c). plain_variable s x"
    and "length (specpdl s) + length (let_symbols c) < specpdl_size s"
    and "tag \<notin> set (catch_tags c)"
  shows "throw_find_catch (handlerlist (enter L c s)) tag = throw_find_catch (handlerlist s) tag"
  using assms
proof (induction c arbitrary: s)
  case Here
  then show ?case by simp
next
  case (InLet x v c)
  have p: "plain_variable s x" and r: "Suc (length (specpdl s)) < specpdl_size s"
    using InLet.prems(1,2) by simp_all
  have "throw_find_catch (handlerlist (enter L c (let_state x v s))) tag
        = throw_find_catch (handlerlist (let_state x v s)) tag"
    using InLet.prems by (intro InLet.IH) (simp_all add: let_state_frame)
  then show ?case by (simp only: enter_InLet [OF p r] let_state_frame)
next
  case (InProtect c k)
  have "throw_find_catch (handlerlist (enter L c (protect_state L k s))) tag
        = throw_find_catch (handlerlist (protect_state L k s)) tag"
    using InProtect.prems by (intro InProtect.IH) (simp_all add: protect_state_frame)
  then show ?case by (simp only: enter_InProtect protect_state_frame)
next
  case (InProgn c rest)
  then show ?case by simp
next
  case (InCatch tag' c)
  have "throw_find_catch (handlerlist (enter L c (catch_state tag' s))) tag
        = throw_find_catch (handlerlist (catch_state tag' s)) tag"
    using InCatch.prems by (intro InCatch.IH) (simp_all add: catch_state_frame)
  moreover have "tag' \<noteq> tag" using InCatch.prems(3) by auto
  ultimately show ?case
    by (simp add: enter_InCatch catch_state_frame catch_handler_def del: enter.simps)
qed

lemma dynstack_enter:
  assumes "\<forall>x\<in>set (let_symbols c). plain_variable s x"
    and "length (specpdl s) + length (let_symbols c) < specpdl_size s"
    and "w \<in> set (dynstack s)"
  shows "w \<in> set (dynstack (enter L c s))"
  using assms
proof (induction c arbitrary: s)
  case Here
  then show ?case by simp
next
  case (InLet x v c)
  have p: "plain_variable s x" and r: "Suc (length (specpdl s)) < specpdl_size s"
    using InLet.prems(1,2) by simp_all
  have "w \<in> set (dynstack (enter L c (let_state x v s)))"
    using InLet.prems by (intro InLet.IH) (simp_all add: let_state_frame, simp add: let_state_def)
  then show ?case by (simp only: enter_InLet [OF p r])
next
  case (InProtect c k)
  have "w \<in> set (dynstack (enter L c (protect_state L k s)))"
    using InProtect.prems
    by (intro InProtect.IH) (simp_all add: protect_state_frame, simp add: protect_state_def)
  then show ?case by (simp only: enter_InProtect)
next
  case (InProgn c rest)
  then show ?case by simp
next
  case (InCatch tag' c)
  have "w \<in> set (dynstack (enter L c (catch_state tag' s)))"
    using InCatch.prems
    by (intro InCatch.IH) (simp_all add: catch_state_frame, simp add: catch_state_def)
  then show ?case by (simp only: enter_InCatch)
qed

text \<open>The throw in the innermost form, the catch around all the forms.\<close>

lemma throw_in_nesting:
  assumes "\<not> NILP tag" and "tag \<notin> set (catch_tags c)"
    and "\<forall>x\<in>set (let_symbols c). plain_variable s x \<and> x \<noteq> L"
    and "length (specpdl s) + length (let_symbols c) < specpdl_size s"
    and "plain_variable s L" and "plain_value s L \<noteq> Qunbound"
  shows "evaluator (Suc (Suc (Suc (entries c + (n + 4))))) (Call_eval_sub (Throw tag (Quote v)))
           (enter L (InCatch tag c) s)
         = (Jump (prompt_tags s) v, unwound L (InCatch tag c) s)"
proof -
  let ?s1 = "catch_state tag s"
  let ?t = "enter L c ?s1"
  have lets: "\<forall>x\<in>set (let_symbols c). plain_variable ?s1 x"
    using assms(3) by (simp add: catch_state_frame)
  have room: "length (specpdl ?s1) + length (let_symbols c) < specpdl_size ?s1"
    using assms(4) by (simp add: catch_state_frame)
  have h: "throw_find_catch (handlerlist ?t) tag = catch_handler tag s # handlerlist s"
    unfolding throw_find_catch_enter [OF lets room assms(2)]
    by (simp add: catch_state_frame catch_handler_def)
  have d: "WindPrompt (prompt_tags s) \<in> set (dynstack ?t)"
    by (rule dynstack_enter [OF lets room]) (simp add: catch_state_def)
  have u: "evaluator (entries c + (n + 4)) (Call_dynstack_unwind (prompt_tags s)) ?t
           = evaluator (n + 4) (Call_dynstack_unwind (prompt_tags s)) (unwound L c ?s1)"
    by (rule unwind_nesting)
      (use assms(3,4,5,6) in \<open>simp_all add: catch_state_frame\<close>)
  have n4: "n + 4 = Suc (Suc (Suc (Suc n)))" by simp
  have i: "evaluator (n + 4) (Call_dynstack_unwind (prompt_tags s)) (unwound L c ?s1)
           = (Ret Qnil, unwound L (InCatch tag c) s)"
    unfolding n4 unwound_InCatch [symmetric]
    by (rule dynstack_unwind_icc_hit) (simp add: unwound_frame catch_state_def)
  have "evaluator (Suc (Suc (Suc (entries c + (n + 4))))) (Call_eval_sub (Throw tag (Quote v))) ?t
        = eval_sub (evaluator (Suc (Suc (entries c + (n + 4))))) (Throw tag (Quote v)) ?t"
    by (simp only: evaluator_Suc dispatch.simps)
  also have "\<dots> = evaluator (Suc (Suc (entries c + (n + 4)))) (Call_Fthrow tag v) ?t"
  proof -
    have q: "evaluator (Suc (Suc (entries c + (n + 4)))) (Call_eval_sub (Quote v)) ?t
             = (Ret v, ?t)"
      by (simp only: evaluator_Suc dispatch.simps eval_sub.simps)
    show ?thesis
      by (simp only: eval_sub.simps q prod.case result.case)
  qed
  also have "\<dots> = Fthrow (evaluator (Suc (entries c + (n + 4)))) tag v ?t"
    by (simp only: evaluator_Suc dispatch.simps)
  also have "\<dots> = evaluator (Suc (entries c + (n + 4)))
                      (Call_abort_to_prompt (prompt_tags s) v) ?t"
    unfolding Fthrow_def h using assms(1)
    by (simp add: catch_handler_def del: evaluator.simps enter.simps)
  also have "\<dots> = abort_to_prompt (evaluator (entries c + (n + 4))) (prompt_tags s) v ?t"
    by (simp only: evaluator_Suc dispatch.simps)
  also have "\<dots> = (Jump (prompt_tags s) v, unwound L (InCatch tag c) s)"
    unfolding abort_to_prompt_def u i using d by simp
  finally have "evaluator (Suc (Suc (Suc (entries c + (n + 4)))))
                  (Call_eval_sub (Throw tag (Quote v))) ?t
        = (Jump (prompt_tags s) v, unwound L (InCatch tag c) s)" .
  then show ?thesis by (simp only: enter_InCatch)
qed


lemma catch_link:
  "evaluator (Suc (Suc n)) (Call_eval_sub (Catch tag f)) s
   = prompt_result (prompt_tags s) (\<lambda>v s. (Ret v, s))
       (then_dynwind_end (evaluator n) (evaluator n (Call_eval_sub f) (catch_state tag s)))"
proof -
  have "evaluator (Suc (Suc n)) (Call_eval_sub (Catch tag f)) s
        = internal_catch (evaluator n) tag f s"
    by simp
  also have "\<dots> = prompt_result (prompt_tags s) (\<lambda>v s. (Ret v, s))
                     (then_dynwind_end (evaluator n)
                        (evaluator n (Call_eval_sub f) (catch_state tag s)))"
    unfolding internal_catch_def Let_def split_beta catch_body_state [symmetric]
    by (simp add: make_catch_handler_def make_prompt_tag_def)
  finally show ?thesis .
qed

lemma unwound_InCatch_explicit:
  "unwound L (InCatch tag c) s
   = SET_SYMBOL_VAL L (foldr Cons (cleanups c) (plain_value s L))
       (s\<lparr>prompt_tags := Suc (prompt_tags s + length (catch_tags c)),
          immediate_quit := False\<rparr>)"
  by (simp add: unwound_def)

text \<open>
  Claim C3, amended.  \<open>Fthrow\<close> searches the handlers only \<open>if (!NILP (tag))\<close>: a throw
  to the tag \<open>nil\<close> signals \<open>no-catch\<close> even inside \<open>(catch nil ...)\<close>.  For every
  other tag the claim holds.  Here the tag is a symbol or an integer, where \<open>EQ\<close> is
  equality of the values, and the throw is the innermost form of any nesting of \<open>let\<close>
  bindings of plain variables, \<open>unwind-protect\<close> forms, \<open>progn\<close> bodies and catches of
  other tags, with room for the bindings on the binding stack.  Then, for every depth
  of evaluation from \<open>depth c + entries c + 9\<close> on, the catch returns the value thrown.
  In the final state every cleanup has pushed its value on the list in \<open>L\<close>, the
  innermost first, so that the list reads in the order of the nesting; every other
  variable has the value it had before the catch; and the handler list, the binding
  stack and the dynamic stack are those before the catch.  What differs besides \<open>L\<close> is
  the count of the prompt tags made and \<open>immediate_quit\<close>, which \<open>restore_handler\<close>
  clears.
\<close>

theorem catch_throw_round_trip:
  assumes "\<not> NILP tag" and "\<not> heap_object tag" and "tag \<notin> set (catch_tags c)"
    and "\<forall>x\<in>set (let_symbols c). plain_variable s x \<and> x \<noteq> L"
    and "length (specpdl s) + length (let_symbols c) < specpdl_size s"
    and "plain_variable s L" and "plain_value s L \<noteq> Qunbound"
  shows "evaluator (depth c + entries c + n + 9)
           (Call_eval_sub (Catch tag (plug L c (Throw tag (Quote v))))) s
         = (Ret v, SET_SYMBOL_VAL L (foldr Cons (cleanups c) (plain_value s L))
                     (s\<lparr>prompt_tags := Suc (prompt_tags s + length (catch_tags c)),
                        immediate_quit := False\<rparr>))"
proof -
  let ?m = "Suc (Suc (Suc (entries c + (n + 4))))"
  have t: "evaluator ?m (Call_eval_sub (Throw tag (Quote v))) (enter L c (catch_state tag s))
           = (Jump (prompt_tags s) v, unwound L (InCatch tag c) s)"
    using throw_in_nesting [OF assms(1,3,4,5,6,7), of n v] by (simp only: enter_InCatch)
  have j: "evaluator (depth c + ?m) (Call_eval_sub (plug L c (Throw tag (Quote v))))
             (catch_state tag s)
           = (Jump (prompt_tags s) v, unwound L (InCatch tag c) s)"
    by (rule jump_through [OF _ _ _ t])
      (use assms(4,5) in \<open>simp_all add: catch_state_frame\<close>)
  have e: "depth c + entries c + n + 9 = Suc (Suc (depth c + ?m))" by simp
  show ?thesis
    unfolding e catch_link j unwound_InCatch_explicit
    by (simp add: then_dynwind_end_def prompt_result_def)
qed


theorem catch_nil_tag_no_catch:
  "fst (evaluator 20
          (Call_eval_sub
             (ConditionCase (Symbol 100) (Catch Qnil (Throw Qnil (Quote (Integer 42))))
                [(Qerror, [SymbolValue (Symbol 100)])]))
          initial_state)
   = Ret (Cons Qno_catch (list2 Qnil (Integer 42)))"
  by code_simp

definition log_state :: lisp_state where
  "log_state = SET_SYMBOL_VAL 101 Qnil initial_state"

definition throw_nesting :: nesting where
  "throw_nesting =
     InLet 100 (Integer 1)
       (InProtect
          (InCatch (Symbol 51)
             (InProgn (InLet 100 (Integer 2) (InProtect Here (Integer 8))) [Quote Qnil]))
          (Integer 7))"

theorem catch_throw_round_trip_witness:
  "evaluator 29
     (Call_eval_sub (Catch (Symbol 50) (plug 101 throw_nesting (Throw (Symbol 50) (Quote (Integer 42))))))
     log_state
   = (Ret (Integer 42),
      SET_SYMBOL_VAL 101 (list2 (Integer 7) (Integer 8))
        (log_state\<lparr>prompt_tags := 3, immediate_quit := False\<rparr>))"
proof -
  have h: "\<not> NILP (Symbol 50)" "\<not> heap_object (Symbol 50)"
    "Symbol 50 \<notin> set (catch_tags throw_nesting)"
    "\<forall>x\<in>set (let_symbols throw_nesting). plain_variable log_state x \<and> x \<noteq> 101"
    "length (specpdl log_state) + length (let_symbols throw_nesting) < specpdl_size log_state"
    "plain_variable log_state 101" "plain_value log_state 101 \<noteq> Qunbound"
    by (simp_all add: NILP_def throw_nesting_def log_state_def plain_variable_def
        plain_value_def SET_SYMBOL_VAL_def SET_SYMBOL_REDIRECT_def initial_state_def
        initial_symbol_def)
  have v: "plain_value log_state 101 = Qnil" "prompt_tags log_state = 1"
    by (simp_all add: log_state_def plain_value_def SET_SYMBOL_VAL_def SET_SYMBOL_REDIRECT_def
        initial_state_def)
  have c: "depth throw_nesting + entries throw_nesting + 0 + 9 = 29"
    "cleanups throw_nesting = [Integer 7, Integer 8]"
    "length (catch_tags throw_nesting) = 1"
    by (simp_all add: throw_nesting_def)
  from catch_throw_round_trip [OF h, of 0 "Integer 42"] show ?thesis
    unfolding c v by (simp add: list2_def numeral_3_eq_3)
qed


end
